(* ===== verification/Prelude.thy ===== *)
theory Prelude
  imports Main "HOL-Library.Word" "HOL-Library.AList"
begin

text \<open>
  Shared ground of the development: the Go types the components use (machine
  integers, byte slices that may be nil, maps, the two-valued results of
  fallible functions), the parts of the Go standard library that several
  components call (\<^verbatim>\<open>encoding/hex\<close>, decimal formatting, little-endian
  \<^verbatim>\<open>encoding/binary\<close>), and the lemmas on lists, maps and words that carry the
  component proofs.

  Conventions.  \<open>uint8/32/64\<close> are words of that width, so \<open>+\<close>, \<open>-\<close>, \<open>*\<close> wrap as in
  Go.  \<open>int64\<close> and \<open>int\<close> are \<^typ>\<open>int\<close>, with \<open>i64\<close> written wherever the code computes
  a value that may leave the 64-bit range.  A \<open>string\<close> is a list of bytes, as in
  Go.  A slice is a list, or an optional list where the code distinguishes nil
  from empty.  A map is an association list without duplicate keys; its list
  order is the order in which a \<open>range\<close> loop visits it, so a theorem that holds
  for every such list holds for every visiting order.  Errors are the code's
  message texts with the formatted arguments left out.
\<close>

unbundle bit_operations_syntax

named_theorems go_simps \<open>equations that evaluate the Go helpers\<close>
named_theorems len_simps \<open>lengths of the fixed-width encodings\<close>

subsection \<open>Types\<close>

type_synonym byte = "8 word"
type_synonym bytes = "8 word list"
type_synonym u8 = "8 word"
type_synonym u32 = "32 word"
type_synonym u64 = "64 word"
type_synonym slice = "8 word list option"
type_synonym error = string
type_synonym 'a res = "string + 'a"
type_synonym ('k, 'v) gomap = "('k \<times> 'v) list"

text \<open>Reading a slice: nil has no elements.\<close>

definition sl :: "slice \<Rightarrow> bytes" where
  "sl s = (case s of None \<Rightarrow> [] | Some b \<Rightarrow> b)"

lemma sl_simps [simp, go_simps]: "sl None = []" "sl (Some b) = b"
  by (simp_all add: sl_def)

text \<open>Two's complement wrap-around of an \<open>int64\<close> computation.\<close>

definition i64 :: "int \<Rightarrow> int" where
  "i64 x = (x + 2 ^ 63) mod 2 ^ 64 - 2 ^ 63"

lemma i64_range: "- (2 ^ 63) \<le> i64 x" "i64 x < 2 ^ 63"
proof -
  have "0 \<le> (x + 2 ^ 63) mod 2 ^ 64" "(x + 2 ^ 63) mod 2 ^ 64 < (2::int) ^ 64"
    by simp_all
  then show "- (2 ^ 63) \<le> i64 x" "i64 x < 2 ^ 63"
    by (simp_all add: i64_def)
qed

lemma i64_id: "- (2 ^ 63) \<le> x \<Longrightarrow> x < 2 ^ 63 \<Longrightarrow> i64 x = x"
  by (simp add: i64_def)

text \<open>Go's integer division truncates towards zero.\<close>

definition tdiv :: "int \<Rightarrow> int \<Rightarrow> int" where
  "tdiv a b = sgn a * sgn b * (\<bar>a\<bar> div \<bar>b\<bar>)"

definition tmod :: "int \<Rightarrow> int \<Rightarrow> int" where
  "tmod a b = a - b * tdiv a b"

lemma tdiv_nonneg: "0 \<le> a \<Longrightarrow> 0 < b \<Longrightarrow> tdiv a b = a div b"
  by (cases "a = 0") (simp_all add: tdiv_def)

lemma tmod_nonneg: "0 \<le> a \<Longrightarrow> 0 < b \<Longrightarrow> tmod a b = a mod b"
  by (simp add: tmod_def tdiv_nonneg minus_mult_div_eq_mod)

text \<open>Word values as numbers.\<close>

lemma unat_byte_less: "unat (b :: byte) < 256"
  by (rule unsigned_less [THEN order_less_le_trans]) simp

lemma unat_u32_less: "unat (w :: u32) < 256 ^ 4"
  by (rule unsigned_less [THEN order_less_le_trans]) simp

lemma unat_u64_less: "unat (w :: u64) < 256 ^ 8"
  by (rule unsigned_less [THEN order_less_le_trans]) simp

subsection \<open>Maps\<close>

definition gget :: "('k, 'v) gomap \<Rightarrow> 'k \<Rightarrow> 'v option" where
  "gget m k = map_of m k"

definition gput :: "'k \<Rightarrow> 'v \<Rightarrow> ('k, 'v) gomap \<Rightarrow> ('k, 'v) gomap" where
  "gput k v m = AList.update k v m"

definition gdel :: "'k \<Rightarrow> ('k, 'v) gomap \<Rightarrow> ('k, 'v) gomap" where
  "gdel k m = AList.delete k m"

definition gmap_ok :: "('k, 'v) gomap \<Rightarrow> bool" where
  "gmap_ok m \<longleftrightarrow> distinct (map fst m)"

lemma gget_Nil [simp, go_simps]: "gget [] k = None"
  by (simp add: gget_def)

lemma gget_Cons [go_simps]: "gget ((a, v) # m) k = (if a = k then Some v else gget m k)"
  by (simp add: gget_def)

lemma gget_gput [simp]: "gget (gput k v m) k' = (if k = k' then Some v else gget m k')"
  by (simp add: gget_def gput_def update_conv')

lemma gget_gdel [simp]: "gget (gdel k m) k' = (if k = k' then None else gget m k')"
  by (auto simp: gget_def gdel_def delete_conv')

lemma gmap_ok_Nil [simp]: "gmap_ok []"
  by (simp add: gmap_ok_def)

lemma gmap_ok_gput [simp]: "gmap_ok m \<Longrightarrow> gmap_ok (gput k v m)"
  by (simp add: gmap_ok_def gput_def distinct_update)

lemma gmap_ok_gdel [simp]: "gmap_ok m \<Longrightarrow> gmap_ok (gdel k m)"
  by (simp add: gmap_ok_def gdel_def distinct_delete)

lemma keys_gput: "fst ` set (gput k v m) = insert k (fst ` set m)"
  by (simp add: gput_def dom_update)

lemma keys_gdel: "fst ` set (gdel k m) = fst ` set m - {k}"
  by (auto simp: gdel_def delete_keys [symmetric] AList.delete_eq)

lemma gget_None_iff: "gget m k = None \<longleftrightarrow> k \<notin> fst ` set m"
  by (simp add: gget_def map_of_eq_None_iff)

lemma gget_Some_iff: "gmap_ok m \<Longrightarrow> gget m k = Some v \<longleftrightarrow> (k, v) \<in> set m"
  by (simp add: gmap_ok_def gget_def)

lemma gget_SomeD: "gget m k = Some v \<Longrightarrow> (k, v) \<in> set m"
  by (simp add: gget_def map_of_SomeD)

lemma length_gput: "length (gput k v m) = (if k \<in> fst ` set m then length m else Suc (length m))"
  by (induction m) (auto simp: gput_def)

lemma gdel_id: "k \<notin> fst ` set m \<Longrightarrow> gdel k m = m"
  by (simp add: gdel_def delete_idem)

lemma length_gdel:
  "gmap_ok m \<Longrightarrow> length (gdel k m) = (if k \<in> fst ` set m then length m - 1 else length m)"
proof (induction m)
  case Nil
  then show ?case by (simp add: gdel_def)
next
  case (Cons p m)
  then have ok: "gmap_ok m" and notin: "fst p \<notin> fst ` set m"
    by (auto simp: gmap_ok_def)
  show ?case
  proof (cases "fst p = k")
    case True
    have "gdel k (p # m) = gdel k m"
      using True by (cases p) (simp add: gdel_def)
    also have "gdel k m = m"
      using True notin by (simp add: gdel_id)
    finally show ?thesis using True by simp
  next
    case False
    have "gdel k (p # m) = p # gdel k m"
      using False by (cases p) (simp add: gdel_def)
    with Cons.IH [OF ok] False show ?thesis
      by (cases m) auto
  qed
qed

lemma set_gput: "gmap_ok m \<Longrightarrow> set (gput k v m) = insert (k, v) {p \<in> set m. fst p \<noteq> k}"
  by (induction m) (force simp: gput_def gmap_ok_def)+

lemma set_gdel: "set (gdel k m) = {p \<in> set m. fst p \<noteq> k}"
  by (induction m) (auto simp: gdel_def)

lemma gdel_gput_new: "gget m k = None \<Longrightarrow> gdel k (gput k v m) = m"
  by (induction m) (auto simp: gdel_def gput_def gget_def delete_idem map_of_eq_None_iff split: if_splits)

text \<open>Sums over the values of a map, in any ring.\<close>

definition gsum :: "('v \<Rightarrow> 'a::comm_monoid_add) \<Rightarrow> ('k, 'v) gomap \<Rightarrow> 'a" where
  "gsum f m = sum_list (map (\<lambda>(k, v). f v) m)"

definition fsum :: "('v \<Rightarrow> 'a::comm_monoid_add) \<Rightarrow> 'v option \<Rightarrow> 'a" where
  "fsum f x = (case x of None \<Rightarrow> 0 | Some v \<Rightarrow> f v)"

lemma fsum_simps [simp]: "fsum f None = 0" "fsum f (Some v) = f v"
  by (simp_all add: fsum_def)

lemma gsum_Nil [simp]: "gsum f [] = 0"
  by (simp add: gsum_def)

lemma gsum_gput:
  "gmap_ok m \<Longrightarrow> gsum f (gput k v m) + fsum f (gget m k) = gsum f m + f v"
proof (induction m)
  case Nil
  then show ?case by (simp add: gsum_def gput_def)
next
  case (Cons p m)
  obtain a w where p: "p = (a, w)" by (cases p)
  have ok: "gmap_ok m" and notin: "a \<notin> fst ` set m"
    using Cons.prems p by (auto simp: gmap_ok_def)
  show ?case
  proof (cases "a = k")
    case True
    then show ?thesis
      using p by (simp add: gsum_def gput_def gget_Cons ac_simps)
  next
    case False
    then have "gsum f (gput k v (p # m)) + fsum f (gget (p # m) k)
      = f w + (gsum f (gput k v m) + fsum f (gget m k))"
      using p by (simp add: gsum_def gput_def gget_Cons ac_simps)
    also have "\<dots> = f w + (gsum f m + f v)"
      using Cons.IH [OF ok] by simp
    finally show ?thesis
      using p by (simp add: gsum_def ac_simps)
  qed
qed

lemma gsum_gput_diff:
  fixes f :: "'v \<Rightarrow> 'a::ab_group_add"
  assumes "gmap_ok m"
  shows "gsum f (gput k v m) = gsum f m + f v - fsum f (gget m k)"
  using gsum_gput [OF assms, of f k v] by (simp add: algebra_simps eq_diff_eq)

subsection \<open>Text and bytes\<close>

definition bytes_of_string :: "string \<Rightarrow> bytes" where
  "bytes_of_string s = map of_char s"

lemma length_bytes_of_string [simp, len_simps]: "length (bytes_of_string s) = length s"
  by (simp add: bytes_of_string_def)

lemma inj_of_char_byte: "inj (of_char :: char \<Rightarrow> byte)"
proof (rule injI)
  fix x y :: char
  assume eq: "(of_char x :: byte) = of_char y"
  have "(of_char x :: byte) = word_of_nat (of_char x)" "(of_char y :: byte) = word_of_nat (of_char y)"
    by (simp_all add: of_char_def)
  then have "unat (word_of_nat (of_char x) :: byte) = unat (word_of_nat (of_char y) :: byte)"
    using eq by simp
  moreover have "of_char x < (256::nat)" "of_char y < (256::nat)"
    by simp_all
  ultimately have "(of_char x :: nat) = of_char y"
    by (simp add: unat_of_nat)
  then show "x = y" by simp
qed

lemma bytes_of_string_inj [simp]: "bytes_of_string s = bytes_of_string t \<longleftrightarrow> s = t"
  by (simp add: bytes_of_string_def inj_map_eq_map inj_of_char_byte)

text \<open>\<^verbatim>\<open>hex.EncodeToString\<close> and \<^verbatim>\<open>hex.DecodeString\<close>. Decoding returns the bytes read
  before the first bad digit together with a success flag, as the library does.\<close>

definition hexdigit :: "nat \<Rightarrow> char" where
  "hexdigit n = (if n < 10 then char_of (48 + n) else char_of (87 + n))"

definition hexval :: "char \<Rightarrow> nat option" where
  "hexval c = (let n = of_char c :: nat in
     if 48 \<le> n \<and> n \<le> 57 then Some (n - 48)
     else if 97 \<le> n \<and> n \<le> 102 then Some (n - 87)
     else if 65 \<le> n \<and> n \<le> 70 then Some (n - 55)
     else None)"

primrec hex_encode :: "bytes \<Rightarrow> string" where
  "hex_encode [] = []"
| "hex_encode (b # bs) = hexdigit (unat b div 16) # hexdigit (unat b mod 16) # hex_encode bs"

fun hex_decode :: "string \<Rightarrow> bytes \<times> bool" where
  "hex_decode [] = ([], True)"
| "hex_decode [c] = ([], False)"
| "hex_decode (c # d # r) =
     (case (hexval c, hexval d) of
        (Some a, Some b) \<Rightarrow> (let (bs, ok) = hex_decode r in (word_of_nat (16 * a + b) # bs, ok))
      | _ \<Rightarrow> ([], False))"

lemma hexval_hexdigit: "n < 16 \<Longrightarrow> hexval (hexdigit n) = Some n"
  by (auto simp: hexval_def hexdigit_def Let_def)


lemma byte_nibbles: "word_of_nat (16 * (unat b div 16) + unat b mod 16) = (b :: byte)"
proof -
  have "16 * (unat b div 16) + unat b mod 16 = unat b"
    by simp
  then show ?thesis by simp
qed

lemma hex_decode_encode [simp]: "hex_decode (hex_encode bs) = (bs, True)"
proof (induction bs)
  case Nil
  then show ?case by simp
next
  case (Cons b bs)
  have "unat b div 16 < 16" "unat b mod 16 < 16"
    using unat_byte_less [of b] by simp_all
  then show ?case
    using Cons.IH by (simp add: hexval_hexdigit byte_nibbles del: of_nat_add of_nat_mult)
qed

lemma hex_encode_inj [simp]: "hex_encode a = hex_encode b \<longleftrightarrow> a = b"
  by (metis hex_decode_encode prod.inject)

lemma length_hex_encode [simp, len_simps]: "length (hex_encode bs) = 2 * length bs"
  by (induction bs) simp_all

lemma hex_encode_eq_Nil [simp]: "hex_encode bs = [] \<longleftrightarrow> bs = []"
  by (cases bs) simp_all

text \<open>Decimal formatting (\<^verbatim>\<open>%d\<close>, and JSON numbers).\<close>

fun dec_nat :: "nat \<Rightarrow> string" where
  "dec_nat n = (if n < 10 then [char_of (48 + n)] else dec_nat (n div 10) @ [char_of (48 + n mod 10)])"

declare dec_nat.simps [simp del]

definition dec_int :: "int \<Rightarrow> string" where
  "dec_int i = (if i < 0 then ''-'' @ dec_nat (nat (- i)) else dec_nat (nat i))"

text \<open>Little-endian and big-endian fixed-width integers.\<close>

primrec le_bytes :: "nat \<Rightarrow> nat \<Rightarrow> bytes" where
  "le_bytes 0 x = []"
| "le_bytes (Suc n) x = word_of_nat (x mod 256) # le_bytes n (x div 256)"

definition be_bytes :: "nat \<Rightarrow> nat \<Rightarrow> bytes" where
  "be_bytes n x = rev (le_bytes n x)"

lemma length_le_bytes [simp, len_simps]: "length (le_bytes n x) = n"
  by (induction n arbitrary: x) simp_all

lemma length_be_bytes [simp, len_simps]: "length (be_bytes n x) = n"
  by (simp add: be_bytes_def)

lemma le_bytes_inj: "x < 256 ^ n \<Longrightarrow> y < 256 ^ n \<Longrightarrow> le_bytes n x = le_bytes n y \<Longrightarrow> x = y"
proof (induction n arbitrary: x y)
  case 0
  then show ?case by simp
next
  case (Suc n)
  have "unat (word_of_nat (x mod 256) :: byte) = unat (word_of_nat (y mod 256) :: byte)"
    using Suc.prems(3) by simp
  then have "x mod 256 = y mod 256"
    by (simp add: unat_of_nat)
  moreover have "x div 256 = y div 256"
  proof (rule Suc.IH)
    show "x div 256 < 256 ^ n" "y div 256 < 256 ^ n"
      using Suc.prems(1,2) by (simp_all add: less_mult_imp_div_less mult.commute)
    show "le_bytes n (x div 256) = le_bytes n (y div 256)"
      using Suc.prems(3) by simp
  qed
  ultimately show ?case
    by (metis mult_div_mod_eq)
qed

definition le64 :: "u64 \<Rightarrow> bytes" where
  "le64 w = le_bytes 8 (unat w)"

definition le32 :: "u32 \<Rightarrow> bytes" where
  "le32 w = le_bytes 4 (unat w)"

definition le_i64 :: "int \<Rightarrow> bytes" where
  "le_i64 x = le_bytes 8 (nat (x mod 2 ^ 64))"

definition be64 :: "u64 \<Rightarrow> bytes" where
  "be64 w = be_bytes 8 (unat w)"

lemma length_fixed [simp, len_simps]:
  "length (le64 w) = 8" "length (le32 v) = 4" "length (le_i64 i) = 8" "length (be64 w) = 8"
  by (simp_all add: le64_def le32_def le_i64_def be64_def)

lemma le64_inj [simp]: "le64 a = le64 b \<longleftrightarrow> a = b"
proof
  assume "le64 a = le64 b"
  then have "unat a = unat b"
    unfolding le64_def by (rule le_bytes_inj [OF unat_u64_less unat_u64_less])
  then show "a = b" by (simp add: word_unat_eq_iff)
qed simp

lemma le32_inj [simp]: "le32 a = le32 b \<longleftrightarrow> a = b"
proof
  assume "le32 a = le32 b"
  then have "unat a = unat b"
    unfolding le32_def by (rule le_bytes_inj [OF unat_u32_less unat_u32_less])
  then show "a = b" by (simp add: word_unat_eq_iff)
qed simp

lemma be64_inj [simp]: "be64 a = be64 b \<longleftrightarrow> a = b"
  using le64_inj [of a b] by (simp add: be64_def le64_def be_bytes_def)

subsection \<open>Prefix codes\<close>

text \<open>
  An encoding whose images can be read off the front of a byte string without
  ambiguity.  The wire formats of the program are concatenations of such fields;
  a concatenation is injective field by field.
\<close>

locale prefix_code =
  fixes enc :: "'a \<Rightarrow> 'b list"
  assumes enc_split: "enc x @ r = enc y @ s \<Longrightarrow> x = y \<and> r = s"
begin

lemma enc_append_eq [simp]: "enc x @ r = enc y @ s \<longleftrightarrow> x = y \<and> r = s"
  using enc_split by blast

lemma enc_inject: "enc x = enc y \<longleftrightarrow> x = y"
  using enc_split [of x "[]" y "[]"] by auto

end

text \<open>Every injective encoding of a fixed width is a prefix code.\<close>

lemma fixed_width_split:
  assumes "\<And>x. length (enc x) = n" and "\<And>x y. enc x = enc y \<Longrightarrow> x = y"
    and "enc x @ r = enc y @ s"
  shows "x = y \<and> r = s"
proof -
  have "enc x = enc y \<and> r = s"
    using assms(1,3) by (simp add: append_eq_append_conv)
  then show ?thesis using assms(2) by blast
qed

interpretation le64: prefix_code le64
  by unfold_locales (rule fixed_width_split [where enc = le64 and n = 8], simp_all)

interpretation le32: prefix_code le32
  by unfold_locales (rule fixed_width_split [where enc = le32 and n = 4], simp_all)

interpretation be64: prefix_code be64
  by unfold_locales (rule fixed_width_split [where enc = be64 and n = 8], simp_all)

subsection \<open>Error handling\<close>

text \<open>\<^verbatim>\<open>v, err := f(); if err != nil { return err }\<close>\<close>

definition rbind :: "'a res \<Rightarrow> ('a \<Rightarrow> 'b res) \<Rightarrow> 'b res" where
  "rbind x f = (case x of Inl e \<Rightarrow> Inl e | Inr v \<Rightarrow> f v)"

lemma rbind_simps [simp]: "rbind (Inl e) f = Inl e" "rbind (Inr v) f = f v"
  by (simp_all add: rbind_def)

lemma rbind_Inr_iff: "rbind x f = Inr w \<longleftrightarrow> (\<exists>v. x = Inr v \<and> f v = Inr w)"
  by (cases x) simp_all

subsection \<open>Kept invariants\<close>

text \<open>
  The contract of the stateful components: every operation keeps the invariant, so every
  sequence of operations does.
\<close>

locale kept =
  fixes inv :: "'s \<Rightarrow> bool" and step :: "'op \<Rightarrow> 's \<Rightarrow> 's"
  assumes step_kept: "inv s \<Longrightarrow> inv (step x s)"
begin

lemma run_kept: "inv s \<Longrightarrow> inv (fold step xs s)"
  by (induction xs arbitrary: s) (simp_all add: step_kept)

end

end
