(* ===== verification/Sha256.thy ===== *)
theory Sha256
  imports Prelude
begin

text \<open>
  SHA-256 (FIPS 180-4), the function \<^verbatim>\<open>crypto/sha256.Sum256\<close> that addresses,
  transaction ids, Merkle trees, block headers, state commitments and the trie
  all call.  It is defined bit for bit; the component proofs use only that it
  returns 32 bytes, through the locale \<open>hash32\<close>.
\<close>

definition rotr32 :: "nat \<Rightarrow> u32 \<Rightarrow> u32" where
  "rotr32 n x = drop_bit n x OR push_bit (32 - n) x"

text \<open>The constants as the standard defines them: the first 32 bits of the fractional parts of the
  cube roots of the first 64 primes, and of the square roots of the first 8.\<close>

definition primes64 :: "nat list" where
  "primes64 = filter (\<lambda>n. list_all (\<lambda>d. n mod d \<noteq> 0) [2..<n]) [2..<312]"

text \<open>The integer \<open>k\<close>-th root, bit by bit; 40 bits are enough for the arguments below.\<close>

definition iroot :: "nat \<Rightarrow> nat \<Rightarrow> nat" where
  "iroot k n = fold (\<lambda>i r. if (r + 2 ^ i) ^ k \<le> n then r + 2 ^ i else r) (rev [0..<40]) 0"

definition frac_root :: "nat \<Rightarrow> nat \<Rightarrow> u32" where
  "frac_root k p = word_of_nat (iroot k (p * 2 ^ (32 * k)))"

definition sha_K :: "u32 list" where
  "sha_K = map (frac_root 3) primes64"

definition sha_H0 :: "u32 list" where
  "sha_H0 = map (frac_root 2) (take 8 primes64)"

definition be32 :: "u32 \<Rightarrow> bytes" where
  "be32 w = [ucast (drop_bit 24 w), ucast (drop_bit 16 w), ucast (drop_bit 8 w), ucast w]"

fun sha_words :: "bytes \<Rightarrow> u32 list" where
  "sha_words (a # b # c # d # r) =
     (push_bit 24 (ucast a) OR push_bit 16 (ucast b) OR push_bit 8 (ucast c) OR ucast d) # sha_words r"
| "sha_words _ = []"

text \<open>The message schedule, newest word first.\<close>

fun sha_sched :: "nat \<Rightarrow> u32 list \<Rightarrow> u32 list" where
  "sha_sched 0 ws = ws"
| "sha_sched (Suc n) ws =
    (let w2 = ws ! 1; w15 = ws ! 14;
         s0 = rotr32 7 w15 XOR rotr32 18 w15 XOR drop_bit 3 w15;
         s1 = rotr32 17 w2 XOR rotr32 19 w2 XOR drop_bit 10 w2
     in sha_sched n ((ws ! 15 + s0 + ws ! 6 + s1) # ws))"

fun sha_round :: "u32 \<times> u32 \<Rightarrow> u32 list \<Rightarrow> u32 list" where
  "sha_round (k, w) [a, b, c, d, e, f, g, h] =
    (let s1 = rotr32 6 e XOR rotr32 11 e XOR rotr32 25 e;
         ch = (e AND f) XOR (NOT e AND g);
         t1 = h + s1 + ch + k + w;
         s0 = rotr32 2 a XOR rotr32 13 a XOR rotr32 22 a;
         maj = (a AND b) XOR (a AND c) XOR (b AND c)
     in [t1 + (s0 + maj), a, b, c, d + t1, e, f, g])"
| "sha_round _ s = s"

definition sha_compress :: "u32 list \<Rightarrow> u32 list \<Rightarrow> u32 list" where
  "sha_compress hs ws = map2 (+) hs (fold sha_round (zip sha_K (rev (sha_sched 48 (rev ws)))) hs)"

fun sha_blocks :: "u32 list \<Rightarrow> u32 list \<Rightarrow> u32 list" where
  "sha_blocks hs ws =
     (if length ws < 16 then hs else sha_blocks (sha_compress hs (take 16 ws)) (drop 16 ws))"

declare sha_blocks.simps [simp del]

definition sha_pad :: "bytes \<Rightarrow> bytes" where
  "sha_pad m = m @ 0x80 # replicate ((119 - length m mod 64) mod 64) 0 @ be_bytes 8 (8 * length m)"

definition sha256 :: "bytes \<Rightarrow> bytes" where
  "sha256 m = concat (map be32 (sha_blocks sha_H0 (sha_words (sha_pad m))))"

lemma length_primes64: "8 \<le> length primes64"
proof -
  have "[2..<312] = [2..<20] @ [20..<312::nat]" using upt_add_eq_append [of 2 20 292] by (simp del: upt_rec_numeral)
  moreover have "length (filter (\<lambda>n. list_all (\<lambda>d. n mod d \<noteq> 0) [2..<n]) [2..<20::nat]) = 8"
    by simp
  ultimately show ?thesis by (simp add: primes64_def del: upt_rec_numeral)
qed

lemma length_sha_H0 [simp]: "length sha_H0 = 8"
  using length_primes64 by (simp add: sha_H0_def)

lemma length_sha_round [simp]: "length (sha_round kw s) = length s"
  by (induction kw s rule: sha_round.induct) (simp_all add: Let_def)

lemma length_fold_sha_round [simp]: "length (fold sha_round kws s) = length s"
  by (induction kws arbitrary: s) simp_all

lemma length_sha_compress [simp]: "length (sha_compress hs ws) = length hs"
  by (simp add: sha_compress_def)

lemma length_sha_blocks [simp]: "length (sha_blocks hs ws) = length hs"
proof (induction hs ws rule: sha_blocks.induct)
  case (1 hs ws)
  then show ?case by (subst sha_blocks.simps) simp
qed

lemma length_concat_be32: "length (concat (map be32 ws)) = 4 * length ws"
  by (induction ws) (simp_all add: be32_def)

lemma length_sha256 [simp, len_simps]: "length (sha256 m) = 32"
  by (simp add: sha256_def length_concat_be32)

lemma sha256_neq_Nil [simp]: "sha256 m \<noteq> []"
  using length_sha256 [of m] by (metis list.size(3) zero_neq_numeral)

subsection \<open>The interface the components rely on\<close>

text \<open>Two lists of messages that contain a colliding pair. The component theorems
  name the lists: the messages one run of the code hashes.\<close>

definition collides :: "('a \<Rightarrow> 'b) \<Rightarrow> 'a list \<Rightarrow> 'a list \<Rightarrow> bool" where
  "collides H A B \<longleftrightarrow> (\<exists>x \<in> set A. \<exists>y \<in> set B. x \<noteq> y \<and> H x = H y)"

lemma collidesI: "x \<in> set A \<Longrightarrow> y \<in> set B \<Longrightarrow> x \<noteq> y \<Longrightarrow> H x = H y \<Longrightarrow> collides H A B"
  by (auto simp: collides_def)

lemma collides_mono: "collides H A B \<Longrightarrow> set A \<subseteq> set A' \<Longrightarrow> set B \<subseteq> set B' \<Longrightarrow> collides H A' B'"
  by (auto simp: collides_def)

lemma collides_append: "collides H A B \<Longrightarrow> collides H (A @ A') (B @ B')"
    "collides H A' B' \<Longrightarrow> collides H (A @ A') (B @ B')"
  by (auto simp: collides_def)

text \<open>A hash function with digests of 32 bytes.\<close>

locale hash32 =
  fixes H :: "bytes \<Rightarrow> bytes"
  assumes hash_length: "length (H m) = 32"
begin

text \<open>Messages made of a one-byte tag and two digests separate their parts.\<close>

lemma tagged_pair_eq:
  assumes "H (t # H a @ b) = H (t' # H c @ d)"
  shows "(t = t' \<and> H a = H c \<and> b = d) \<or> collides H [t # H a @ b] [t' # H c @ d]"
proof (cases "t # H a @ b = t' # H c @ d")
  case True
  then show ?thesis by (simp add: hash_length)
next
  case False
  then show ?thesis using assms by (auto simp: collides_def)
qed

end

interpretation sha: hash32 sha256
  by unfold_locales (rule length_sha256)

end
