(* ===== verification/JsonEnc.thy ===== *)
theory JsonEnc
  imports Prelude
begin

text \<open>
  What the program uses of \<^verbatim>\<open>encoding/json\<close> and \<^verbatim>\<open>encoding/base64\<close>: the text that
  \<^verbatim>\<open>json.Marshal\<close> produces for a struct of strings, integers and byte slices.
  Legacy transaction ids, legacy block headers and the block-size rule are
  computed from this text.
\<close>

subsection \<open>Strings\<close>

text \<open>The length of the UTF-8 sequence at the front, 0 if there is none (an invalid
  byte, which the encoder replaces).\<close>

definition cont :: "nat \<Rightarrow> bool" where
  "cont n \<longleftrightarrow> 128 \<le> n \<and> n \<le> 191"

fun utf8_len :: "nat list \<Rightarrow> nat" where
  "utf8_len (a # r) =
     (if a < 128 then 1
      else if 194 \<le> a \<and> a \<le> 223 then
        (case r of b # _ \<Rightarrow> if cont b then 2 else 0 | [] \<Rightarrow> 0)
      else if 224 \<le> a \<and> a \<le> 239 then
        (case r of b # c # _ \<Rightarrow>
           if cont b \<and> cont c \<and> (a = 224 \<longrightarrow> 160 \<le> b) \<and> (a = 237 \<longrightarrow> b \<le> 159) then 3 else 0
         | _ \<Rightarrow> 0)
      else if 240 \<le> a \<and> a \<le> 244 then
        (case r of b # c # d # _ \<Rightarrow>
           if cont b \<and> cont c \<and> cont d \<and> (a = 240 \<longrightarrow> 144 \<le> b) \<and> (a = 244 \<longrightarrow> b \<le> 143) then 4 else 0
         | _ \<Rightarrow> 0)
      else 0)"
| "utf8_len [] = 0"

definition json_ascii :: "nat \<Rightarrow> string" where
  "json_ascii n =
     (if n = 34 then [CHR 0x5C, CHR 0x22]
      else if n = 92 then [CHR 0x5C, CHR 0x5C]
      else if n = 8 then [CHR 0x5C] @ ''b''
      else if n = 12 then [CHR 0x5C] @ ''f''
      else if n = 10 then [CHR 0x5C] @ ''n''
      else if n = 13 then [CHR 0x5C] @ ''r''
      else if n = 9 then [CHR 0x5C] @ ''t''
      else if n < 32 \<or> n = 60 \<or> n = 62 \<or> n = 38
      then [CHR 0x5C] @ ''u00'' @ [hexdigit (n div 16), hexdigit (n mod 16)]
      else [char_of n])"

function json_escape :: "string \<Rightarrow> string" where
  "json_escape s =
     (case s of [] \<Rightarrow> []
      | c # r \<Rightarrow>
        (let n = of_char c :: nat; k = utf8_len (map of_char s) in
         if n < 128 then json_ascii n @ json_escape r
         else if k = 0 then [CHR 0x5C] @ ''ufffd'' @ json_escape r
         else if take 3 (map of_char s) = [226, 128, 168 :: nat] then [CHR 0x5C] @ ''u2028'' @ json_escape (drop k s)
         else if take 3 (map of_char s) = [226, 128, 169 :: nat] then [CHR 0x5C] @ ''u2029'' @ json_escape (drop k s)
         else take k s @ json_escape (drop k s)))"
  by pat_completeness auto
termination
  by (relation "measure length") auto

declare json_escape.simps [simp del]

definition json_string :: "string \<Rightarrow> string" where
  "json_string s = CHR 0x22 # json_escape s @ [CHR 0x22]"

subsection \<open>Byte slices\<close>

definition b64_char :: "nat \<Rightarrow> char" where
  "b64_char n = char_of
     (if n < 26 then 65 + n else if n < 52 then 71 + n else if n < 62 then n - 4
      else if n = 62 then 43 else (47::nat))"

fun base64 :: "bytes \<Rightarrow> string" where
  "base64 [] = []"
| "base64 [a] = (let n = unat a * 16 in [b64_char (n div 64), b64_char (n mod 64)] @ ''=='')"
| "base64 [a, b] =
     (let n = (unat a * 256 + unat b) * 4
      in [b64_char (n div 4096), b64_char (n div 64 mod 64), b64_char (n mod 64)] @ ''='')"
| "base64 (a # b # c # r) =
     (let n = unat a * 65536 + unat b * 256 + unat c
      in [b64_char (n div 262144), b64_char (n div 4096 mod 64), b64_char (n div 64 mod 64),
          b64_char (n mod 64)] @ base64 r)"

definition json_slice :: "slice \<Rightarrow> string" where
  "json_slice s = (case s of None \<Rightarrow> ''null'' | Some b \<Rightarrow> CHR 0x22 # base64 b @ [CHR 0x22])"

subsection \<open>Objects\<close>

text \<open>An object is a list of fields; the optional text is absent where an
  \<^verbatim>\<open>omitempty\<close> field is empty.\<close>

definition json_field :: "string \<times> string \<Rightarrow> string" where
  "json_field kv = json_string (fst kv) @ '':'' @ snd kv"

fun json_join :: "string list \<Rightarrow> string" where
  "json_join [] = []"
| "json_join [x] = x"
| "json_join (x # y # r) = x @ '','' @ json_join (y # r)"

definition json_object :: "(string \<times> string) list \<Rightarrow> string" where
  "json_object kvs = ''{'' @ json_join (map json_field kvs) @ ''}''"

definition json_list :: "string list \<Rightarrow> string" where
  "json_list xs = ''['' @ json_join xs @ '']''"

definition omit_when :: "bool \<Rightarrow> string \<Rightarrow> string \<Rightarrow> (string \<times> string) list" where
  "omit_when e k v = (if e then [] else [(k, v)])"

subsection \<open>Reading the text back\<close>

text \<open>A value in an object is followed by a comma or a closing brace.\<close>

definition json_delim :: "char \<Rightarrow> bool" where
  "json_delim c \<longleftrightarrow> c = CHR '','' \<or> c = CHR ''}''"

text \<open>An encoding of values that can be read off up to the delimiter.\<close>

locale delimited_code =
  fixes valid :: "'a \<Rightarrow> bool" and enc :: "'a \<Rightarrow> string"
  assumes enc_delim: "valid x \<Longrightarrow> valid y \<Longrightarrow> json_delim c \<Longrightarrow> json_delim d \<Longrightarrow>
    enc x @ c # r = enc y @ d # s \<Longrightarrow> x = y \<and> c # r = d # s"
begin

lemma enc_delim_eq:
  "valid x \<Longrightarrow> valid y \<Longrightarrow> json_delim c \<Longrightarrow> json_delim d \<Longrightarrow>
   enc x @ c # r = enc y @ d # s \<longleftrightarrow> x = y \<and> c = d \<and> r = s"
  using enc_delim by blast

end

lemma json_delim_simps [simp]: "json_delim (CHR '','')" "json_delim (CHR ''}'')"
  by (simp_all add: json_delim_def)

text \<open>Decimal numbers.\<close>

definition is_digit :: "char \<Rightarrow> bool" where
  "is_digit c \<longleftrightarrow> 48 \<le> (of_char c :: nat) \<and> (of_char c :: nat) \<le> 57"

definition dec_val :: "string \<Rightarrow> nat" where
  "dec_val s = foldl (\<lambda>a c. 10 * a + (of_char c - 48)) 0 s"

lemma dec_nat_digits: "c \<in> set (dec_nat n) \<Longrightarrow> is_digit c"
  by (induction n rule: dec_nat.induct) (subst (asm) (2) dec_nat.simps, auto simp: is_digit_def split: if_splits)

lemma dec_val_dec_nat [simp]: "dec_val (dec_nat n) = n"
proof (induction n rule: dec_nat.induct)
  case (1 n)
  then show ?case
    by (subst dec_nat.simps) (auto simp: dec_val_def)
qed

lemma digits_split:
  assumes "\<forall>c \<in> set a. is_digit c" "\<forall>c \<in> set b. is_digit c" "\<not> is_digit c" "\<not> is_digit d"
    and "a @ c # r = b @ d # s"
  shows "a = b \<and> c # r = d # s"
proof -
  have "takeWhile is_digit (a @ c # r) = a" using assms(1,3) by (simp add: takeWhile_append)
  moreover have "takeWhile is_digit (b @ d # s) = b" using assms(2,4) by (simp add: takeWhile_append)
  ultimately have "a = b" using assms(5) by simp
  with assms(5) show ?thesis by simp
qed

lemma delim_not_digit: "json_delim c \<Longrightarrow> \<not> is_digit c"
  by (auto simp: json_delim_def is_digit_def)

interpretation dec_nat: delimited_code "\<lambda>_. True" dec_nat
proof unfold_locales
  fix x y :: nat and c d r s
  assume "json_delim c" "json_delim d" "dec_nat x @ c # r = dec_nat y @ d # s"
  then have "dec_nat x = dec_nat y \<and> c # r = d # s"
    by (intro digits_split) (auto dest: dec_nat_digits delim_not_digit)
  then show "x = y \<and> c # r = d # s" by (metis dec_val_dec_nat)
qed

lemma dec_nat_not_minus: "dec_nat n @ r \<noteq> CHR ''-'' # s"
proof
  assume a: "dec_nat n @ r = CHR ''-'' # s"
  have "dec_nat n \<noteq> []" by (subst dec_nat.simps) simp
  with a have "CHR ''-'' \<in> set (dec_nat n)" by (cases "dec_nat n") auto
  from dec_nat_digits [OF this] show False by (simp add: is_digit_def)
qed

interpretation dec_int: delimited_code "\<lambda>_. True" dec_int
proof unfold_locales
  fix x y :: int and c d r s
  assume a: "json_delim c" "json_delim d" "dec_int x @ c # r = dec_int y @ d # s"
  then have "(x < 0) = (y < 0)"
    using dec_nat_not_minus by (metis append_Cons append_Nil dec_int_def)
  with a dec_nat.enc_delim_eq [of c d "nat (- x)" r "nat (- y)" s]
    dec_nat.enc_delim_eq [of c d "nat x" r "nat y" s]
  show "x = y \<and> c # r = d # s" by (auto simp: dec_int_def split: if_splits)
qed

text \<open>Strings of ASCII characters.\<close>

definition ascii :: "string \<Rightarrow> bool" where
  "ascii s \<longleftrightarrow> (\<forall>c \<in> set s. (of_char c :: nat) < 128)"

lemma json_escape_ascii: "ascii s \<Longrightarrow> json_escape s = concat (map (\<lambda>c. json_ascii (of_char c)) s)"
proof (induction s)
  case Nil
  then show ?case by (simp add: json_escape.simps)
next
  case (Cons c s)
  then show ?case by (subst json_escape.simps) (simp add: Let_def ascii_def)
qed

text \<open>Reading one escaped character.\<close>

definition unescape :: "char \<Rightarrow> nat" where
  "unescape e = (if e = CHR ''b'' then 8 else if e = CHR ''f'' then 12 else if e = CHR ''n'' then 10
     else if e = CHR ''r'' then 13 else if e = CHR ''t'' then 9 else of_char e)"

fun json_read :: "string \<Rightarrow> (nat \<times> string) option" where
  "json_read [] = None"
| "json_read (c # r) =
     (if c \<noteq> CHR 0x5C then Some (of_char c, r)
      else case r of
        [] \<Rightarrow> None
      | e # r \<Rightarrow>
          if e = CHR ''u'' then
            (case r of _ # _ # h # l # r \<Rightarrow>
               (case (hexval h, hexval l) of (Some a, Some b) \<Rightarrow> Some (16 * a + b, r) | _ \<Rightarrow> None)
             | _ \<Rightarrow> None)
          else Some (unescape e, r))"

lemma json_read_ascii:
  assumes "n < 128"
  shows "json_read (json_ascii n @ r) = Some (n, r)"
proof (cases "n \<in> {34, 92, 8, 12, 10, 13, 9}")
  case True
  then show ?thesis by (auto simp: json_ascii_def unescape_def)
next
  case False
  have "of_char (char_of n) = n" using assms by (simp add: take_bit_nat_eq_self)
  moreover from this have "n \<noteq> 92 \<Longrightarrow> char_of n \<noteq> (CHR 0x5C :: char)" by force
  moreover have "16 * (n div 16) + n mod 16 = n" by simp
  ultimately show ?thesis
    using False assms hexval_hexdigit [of "n div 16"] hexval_hexdigit [of "n mod 16"]
    by (simp add: json_ascii_def)
qed

lemma json_ascii_nonempty: "json_ascii n \<noteq> []"
  by (simp add: json_ascii_def)

lemma json_ascii_not_quote: "n < 128 \<Longrightarrow> json_ascii n @ r \<noteq> CHR 0x22 # s"
proof
  assume n: "n < 128" and a: "json_ascii n @ r = CHR 0x22 # s"
  have "json_read (json_ascii n @ r) = Some (34, s)" by (simp add: a)
  with json_read_ascii [OF n, of r] have "n = 34" by simp
  with a show False by (simp add: json_ascii_def)
qed

lemma json_string_split:
  assumes "ascii x" "ascii y" "json_string x @ r = json_string y @ s"
  shows "x = y \<and> r = s"
proof -
  have "json_escape x @ CHR 0x22 # r = json_escape y @ CHR 0x22 # s"
    using assms(3) by (simp add: json_string_def)
  then show ?thesis using assms(1,2)
  proof (induction x arbitrary: y)
    case Nil
    then show ?case
      by (cases y) (auto simp: json_escape_ascii ascii_def json_ascii_not_quote [THEN not_sym])
  next
    case (Cons c x)
    then have c: "(of_char c :: nat) < 128" and x: "ascii x" by (auto simp: ascii_def)
    show ?case
    proof (cases y)
      case Nil
      with Cons c show ?thesis
        using json_ascii_not_quote [OF c] by (auto simp: json_escape_ascii)
    next
      case (Cons d y')
      then have d: "(of_char d :: nat) < 128" and y: "ascii y'"
        using \<open>ascii y\<close> by (auto simp: ascii_def)
      have "json_ascii (of_char c) @ json_escape x @ CHR 0x22 # r =
          json_ascii (of_char d) @ json_escape y' @ CHR 0x22 # s"
        using Cons.prems \<open>y = d # y'\<close> x y by (simp add: json_escape_ascii)
      from arg_cong [OF this, of json_read]
      have "(of_char c :: nat) = of_char d" "json_escape x @ CHR 0x22 # r = json_escape y' @ CHR 0x22 # s"
        by (simp_all add: json_read_ascii c d)
      with Cons.IH [OF this(2) x y] \<open>y = d # y'\<close> show ?thesis by simp
    qed
  qed
qed

interpretation json_string: delimited_code ascii json_string
  by unfold_locales (rule json_string_split)

text \<open>Base64 and hexadecimal text is ASCII and determines the bytes.\<close>

lemma hexdigit_ascii: "n < 16 \<Longrightarrow> (of_char (hexdigit n) :: nat) < 128"
  by (auto simp: hexdigit_def take_bit_nat_eq_self)

lemma ascii_Nil [simp]: "ascii []"
  by (simp add: ascii_def)

lemma ascii_Cons [simp]: "ascii (c # s) \<longleftrightarrow> (of_char c :: nat) < 128 \<and> ascii s"
  by (simp add: ascii_def)

lemma ascii_append [simp]: "ascii (s @ t) \<longleftrightarrow> ascii s \<and> ascii t"
  by (auto simp: ascii_def)

lemma ascii_hex_encode [simp]: "ascii (hex_encode bs)"
  by (induction bs) (use unat_byte_less in \<open>simp_all add: hexdigit_ascii less_mult_imp_div_less\<close>)

lemma ascii_hex_decode: "hex_decode s = (b, True) \<Longrightarrow> ascii s"
  by (induction s arbitrary: b rule: hex_decode.induct)
    (auto simp: hexval_def Let_def split: option.splits prod.splits if_splits)

lemma b64_char_inj: "n < 64 \<Longrightarrow> m < 64 \<Longrightarrow> b64_char n = b64_char m \<longleftrightarrow> n = m"
  by (auto simp: b64_char_def char_of_eq_iff take_bit_nat_eq_self split: if_splits)

lemma b64_char_props: "n < 64 \<Longrightarrow> b64_char n \<noteq> CHR ''=''" "n < 64 \<Longrightarrow> (of_char (b64_char n) :: nat) < 128"
  by (auto simp: b64_char_def take_bit_nat_eq_self char_of_eq_iff split: if_splits)

lemma sextets_eq:
  fixes n m :: nat
  assumes "n div 262144 = m div 262144" "n div 4096 mod 64 = m div 4096 mod 64"
    "n div 64 mod 64 = m div 64 mod 64" "n mod 64 = m mod 64"
  shows "n = m"
proof -
  have *: "k = 262144 * (k div 262144) + 4096 * (k div 4096 mod 64) + 64 * (k div 64 mod 64) + k mod 64" for k :: nat
  proof -
    have q: "k div 4096 = k div 64 div 64" "k div 262144 = k div 64 div 64 div 64"
      by (simp_all add: div_mult2_eq [symmetric])
    define a b c x y z where defs: "a = k div 64" "b = a div 64" "c = b div 64"
      "x = k mod 64" "y = a mod 64" "z = b mod 64"
    have "k = 64 * a + x" "a = 64 * b + y" "b = 64 * c + z"
      unfolding defs by (simp_all only: mult_div_mod_eq)
    then have "k = 262144 * c + 4096 * z + 64 * y + x" by simp
    then show ?thesis unfolding defs q .
  qed
  show ?thesis using * [of n] * [of m] assms by simp
qed

text \<open>The 24 bits of a block of three bytes.\<close>

definition oct3 :: "u8 \<Rightarrow> u8 \<Rightarrow> u8 \<Rightarrow> nat" where
  "oct3 a b c = unat a * 65536 + unat b * 256 + unat c"

lemma oct3_inj: "oct3 a b c = oct3 a' b' c' \<longleftrightarrow> a = a' \<and> b = b' \<and> c = c'"
proof
  assume eq: "oct3 a b c = oct3 a' b' c'"
  note less = unat_byte_less [of b] unat_byte_less [of c] unat_byte_less [of b'] unat_byte_less [of c']
  have a: "unat a = unat a'" using eq less unfolding oct3_def by linarith
  then have b: "unat b = unat b'" using eq less unfolding oct3_def by linarith
  from a b have "unat c = unat c'" using eq unfolding oct3_def by linarith
  with a b show "a = a' \<and> b = b' \<and> c = c'" by (auto intro: unsigned_word_eqI)
qed simp

lemma oct3_less: "oct3 a b c < 16777216"
  using unat_byte_less [of a] unat_byte_less [of b] unat_byte_less [of c]
  unfolding oct3_def by linarith

lemma oct3_high: "oct3 a b c div 262144 < 64"
  using oct3_less by (intro less_mult_imp_div_less) simp

lemma oct3_low: "oct3 a b 0 mod 64 = 0" "oct3 a 0 0 div 64 mod 64 = 0"
  by (simp_all add: oct3_def)

lemma base64_3:
  "base64 (a # b # c # r) = map b64_char [oct3 a b c div 262144, oct3 a b c div 4096 mod 64,
     oct3 a b c div 64 mod 64, oct3 a b c mod 64] @ base64 r"
  by (simp add: Let_def oct3_def)

lemma div_scale: "n * 64 div 262144 = n div 4096" "n * 64 div 4096 = n div 64"
    "n * 4096 div 262144 = n div 64" for n :: nat
  using div_mult_mult2 [of 64 n 4096] div_mult_mult2 [of 64 n 64] div_mult_mult2 [of 4096 n 64]
  by simp_all

lemma base64_2:
  "base64 [a, b] = map b64_char [oct3 a b 0 div 262144, oct3 a b 0 div 4096 mod 64,
     oct3 a b 0 div 64 mod 64] @ ''=''"
proof -
  define n where "n = (unat a * 256 + unat b) * 4"
  have "oct3 a b 0 = n * 64" by (simp add: oct3_def n_def)
  then show ?thesis
    by (simp only: base64.simps Let_def n_def [symmetric] div_scale) simp
qed

lemma base64_1:
  "base64 [a] = map b64_char [oct3 a 0 0 div 262144, oct3 a 0 0 div 4096 mod 64] @ ''==''"
proof -
  define n where "n = unat a * 16"
  have "oct3 a 0 0 = n * 4096" by (simp add: oct3_def n_def)
  then show ?thesis
    by (simp only: base64.simps Let_def n_def [symmetric] div_scale) simp
qed

lemmas base64_blocks = base64_1 base64_2 base64_3

lemma base64_ascii [simp]: "ascii (base64 bs)"
  by (induction bs rule: base64.induct)
    (simp_all only: base64_blocks, simp_all add: oct3_high b64_char_props)

lemmas b64_simps = b64_char_inj b64_char_props b64_char_props(1) [THEN not_sym] oct3_high

lemma base64_inj: "base64 x = base64 y \<longleftrightarrow> x = y"
proof
  show "base64 x = base64 y \<Longrightarrow> x = y"
  proof (induction x arbitrary: y rule: base64.induct)
    case 1
    then show ?case by (cases y rule: base64.cases) (auto simp: Let_def)
  next
    case (2 a)
    show ?case
    proof (cases y rule: base64.cases)
      case (2 a')
      with \<open>base64 [a] = base64 y\<close> have "oct3 a 0 0 = oct3 a' 0 0"
        by (intro sextets_eq [of "oct3 a 0 0"]) (simp_all add: base64_1 b64_simps oct3_low del: base64.simps)
      with 2 show ?thesis by (simp add: oct3_inj)
    qed (use \<open>base64 [a] = base64 y\<close> in
        \<open>simp_all add: base64_blocks b64_simps del: base64.simps(2-)\<close>)
  next
    case (3 a b)
    show ?case
    proof (cases y rule: base64.cases)
      case (3 a' b')
      with \<open>base64 [a, b] = base64 y\<close> have "oct3 a b 0 = oct3 a' b' 0"
        by (intro sextets_eq [of "oct3 a b 0"]) (simp_all add: base64_2 b64_simps oct3_low del: base64.simps)
      with 3 show ?thesis by (simp add: oct3_inj)
    qed (use \<open>base64 [a, b] = base64 y\<close> in
        \<open>simp_all add: base64_blocks b64_simps del: base64.simps(2-)\<close>)
  next
    case (4 a b c r)
    show ?case
    proof (cases y rule: base64.cases)
      case (4 a' b' c' r')
      note eq = \<open>base64 (a # b # c # r) = base64 y\<close> [unfolded 4]
      have "oct3 a b c = oct3 a' b' c'"
        using eq by (intro sextets_eq [of "oct3 a b c"]) (simp_all add: base64_3 b64_simps del: base64.simps)
      moreover have "base64 r = base64 r'" using eq by (simp add: base64_3 del: base64.simps)
      ultimately show ?thesis using 4 "4.IH" by (simp add: oct3_inj)
    qed (use \<open>base64 (a # b # c # r) = base64 y\<close> in
        \<open>simp_all add: base64_blocks b64_simps del: base64.simps(2-)\<close>)
  qed
qed simp

text \<open>Objects: the text determines the list of fields.\<close>

definition json_token :: "string \<Rightarrow> bool" where
  "json_token v \<longleftrightarrow> (\<exists>s. ascii s \<and> v = json_string s) \<or> (\<exists>i. v = dec_int i)"

lemma json_tokenI [simp, intro]:
  "ascii s \<Longrightarrow> json_token (json_string s)" "json_token (dec_int i)" "json_token (dec_nat n)"
proof -
  have "dec_nat n = dec_int (int n)" by (simp add: dec_int_def)
  then show "json_token (dec_nat n)" by (auto simp: json_token_def)
qed (auto simp: json_token_def)

lemma dec_int_not_quote: "dec_int i @ r \<noteq> CHR 0x22 # s"
proof
  assume a: "dec_int i @ r = CHR 0x22 # s"
  then have "0 \<le> i" by (auto simp: dec_int_def split: if_splits)
  have "dec_nat (nat i) \<noteq> []" by (subst dec_nat.simps) simp
  with a \<open>0 \<le> i\<close> have "CHR 0x22 \<in> set (dec_nat (nat i))"
    by (cases "dec_nat (nat i)") (auto simp: dec_int_def)
  from dec_nat_digits [OF this] show False by (simp add: is_digit_def)
qed

interpretation json_token: delimited_code json_token "\<lambda>v. v"
proof unfold_locales
  fix v w c d r s
  assume "json_token v" "json_token w" and d: "json_delim c" "json_delim d" and eq: "v @ c # r = w @ d # s"
  then consider (str) a b where "ascii a" "ascii b" "v = json_string a" "w = json_string b"
    | (int) i j where "v = dec_int i" "w = dec_int j"
    using dec_int_not_quote dec_int_not_quote [THEN not_sym]
    by (fastforce simp: json_token_def json_string_def)
  then show "v = w \<and> c # r = d # s"
    using eq d json_string_split dec_int.enc_delim by cases blast+
qed

definition json_fields_ok :: "(string \<times> string) list \<Rightarrow> bool" where
  "json_fields_ok kvs \<longleftrightarrow> (\<forall>(k, v) \<in> set kvs. ascii k \<and> json_token v)"

lemma json_fields_ok_simps [simp]:
  "json_fields_ok []" "json_fields_ok ((k, v) # kvs) \<longleftrightarrow> ascii k \<and> json_token v \<and> json_fields_ok kvs"
  "json_fields_ok (kvs @ kvs') \<longleftrightarrow> json_fields_ok kvs \<and> json_fields_ok kvs'"
  "json_fields_ok (omit_when e k v) \<longleftrightarrow> e \<or> ascii k \<and> json_token v"
  by (auto simp: json_fields_ok_def omit_when_def)

lemma json_fields_ok_Cons: "json_fields_ok (kv # kvs) \<longleftrightarrow> json_fields_ok [kv] \<and> json_fields_ok kvs"
  by (cases kv) simp

lemma json_field_split:
  assumes "json_field kv @ c # r = json_field kv' @ d # s" "json_delim c" "json_delim d"
    and "json_fields_ok [kv]" "json_fields_ok [kv']"
  shows "kv = kv' \<and> c # r = d # s"
proof -
  obtain k v k' v' where kv: "kv = (k, v)" "kv' = (k', v')" by (cases kv; cases kv')
  have "json_string k @ CHR '':'' # v @ c # r = json_string k' @ CHR '':'' # v' @ d # s"
    using assms(1) by (simp add: kv json_field_def)
  with assms json_string_split [of k k'] have "k = k' \<and> v @ c # r = v' @ d # s"
    by (auto simp: kv json_fields_ok_def)
  with assms json_token.enc_delim [of v v' c d r s] show ?thesis
    by (auto simp: kv json_fields_ok_def)
qed

lemma json_join_Cons:
  "json_join (x # xs) @ CHR ''}'' # r =
   x @ (if xs = [] then CHR ''}'' # r else CHR '','' # json_join xs @ CHR ''}'' # r)"
  by (cases xs) auto

lemma json_fields_split:
  "json_join (map json_field kvs) @ CHR ''}'' # r = json_join (map json_field kvs') @ CHR ''}'' # s \<Longrightarrow>
   json_fields_ok kvs \<Longrightarrow> json_fields_ok kvs' \<Longrightarrow> kvs = kvs'"
proof (induction kvs arbitrary: kvs')
  case Nil
  then show ?case by (cases kvs') (auto simp: json_join_Cons json_field_def json_string_def)
next
  case (Cons kv kvs)
  show ?case
  proof (cases kvs')
    case Nil
    with Cons.prems show ?thesis by (simp add: json_join_Cons json_field_def json_string_def)
  next
    case (Cons kv' kvs'')
    let ?tl = "\<lambda>l r. if l = [] then CHR ''}'' # r else CHR '','' # json_join (map json_field l) @ CHR ''}'' # r"
    have "json_field kv @ ?tl kvs r = json_field kv' @ ?tl kvs'' s"
      using Cons.prems(1) by (simp only: Cons list.map json_join_Cons map_is_Nil_conv)
    moreover obtain c r' where c: "?tl kvs r = c # r'" "json_delim c" by (cases "kvs = []") auto
    moreover obtain d s' where d: "?tl kvs'' s = d # s'" "json_delim d" by (cases "kvs'' = []") auto
    ultimately have "kv = kv' \<and> ?tl kvs r = ?tl kvs'' s"
      using Cons.prems(2,3) json_field_split [of kv c r' kv' d s'] by (simp add: Cons json_fields_ok_Cons [of _ kvs] json_fields_ok_Cons [of _ kvs''])
    with Cons.IH [of kvs''] Cons.prems(2,3) show ?thesis
      by (auto simp: Cons json_fields_ok_Cons [of _ kvs] json_fields_ok_Cons [of _ kvs''] split: if_splits)
  qed
qed

lemma json_object_inj:
  assumes "json_object kvs = json_object kvs'" "json_fields_ok kvs" "json_fields_ok kvs'"
  shows "kvs = kvs'"
  using assms json_fields_split [of kvs "[]" kvs' "[]"] by (simp add: json_object_def)

lemma json_string_eq: "ascii s \<Longrightarrow> ascii t \<Longrightarrow> json_string s = json_string t \<longleftrightarrow> s = t"
  using json_string_split [of s t "[]" "[]"] by auto

lemma dec_nat_inj [simp]: "dec_nat n = dec_nat m \<longleftrightarrow> n = m"
  by (metis dec_val_dec_nat)

lemma dec_int_inj [simp]: "dec_int i = dec_int j \<longleftrightarrow> i = j"
  using dec_int.enc_delim [of "CHR '',''" "CHR '',''" i "[]" j "[]"] by auto

end
