(* ===== verification/Chain_Types.thy ===== *)
theory Chain_Types
  imports Sha256 JsonEnc
begin

text \<open>
  The data model of \<^verbatim>\<open>internal/blockchain/types.go\<close> and the address scheme of
  \<^verbatim>\<open>internal/blockchain/address.go\<close>: transactions, blocks, accounts, index entries,
  and addresses of the form \<open>NEO\<close> + hex(version, SHA-256 of the key, checksum).
\<close>

subsection \<open>Transactions, blocks, accounts\<close>

definition TxCoinbase :: string where
  "TxCoinbase = ''coinbase''"

definition TxTransfer :: string where
  "TxTransfer = ''transfer''"

lemma tx_types_distinct [simp]: "TxCoinbase \<noteq> TxTransfer" "TxTransfer \<noteq> TxCoinbase"
  by (simp_all add: TxCoinbase_def TxTransfer_def)

record transaction =
  tx_Type :: string
  tx_ChainID :: u64
  tx_FromPubKey :: slice
  tx_ToAddress :: string
  tx_Amount :: u64
  tx_Fee :: u64
  tx_Nonce :: u64
  tx_Data :: string
  tx_Signature :: slice

record block =
  blk_Version :: u32
  blk_Height :: u64
  blk_TimestampUnix :: int
  blk_PrevHash :: slice
  blk_Nonce :: u64
  blk_DifficultyBits :: u32
  blk_MinerAddress :: string
  blk_Transactions :: "transaction list"
  blk_Hash :: slice
  blk_StateRoot :: slice
  blk_UTXORoot :: slice

record account =
  acc_Balance :: u64
  acc_Nonce :: u64

record tx_location =
  loc_Height :: u64
  loc_BlockHashHex :: string
  loc_Index :: int

record address_tx_entry =
  ate_TxID :: string
  ate_Location :: tx_location
  ate_FromAddr :: string
  ate_ToAddress :: string
  ate_Amount :: u64
  ate_Fee :: u64
  ate_Nonce :: u64

text \<open>Reading a missing key of a Go map yields the zero value.\<close>

definition zero_account :: account where
  "zero_account = \<lparr>acc_Balance = 0, acc_Nonce = 0\<rparr>"

type_synonym ledger = "(string, account) gomap"

definition acct :: "ledger \<Rightarrow> string \<Rightarrow> account" where
  "acct st a = (case gget st a of None \<Rightarrow> zero_account | Some x \<Rightarrow> x)"

lemma acct_gput [simp]: "acct (gput k v st) a = (if k = a then v else acct st a)"
  by (simp add: acct_def)

lemma acct_Nil [simp]: "acct [] a = zero_account"
  by (simp add: acct_def)

lemma zero_account_simps [simp]: "acc_Balance zero_account = 0" "acc_Nonce zero_account = 0"
  by (simp_all add: zero_account_def)

lemma fsum_gget: "f zero_account = 0 \<Longrightarrow> fsum f (gget st a) = f (acct st a)"
  by (simp add: acct_def fsum_def split: option.splits)

definition EstimateSize :: "transaction \<Rightarrow> nat" where
  "EstimateSize t = 80 + length (sl (tx_Signature t)) + length (tx_Data t)"

subsection \<open>Addresses\<close>

definition AddressPrefix :: string where
  "AddressPrefix = ''NEO''"

definition AddressVersion :: byte where
  "AddressVersion = 0"

definition ChecksumLen :: nat where
  "ChecksumLen = 4"

definition HashLen :: nat where
  "HashLen = 32"

definition GenerateAddress :: "bytes \<Rightarrow> string" where
  "GenerateAddress pubKey =
     (let addressData = AddressVersion # take HashLen (sha256 pubKey);
          checksum = sha256 addressData
      in AddressPrefix @ hex_encode (addressData @ take ChecksumLen checksum))"

text \<open>The loop over the checksum bytes.\<close>

fun checksum_eq :: "nat \<Rightarrow> bytes \<Rightarrow> bytes \<Rightarrow> bool" where
  "checksum_eq 0 a b = True"
| "checksum_eq (Suc n) (x # a) (y # b) = (if x \<noteq> y then False else checksum_eq n a b)"
| "checksum_eq (Suc n) _ _ = False"

definition ValidateAddress :: "string \<Rightarrow> unit res" where
  "ValidateAddress addr =
     (if length addr < length AddressPrefix + 10 then Inl ''address too short''
      else if take (length AddressPrefix) addr \<noteq> AddressPrefix then Inl ''invalid prefix''
      else case hex_decode (drop (length AddressPrefix) addr) of (decoded, ok) \<Rightarrow>
        if \<not> ok then Inl ''invalid hex''
        else if length decoded < ChecksumLen + 1 then Inl ''invalid encoded length''
        else
          let addressData = take (length decoded - ChecksumLen) decoded;
              storedChecksum = drop (length decoded - ChecksumLen) decoded;
              checksum = sha256 addressData
          in if checksum_eq ChecksumLen storedChecksum checksum then Inr ()
             else Inl ''checksum mismatch'')"

definition FromAddress :: "transaction \<Rightarrow> string res" where
  "FromAddress t =
     (if tx_Type t \<noteq> TxTransfer then Inl ''from address only exists for transfer transactions''
      else if length (sl (tx_FromPubKey t)) \<noteq> 32 then Inl ''invalid fromPubKey length: expected 32 bytes''
      else Inr (GenerateAddress (sl (tx_FromPubKey t))))"

definition FromAddressSafe :: "transaction \<Rightarrow> string" where
  "FromAddressSafe t = (case FromAddress t of Inl _ \<Rightarrow> '''' | Inr a \<Rightarrow> a)"

lemma checksum_eq_iff:
  "length a = n \<Longrightarrow> n \<le> length b \<Longrightarrow> checksum_eq n a b \<longleftrightarrow> a = take n b"
proof (induction n a b rule: checksum_eq.induct)
  case (2 n x a y b)
  then show ?case by auto
qed auto

lemma ValidateAddress_unfold:
  "ValidateAddress addr =
     (if length addr < 13 then Inl ''address too short''
      else if take 3 addr \<noteq> ''NEO'' then Inl ''invalid prefix''
      else case hex_decode (drop 3 addr) of (decoded, ok) \<Rightarrow>
        if \<not> ok then Inl ''invalid hex''
        else if length decoded < 5 then Inl ''invalid encoded length''
        else if checksum_eq 4 (drop (length decoded - 4) decoded)
               (sha256 (take (length decoded - 4) decoded)) then Inr ()
        else Inl ''checksum mismatch'')"
proof -
  have "length AddressPrefix = 3" by (simp add: AddressPrefix_def)
  then show ?thesis
    unfolding ValidateAddress_def
    by (simp add: ChecksumLen_def Let_def split: prod.split) (simp add: AddressPrefix_def)
qed

text \<open>An accepted address is the prefix, some payload, and the first four digest
  bytes of that payload, in hexadecimal (upper or lower case).\<close>

lemma ValidateAddress_iff:
  "ValidateAddress addr = Inr () \<longleftrightarrow>
     13 \<le> length addr \<and> take 3 addr = ''NEO'' \<and>
     (\<exists>payload. payload \<noteq> [] \<and>
        hex_decode (drop 3 addr) = (payload @ take 4 (sha256 payload), True))"
  (is "?L \<longleftrightarrow> ?R")
proof
  assume L: ?L
  obtain decoded ok where d: "hex_decode (drop 3 addr) = (decoded, ok)"
    by (cases "hex_decode (drop 3 addr)")
  let ?p = "take (length decoded - 4) decoded"
  have basics: "13 \<le> length addr" "take 3 addr = ''NEO''" "ok" "5 \<le> length decoded"
    and ck: "checksum_eq 4 (drop (length decoded - 4) decoded) (sha256 ?p)"
    using L d by (auto simp: ValidateAddress_unfold split: if_splits)
  have "drop (length decoded - 4) decoded = take 4 (sha256 ?p)"
    using ck basics(4) by (simp add: checksum_eq_iff)
  then have "decoded = ?p @ take 4 (sha256 ?p)"
    by (metis append_take_drop_id)
  moreover have "?p \<noteq> []"
    using basics(4) by auto
  ultimately show ?R
    using d basics by (metis (full_types))
next
  assume ?R
  then obtain payload where p: "13 \<le> length addr" "take 3 addr = ''NEO''" "payload \<noteq> []"
    and d: "hex_decode (drop 3 addr) = (payload @ take 4 (sha256 payload), True)"
    by blast
  have "5 \<le> length payload + 4"
    using p(3) by (cases payload) simp_all
  with p d show ?L
    by (simp add: ValidateAddress_unfold checksum_eq_iff)
qed

lemma GenerateAddress_eq:
  "GenerateAddress pk = ''NEO'' @ hex_encode ((0 # sha256 pk) @ take 4 (sha256 (0 # sha256 pk)))"
  by (simp add: GenerateAddress_def AddressPrefix_def AddressVersion_def HashLen_def ChecksumLen_def)

lemma length_GenerateAddress [simp]: "length (GenerateAddress pk) = 77"
  by (simp add: GenerateAddress_eq)

lemma ValidateAddress_GenerateAddress [simp]: "ValidateAddress (GenerateAddress pk) = Inr ()"
proof -
  have "hex_decode (drop 3 (GenerateAddress pk))
    = ((0 # sha256 pk) @ take 4 (sha256 (0 # sha256 pk)), True)"
    unfolding GenerateAddress_eq by (simp del: hex_encode.simps append_Cons)
  then show ?thesis
    by (subst ValidateAddress_iff) (auto simp: GenerateAddress_eq)
qed

lemma FromAddress_Inr_iff:
  "FromAddress t = Inr a \<longleftrightarrow> tx_Type t = TxTransfer \<and> length (sl (tx_FromPubKey t)) = 32 \<and>
     a = GenerateAddress (sl (tx_FromPubKey t))"
  by (auto simp: FromAddress_def)

text \<open>The prefix letter \<open>N\<close> is not a hexadecimal digit.\<close>

lemma hex_decode_NEO: "take 3 addr = ''NEO'' \<Longrightarrow> hex_decode addr = ([], False)"
  by (cases addr; cases "tl addr") (auto simp: hexval_def Let_def)

lemma ValidateAddress_not_hex: "ValidateAddress addr = Inr () \<Longrightarrow> hex_decode addr = ([], False)"
  by (rule hex_decode_NEO) (simp add: ValidateAddress_iff)

end
