(* ===== verification/Consensus.thy ===== *)
theory Consensus
  imports Chain_Types
begin

text \<open>
  The consensus rules that depend on heights, timestamps and parameters only:
  \<^verbatim>\<open>monetary_policy.go\<close> (block subsidy and fee split), \<^verbatim>\<open>params_parse.go\<close>
  (validation of the genesis parameters), the difficulty, time and version rules
  of \<^verbatim>\<open>consensus.go\<close>, and \<^verbatim>\<open>work.go\<close>, all under \<^verbatim>\<open>internal/blockchain\<close>.
\<close>

subsection \<open>Monetary policy\<close>

record monetary_policy =
  mp_InitialBlockReward :: u64
  mp_HalvingInterval :: u64
  mp_MinerFeeShare :: u8
  mp_TailEmission :: u64

definition BlockReward :: "monetary_policy \<Rightarrow> u64 \<Rightarrow> u64" where
  "BlockReward p height =
     (if mp_HalvingInterval p = 0 then mp_InitialBlockReward p
      else
        let halvings = height div mp_HalvingInterval p in
        if 64 \<le> halvings then mp_TailEmission p
        else
          let reward = drop_bit (unat halvings) (mp_InitialBlockReward p) in
          if reward = 0 then mp_TailEmission p else reward)"

definition MinerFeeAmount :: "monetary_policy \<Rightarrow> u64 \<Rightarrow> u64" where
  "MinerFeeAmount p totalFees =
     (if mp_MinerFeeShare p = 0 \<or> totalFees = 0 then 0
      else totalFees * ucast (mp_MinerFeeShare p) div 100)"

definition MonetaryPolicy_Validate :: "monetary_policy \<Rightarrow> unit res" where
  "MonetaryPolicy_Validate p =
     (if mp_InitialBlockReward p = 0 \<and> mp_TailEmission p = 0
      then Inl ''monetaryPolicy.initialBlockReward or tailEmission must be > 0''
      else if mp_HalvingInterval p = 0 then Inl ''monetaryPolicy.halvingInterval must be > 0''
      else if 100 < mp_MinerFeeShare p then Inl ''monetaryPolicy.minerFeeShare must be <= 100''
      else Inr ())"

text \<open>The decoded JSON object: a missing field is \<open>None\<close>. Decoding itself
  (\<^verbatim>\<open>json.Decoder.Decode\<close> with unknown fields refused) is an argument of the parser.\<close>

record monetary_policy_json =
  mpj_InitialBlockReward :: "u64 option"
  mpj_HalvingInterval :: "u64 option"
  mpj_MinerFeeShare :: "u8 option"
  mpj_TailEmission :: "u64 option"

definition parseMonetaryPolicy ::
  "(bytes \<Rightarrow> monetary_policy_json res) \<Rightarrow> bytes \<Rightarrow> monetary_policy res" where
  "parseMonetaryPolicy decode raw =
     (if raw = [] then Inl ''genesis monetaryPolicy is required''
      else case decode raw of Inl e \<Rightarrow> Inl (''parse monetaryPolicy: '' @ e)
      | Inr aux \<Rightarrow>
        (case mpj_InitialBlockReward aux of
           None \<Rightarrow> Inl ''monetaryPolicy.initialBlockReward is required''
         | Some initial \<Rightarrow>
        (case mpj_HalvingInterval aux of
           None \<Rightarrow> Inl ''monetaryPolicy.halvingInterval is required''
         | Some interval \<Rightarrow>
        (case mpj_MinerFeeShare aux of
           None \<Rightarrow> Inl ''monetaryPolicy.minerFeeShare is required''
         | Some share \<Rightarrow>
           (let p = \<lparr>mp_InitialBlockReward = initial, mp_HalvingInterval = interval,
                     mp_MinerFeeShare = share,
                     mp_TailEmission = (case mpj_TailEmission aux of None \<Rightarrow> 0 | Some t \<Rightarrow> t)\<rparr>
            in case MonetaryPolicy_Validate p of Inl e \<Rightarrow> Inl e | Inr _ \<Rightarrow> Inr p)))))"

lemma unat_drop_bit: "unat (drop_bit n (w :: u64)) = unat w div 2 ^ n"
  using unat_u64_less [of w]
  by (simp only: unsigned_drop_bit_eq) (simp add: drop_bit_eq_div take_bit_nat_eq_self)

text \<open>Closed form: the initial reward halved once per interval, and the tail emission
  once that is exhausted. The cut-off at 64 halvings never shows.\<close>

lemma BlockReward_closed:
  fixes h :: u64
  assumes "mp_HalvingInterval p \<noteq> 0"
  defines "r \<equiv> unat (mp_InitialBlockReward p) div 2 ^ (unat h div unat (mp_HalvingInterval p))"
  shows "unat (BlockReward p h) = (if r = 0 then unat (mp_TailEmission p) else r)"
proof -
  let ?k = "h div mp_HalvingInterval p"
  have k: "unat ?k = unat h div unat (mp_HalvingInterval p)"
    by (simp add: unat_div)
  show ?thesis
  proof (cases "64 \<le> ?k")
    case True
    then have "64 \<le> unat ?k"
      by (simp add: word_le_nat_alt)
    then have "unat (mp_InitialBlockReward p) < 2 ^ unat ?k"
      using unat_u64_less [of "mp_InitialBlockReward p"]
        power_increasing [of 64 "unat ?k" "2 :: nat"] by simp
    then have "r = 0"
      unfolding r_def k [symmetric] by simp
    with True assms(1) show ?thesis
      by (simp add: BlockReward_def)
  next
    case False
    have "drop_bit (unat ?k) (mp_InitialBlockReward p) = 0 \<longleftrightarrow> r = 0"
      by (simp add: word_unat_eq_iff unat_drop_bit r_def k)
    with False assms(1) show ?thesis
      by (simp add: BlockReward_def Let_def unat_drop_bit r_def k)
  qed
qed

lemma BlockReward_le:
  assumes "mp_HalvingInterval p \<noteq> 0"
  shows "unat (BlockReward p h) \<le> max (unat (mp_InitialBlockReward p)) (unat (mp_TailEmission p))"
  using BlockReward_closed [OF assms, of h]
  by (auto simp: max_def intro: order_trans [OF div_le_dividend] split: if_splits)

lemma BlockReward_antimono:
  assumes "mp_HalvingInterval p \<noteq> 0" and "unat h \<le> unat h'"
    and "mp_TailEmission p = 0"
  shows "unat (BlockReward p h') \<le> unat (BlockReward p h)"
proof -
  let ?I = "unat (mp_InitialBlockReward p)" and ?n = "unat (mp_HalvingInterval p)"
  have "unat h div ?n \<le> unat h' div ?n"
    using assms(2) by (rule div_le_mono)
  then have "(2::nat) ^ (unat h div ?n) \<le> 2 ^ (unat h' div ?n)"
    by simp
  then have "?I div 2 ^ (unat h' div ?n) \<le> ?I div 2 ^ (unat h div ?n)"
    by (rule div_le_mono2 [rotated]) simp
  then show ?thesis
    using BlockReward_closed [OF assms(1), of h] BlockReward_closed [OF assms(1), of h'] assms(3)
    by (auto split: if_splits)
qed

text \<open>The miner's part of the fees never exceeds the fees, as long as the product by the
  percentage fits in 64 bits.\<close>

lemma MinerFeeAmount_nat:
  assumes "unat fees * unat (mp_MinerFeeShare p) < 2 ^ 64"
  shows "unat (MinerFeeAmount p fees) = unat fees * unat (mp_MinerFeeShare p) div 100"
proof (cases "mp_MinerFeeShare p = 0 \<or> fees = 0")
  case True
  then show ?thesis by (auto simp: MinerFeeAmount_def)
next
  case False
  have share: "unat (ucast (mp_MinerFeeShare p) :: u64) = unat (mp_MinerFeeShare p)"
    by (simp add: unsigned_ucast_eq take_bit_nat_eq_self unat_byte_less [THEN less_trans])
  have "unat (fees * ucast (mp_MinerFeeShare p)) = unat fees * unat (mp_MinerFeeShare p)"
    using assms by (simp add: unat_word_ariths share)
  then show ?thesis
    using False by (simp add: MinerFeeAmount_def unat_div)
qed

lemma MinerFeeAmount_le_fees:
  assumes "mp_MinerFeeShare p \<le> 100" and "unat fees * 100 < 2 ^ 64"
  shows "unat (MinerFeeAmount p fees) \<le> unat fees"
proof -
  have s: "unat (mp_MinerFeeShare p) \<le> 100"
    using assms(1) by (simp add: word_le_nat_alt)
  then have "unat fees * unat (mp_MinerFeeShare p) \<le> unat fees * 100"
    by simp
  then have "unat fees * unat (mp_MinerFeeShare p) < 2 ^ 64"
    using assms(2) by linarith
  then have "unat (MinerFeeAmount p fees) = unat fees * unat (mp_MinerFeeShare p) div 100"
    by (rule MinerFeeAmount_nat)
  also have "\<dots> \<le> unat fees * 100 div 100"
    using s by (intro div_le_mono) simp
  finally show ?thesis by simp
qed

lemma parseMonetaryPolicy_valid:
  "parseMonetaryPolicy decode raw = Inr p \<Longrightarrow> MonetaryPolicy_Validate p = Inr ()"
  by (auto simp: parseMonetaryPolicy_def Let_def split: if_splits sum.splits option.splits)

lemma MonetaryPolicy_Validate_iff:
  "MonetaryPolicy_Validate p = Inr () \<longleftrightarrow>
     (mp_InitialBlockReward p \<noteq> 0 \<or> mp_TailEmission p \<noteq> 0) \<and> mp_HalvingInterval p \<noteq> 0 \<and>
     mp_MinerFeeShare p \<le> 100"
  by (auto simp: MonetaryPolicy_Validate_def)

subsection \<open>Consensus parameters\<close>

record consensus_params =
  cp_DifficultyEnable :: bool
  cp_TargetBlockTime :: int
  cp_DifficultyWindow :: int
  cp_DifficultyMaxStep :: u32
  cp_MinDifficultyBits :: u32
  cp_MaxDifficultyBits :: u32
  cp_GenesisDifficultyBits :: u32
  cp_MedianTimePastWindow :: int
  cp_MaxTimeDrift :: int
  cp_MaxBlockSize :: u64
  cp_MerkleEnable :: bool
  cp_MerkleActivationHeight :: u64
  cp_BinaryEncodingEnable :: bool
  cp_BinaryEncodingActivationHeight :: u64
  cp_MonetaryPolicy :: monetary_policy

record consensus_params_json =
  cpj_DifficultyEnable :: "bool option"
  cpj_DifficultyTargetMs :: "int option"
  cpj_DifficultyTargetSpacing :: "int option"
  cpj_DifficultyWindow :: "int option"
  cpj_DifficultyWindowSize :: "int option"
  cpj_DifficultyAdjustmentInterval :: "int option"
  cpj_DifficultyMaxStepBits :: "u32 option"
  cpj_DifficultyMaxStep :: "u32 option"
  cpj_MinDifficultyBits :: "u32 option"
  cpj_MaxDifficultyBits :: "u32 option"
  cpj_GenesisDifficultyBits :: "u32 option"
  cpj_MedianTimePastWindow :: "int option"
  cpj_MaxTimeDrift :: "int option"
  cpj_MaxBlockSize :: "u64 option"
  cpj_MerkleEnable :: "bool option"
  cpj_MerkleActivationHeight :: "u64 option"
  cpj_BinaryEncodingEnable :: "bool option"
  cpj_BinaryEncodingActivationHeight :: "u64 option"

definition toMillis :: "int option \<Rightarrow> int option" where
  "toMillis v = (case v of None \<Rightarrow> None | Some s \<Rightarrow> Some (i64 (s * 1000)))"

text \<open>The loop of \<^verbatim>\<open>pickInt\<close>, \<^verbatim>\<open>pickInt64\<close> and \<^verbatim>\<open>pickUint32\<close>: \<open>out\<close> is \<open>None\<close> while
  \<open>set\<close> is false.\<close>

fun pick_loop :: "string \<Rightarrow> 'a option \<Rightarrow> 'a option list \<Rightarrow> 'a res" where
  "pick_loop name None [] = Inl (''consensusParams.'' @ name @ '' is required'')"
| "pick_loop name (Some out) [] = Inr out"
| "pick_loop name out (None # vs) = pick_loop name out vs"
| "pick_loop name None (Some v # vs) = pick_loop name (Some v) vs"
| "pick_loop name (Some out) (Some v # vs) =
     (if v \<noteq> out then Inl (''consensusParams.'' @ name @ '' mismatch'')
      else pick_loop name (Some out) vs)"

definition pickInt :: "string \<Rightarrow> int option list \<Rightarrow> int res" where
  "pickInt name values = pick_loop name None values"

definition pickInt64 :: "string \<Rightarrow> int option list \<Rightarrow> int res" where
  "pickInt64 name values = pick_loop name None values"

definition pickUint32 :: "string \<Rightarrow> u32 option list \<Rightarrow> u32 res" where
  "pickUint32 name values = pick_loop name None values"

definition require_field :: "string \<Rightarrow> 'a option \<Rightarrow> 'a res" where
  "require_field name v =
     (case v of None \<Rightarrow> Inl (''consensusParams.'' @ name @ '' is required'') | Some x \<Rightarrow> Inr x)"

definition maxDifficultyBits :: u32 where
  "maxDifficultyBits = 256"

definition validateConsensusParams :: "consensus_params \<Rightarrow> unit res" where
  "validateConsensusParams p =
     (if cp_TargetBlockTime p \<le> 0 then Inl ''consensusParams.difficultyTarget must be > 0''
      else if cp_DifficultyWindow p \<le> 0 then Inl ''consensusParams.difficultyWindow must be > 0''
      else if cp_DifficultyMaxStep p = 0 then Inl ''consensusParams.difficultyMaxStepBits must be > 0''
      else if cp_MinDifficultyBits p = 0 then Inl ''consensusParams.difficultyMinBits must be > 0''
      else if cp_MaxDifficultyBits p = 0 then Inl ''consensusParams.difficultyMaxBits must be > 0''
      else if maxDifficultyBits < cp_MaxDifficultyBits p
      then Inl ''consensusParams.difficultyMaxBits must be <= max''
      else if cp_MaxDifficultyBits p < cp_MinDifficultyBits p
      then Inl ''consensusParams.difficultyMinBits must be <= difficultyMaxBits''
      else if cp_GenesisDifficultyBits p < cp_MinDifficultyBits p \<or>
              cp_MaxDifficultyBits p < cp_GenesisDifficultyBits p
      then Inl ''consensusParams.genesisDifficultyBits must be within min/max difficulty bits''
      else if cp_MedianTimePastWindow p \<le> 0 then Inl ''consensusParams.medianTimePastWindow must be > 0''
      else if cp_MaxTimeDrift p \<le> 0 then Inl ''consensusParams.maxTimeDrift must be > 0''
      else if cp_MaxBlockSize p = 0 then Inl ''consensusParams.maxBlockSize must be > 0''
      else Inr ())"

text \<open>The policy is parsed separately and filled in by \<^verbatim>\<open>LoadGenesisConfig\<close>.\<close>

definition zero_policy :: monetary_policy where
  "zero_policy = \<lparr>mp_InitialBlockReward = 0, mp_HalvingInterval = 0, mp_MinerFeeShare = 0,
     mp_TailEmission = 0\<rparr>"

definition parseConsensusParams ::
  "(bytes \<Rightarrow> consensus_params_json res) \<Rightarrow> bytes \<Rightarrow> consensus_params res" where
  "parseConsensusParams decode raw =
     (if raw = [] then Inl ''genesis consensusParams is required''
      else case decode raw of Inl e \<Rightarrow> Inl (''parse consensusParams: '' @ e)
      | Inr aux \<Rightarrow>
        rbind (require_field ''difficultyEnable'' (cpj_DifficultyEnable aux)) (\<lambda>difficultyEnable.
        rbind (require_field ''merkleEnable'' (cpj_MerkleEnable aux)) (\<lambda>merkleEnable.
        rbind (require_field ''binaryEncodingEnable'' (cpj_BinaryEncodingEnable aux)) (\<lambda>binaryEnable.
        rbind (pickInt64 ''difficultyTarget''
          [cpj_DifficultyTargetMs aux, toMillis (cpj_DifficultyTargetSpacing aux)]) (\<lambda>targetMs.
        rbind (pickInt ''difficultyWindow''
          [cpj_DifficultyWindow aux, cpj_DifficultyWindowSize aux,
           cpj_DifficultyAdjustmentInterval aux]) (\<lambda>window.
        rbind (pickUint32 ''difficultyMaxStepBits''
          [cpj_DifficultyMaxStepBits aux, cpj_DifficultyMaxStep aux]) (\<lambda>maxStep.
        rbind (require_field ''difficultyMinBits'' (cpj_MinDifficultyBits aux)) (\<lambda>minBits.
        rbind (require_field ''difficultyMaxBits'' (cpj_MaxDifficultyBits aux)) (\<lambda>maxBits.
        rbind (require_field ''genesisDifficultyBits'' (cpj_GenesisDifficultyBits aux)) (\<lambda>genesisBits.
        rbind (require_field ''medianTimePastWindow'' (cpj_MedianTimePastWindow aux)) (\<lambda>mtpWindow.
        rbind (require_field ''maxTimeDrift'' (cpj_MaxTimeDrift aux)) (\<lambda>maxTimeDrift.
        rbind (require_field ''maxBlockSize'' (cpj_MaxBlockSize aux)) (\<lambda>maxBlockSize.
        rbind (require_field ''merkleActivationHeight'' (cpj_MerkleActivationHeight aux)) (\<lambda>merkleHeight.
        rbind (require_field ''binaryEncodingActivationHeight''
          (cpj_BinaryEncodingActivationHeight aux)) (\<lambda>binaryHeight.
        (let p = \<lparr>cp_DifficultyEnable = difficultyEnable,
                  cp_TargetBlockTime = i64 (targetMs * 1000000),
                  cp_DifficultyWindow = window,
                  cp_DifficultyMaxStep = maxStep,
                  cp_MinDifficultyBits = minBits,
                  cp_MaxDifficultyBits = maxBits,
                  cp_GenesisDifficultyBits = genesisBits,
                  cp_MedianTimePastWindow = mtpWindow,
                  cp_MaxTimeDrift = maxTimeDrift,
                  cp_MaxBlockSize = maxBlockSize,
                  cp_MerkleEnable = merkleEnable,
                  cp_MerkleActivationHeight = merkleHeight,
                  cp_BinaryEncodingEnable = binaryEnable,
                  cp_BinaryEncodingActivationHeight = binaryHeight,
                  cp_MonetaryPolicy = zero_policy\<rparr>
         in rbind (validateConsensusParams p) (\<lambda>_. Inr p)))))))))))))))))"

definition BinaryEncodingActive :: "consensus_params \<Rightarrow> u64 \<Rightarrow> bool" where
  "BinaryEncodingActive p height \<longleftrightarrow>
     cp_BinaryEncodingEnable p \<and> cp_BinaryEncodingActivationHeight p \<le> height"

definition blockVersionForHeight :: "consensus_params \<Rightarrow> u64 \<Rightarrow> u32" where
  "blockVersionForHeight p height =
     (if cp_MerkleEnable p \<and> cp_MerkleActivationHeight p \<le> height then 2 else 1)"

text \<open>The parameters a node runs with.\<close>

definition params_ok :: "consensus_params \<Rightarrow> bool" where
  "params_ok p \<longleftrightarrow>
     0 < cp_TargetBlockTime p \<and> 0 < cp_DifficultyWindow p \<and> cp_DifficultyMaxStep p \<noteq> 0 \<and>
     1 \<le> cp_MinDifficultyBits p \<and> cp_MinDifficultyBits p \<le> cp_MaxDifficultyBits p \<and>
     cp_MaxDifficultyBits p \<le> 256 \<and>
     cp_MinDifficultyBits p \<le> cp_GenesisDifficultyBits p \<and>
     cp_GenesisDifficultyBits p \<le> cp_MaxDifficultyBits p \<and>
     0 < cp_MedianTimePastWindow p \<and> 0 < cp_MaxTimeDrift p \<and> cp_MaxBlockSize p \<noteq> 0"

lemma u32_ge_1_iff: "1 \<le> (w :: u32) \<longleftrightarrow> w \<noteq> 0"
  by (simp add: word_le_nat_alt word_unat_eq_iff Suc_le_eq)

lemma validateConsensusParams_iff: "validateConsensusParams p = Inr () \<longleftrightarrow> params_ok p"
  unfolding validateConsensusParams_def params_ok_def
  by (auto simp: maxDifficultyBits_def u32_ge_1_iff not_less split: if_splits)

text \<open>Picking among several spellings of one parameter: at least one is given, and all
  that are given agree.\<close>

lemma pick_loop_Some:
  "pick_loop name (Some out) vs = Inr v \<longleftrightarrow> v = out \<and> (\<forall>x. Some x \<in> set vs \<longrightarrow> x = out)"
  by (induction name "Some out" vs arbitrary: out rule: pick_loop.induct) auto

lemma pick_loop_None:
  "pick_loop name None vs = Inr v \<longleftrightarrow> Some v \<in> set vs \<and> (\<forall>x. Some x \<in> set vs \<longrightarrow> x = v)"
proof (induction vs)
  case Nil
  then show ?case by simp
next
  case (Cons a vs)
  then show ?case
    by (cases a) (auto simp: pick_loop_Some)
qed

lemma parseConsensusParams_ok:
  "parseConsensusParams decode raw = Inr p \<Longrightarrow> params_ok p"
  by (auto simp: parseConsensusParams_def rbind_Inr_iff Let_def validateConsensusParams_iff
      split: if_splits sum.splits)

subsection \<open>Difficulty\<close>

text \<open>Indexing a slice panics (\<open>None\<close>) out of range.\<close>

definition go_nth :: "'a list \<Rightarrow> int \<Rightarrow> 'a option" where
  "go_nth xs i = (if 0 \<le> i \<and> i < int (length xs) then Some (xs ! nat i) else None)"

definition clampDifficultyBits :: "consensus_params \<Rightarrow> u32 \<Rightarrow> u32" where
  "clampDifficultyBits p bits =
     (let bits = (if bits < 1 then 1 else bits);
          bits = (if maxDifficultyBits < bits then maxDifficultyBits else bits)
      in if bits < cp_MinDifficultyBits p then cp_MinDifficultyBits p
         else if cp_MaxDifficultyBits p < bits then cp_MaxDifficultyBits p
         else bits)"

definition time_Second :: int where
  "time_Second = 1000000000"

text \<open>The span of the expected window in seconds, and the observed span after both
  clampings of the code.\<close>

definition expectedSpan :: "consensus_params \<Rightarrow> int" where
  "expectedSpan p =
     (let targetSec = tdiv (cp_TargetBlockTime p) time_Second;
          targetSec = (if targetSec \<le> 0 then 1 else targetSec);
          e = i64 (cp_DifficultyWindow p * targetSec)
      in if e \<le> 0 then 1 else e)"

definition clampSpan :: "int \<Rightarrow> int \<Rightarrow> int" where
  "clampSpan e a =
     (let a = (if a \<le> 0 then 1 else a);
          a = (if a < tdiv e 4 then tdiv e 4 else a)
      in if i64 (e * 4) < a then i64 (e * 4) else a)"

definition nextBits :: "consensus_params \<Rightarrow> u32 \<Rightarrow> int \<Rightarrow> int \<Rightarrow> u32" where
  "nextBits p parentBits e a =
     (let next = uint parentBits;
          next = (if a < tdiv e 2 then next + uint (cp_DifficultyMaxStep p)
                  else if i64 (e * 2) < a then next - uint (cp_DifficultyMaxStep p)
                  else next);
          next = (if next < 1 then 1 else next)
      in clampDifficultyBits p (word_of_int next))"

definition nextDifficultyBitsFromPath :: "consensus_params \<Rightarrow> block list \<Rightarrow> u32 option" where
  "nextDifficultyBitsFromPath p path =
     (if path = [] then Some (cp_GenesisDifficultyBits p)
      else
        let parentIdx = int (length path) - 1;
            parent = last path
        in
        if \<not> cp_DifficultyEnable p then
          (if blk_DifficultyBits parent = 0 then Some (cp_GenesisDifficultyBits p)
           else Some (clampDifficultyBits p (blk_DifficultyBits parent)))
        else if parentIdx < cp_DifficultyWindow p then
          Some (clampDifficultyBits p (blk_DifficultyBits parent))
        else
          case go_nth path (parentIdx - cp_DifficultyWindow p) of
            None \<Rightarrow> None
          | Some older \<Rightarrow>
              let e = expectedSpan p;
                  a = clampSpan e (i64 (blk_TimestampUnix parent - blk_TimestampUnix older))
              in Some (nextBits p (blk_DifficultyBits parent) e a))"

definition expectedDifficultyBitsForBlockIndex ::
  "consensus_params \<Rightarrow> block list \<Rightarrow> nat \<Rightarrow> u32 option" where
  "expectedDifficultyBitsForBlockIndex p path idx =
     (if idx = 0 \<or> length path \<le> idx then Some 0
      else nextDifficultyBitsFromPath p (take idx path))"

lemma clampDifficultyBits_range:
  assumes "params_ok p"
  shows "cp_MinDifficultyBits p \<le> clampDifficultyBits p b"
    and "clampDifficultyBits p b \<le> cp_MaxDifficultyBits p"
  using assms
  by (auto simp: clampDifficultyBits_def params_ok_def Let_def maxDifficultyBits_def u32_ge_1_iff)

lemma clampDifficultyBits_id:
  assumes "params_ok p" "cp_MinDifficultyBits p \<le> b" "b \<le> cp_MaxDifficultyBits p"
  shows "clampDifficultyBits p b = b"
proof -
  have "1 \<le> b" "b \<le> 256"
    using assms by (auto simp: params_ok_def)
  then have "\<not> b < 1" "\<not> maxDifficultyBits < b"
    by (simp_all add: maxDifficultyBits_def not_less u32_ge_1_iff)
  then show ?thesis
    using assms(2,3) by (auto simp: clampDifficultyBits_def Let_def)
qed

text \<open>With validated parameters the rule is total and stays in its range.\<close>

lemma nextDifficultyBits_total:
  assumes "params_ok p"
  shows "\<exists>b. nextDifficultyBitsFromPath p path = Some b \<and>
    cp_MinDifficultyBits p \<le> b \<and> b \<le> cp_MaxDifficultyBits p"
proof (cases "path = []")
  case True
  then show ?thesis
    using assms by (simp add: nextDifficultyBitsFromPath_def params_ok_def)
next
  case False
  let ?i = "int (length path) - 1 - cp_DifficultyWindow p"
  note range = clampDifficultyBits_range [OF assms]
  show ?thesis
  proof (cases "\<not> cp_DifficultyEnable p \<or> int (length path) - 1 < cp_DifficultyWindow p")
    case True
    then show ?thesis
      using False assms range
      by (auto simp: nextDifficultyBitsFromPath_def Let_def params_ok_def)
  next
    case False2: False
    then have "go_nth path ?i = Some (path ! nat ?i)"
      using assms False by (auto simp: go_nth_def params_ok_def)
    then show ?thesis
      using False False2 range
      by (auto simp: nextDifficultyBitsFromPath_def Let_def nextBits_def)
  qed
qed

text \<open>One retarget moves the difficulty by at most the configured step.\<close>

lemma clamp_between:
  assumes "params_ok p" "cp_MinDifficultyBits p \<le> b" "b \<le> cp_MaxDifficultyBits p"
    and "\<bar>x - uint b\<bar> \<le> s" "0 \<le> x" "x < 4294967296"
  shows "\<bar>uint (clampDifficultyBits p (word_of_int x)) - uint b\<bar> \<le> s"
proof -
  have ux: "uint (word_of_int x :: u32) = x"
    using assms(5,6) by (simp add: uint_word_of_int)
  have b: "uint (cp_MinDifficultyBits p) \<le> uint b" "uint b \<le> uint (cp_MaxDifficultyBits p)"
    "1 \<le> uint b" "uint b \<le> 256"
    using assms(1-3) by (auto simp: params_ok_def word_le_def)
  show ?thesis
    using assms(4) b
    by (auto simp: clampDifficultyBits_def Let_def maxDifficultyBits_def word_less_def ux)
qed

lemma nextBits_step:
  assumes "params_ok p" "cp_MinDifficultyBits p \<le> b" "b \<le> cp_MaxDifficultyBits p"
    and "cp_DifficultyMaxStep p < 2 ^ 31"
  shows "\<bar>uint (nextBits p b e a) - uint b\<bar> \<le> uint (cp_DifficultyMaxStep p)"
proof -
  define s where "s = uint (cp_DifficultyMaxStep p)"
  have b: "1 \<le> uint b" "uint b \<le> 256"
    using assms(1-3) by (auto simp: params_ok_def word_le_def)
  have s: "0 \<le> s" "s < 2147483648"
    using assms(4) by (simp_all add: word_less_def s_def)
  define x where "x = (let next = uint b;
          next = (if a < tdiv e 2 then next + s else if i64 (e * 2) < a then next - s else next)
      in if next < 1 then 1 else next)"
  have "\<bar>x - uint b\<bar> \<le> s" "0 \<le> x" "x < 4294967296"
    using b s by (auto simp: x_def Let_def)
  then have "\<bar>uint (clampDifficultyBits p (word_of_int x)) - uint b\<bar> \<le> s"
    by (rule clamp_between [OF assms(1-3)])
  moreover have "nextBits p b e a = clampDifficultyBits p (word_of_int x)"
    unfolding nextBits_def x_def s_def Let_def ..
  ultimately show ?thesis
    by (simp only: s_def)
qed

subsection \<open>Block times\<close>

definition medianTimePast :: "consensus_params \<Rightarrow> block list \<Rightarrow> int \<Rightarrow> int" where
  "medianTimePast p path endIdx =
     (let window = (if cp_MedianTimePastWindow p \<le> 0 then 11 else cp_MedianTimePastWindow p) in
      if endIdx < 0 then 0
      else
        let start = endIdx - (window - 1);
            start = (if start < 0 then 0 else start);
            ts = map blk_TimestampUnix (drop (nat start) (take (nat endIdx + 1) path))
        in if ts = [] then 0 else sort ts ! (length ts div 2))"

definition validateBlockTime :: "int \<Rightarrow> consensus_params \<Rightarrow> block list \<Rightarrow> nat \<Rightarrow> unit res" where
  "validateBlockTime now p path idx =
     (if idx = 0 \<or> length path \<le> idx then Inr ()
      else
        let prev = path ! (idx - 1); cur = path ! idx in
        if blk_TimestampUnix cur \<le> blk_TimestampUnix prev then Inl ''timestamp not increasing''
        else
          let mtp = medianTimePast p path (int idx - 1) in
          if blk_TimestampUnix cur \<le> mtp then Inl ''timestamp too old''
          else if 0 < cp_MaxTimeDrift p \<and> i64 (now + cp_MaxTimeDrift p) < blk_TimestampUnix cur
          then Inl ''timestamp too far in future''
          else Inr ())"

lemma validateBlockTime_OK_iff:
  assumes "0 < idx" "idx < length path"
  shows "validateBlockTime now p path idx = Inr () \<longleftrightarrow>
    blk_TimestampUnix (path ! (idx - 1)) < blk_TimestampUnix (path ! idx) \<and>
    medianTimePast p path (int idx - 1) < blk_TimestampUnix (path ! idx) \<and>
    (0 < cp_MaxTimeDrift p \<longrightarrow> blk_TimestampUnix (path ! idx) \<le> i64 (now + cp_MaxTimeDrift p))"
  using assms by (auto simp: validateBlockTime_def Let_def)

text \<open>The median lies among the timestamps of the window.\<close>

lemma medianTimePast_mem:
  assumes "0 < idx" "idx \<le> length path"
  shows "\<exists>j < idx. medianTimePast p path (int idx - 1) = blk_TimestampUnix (path ! j)"
proof -
  define w where "w = (if cp_MedianTimePastWindow p \<le> 0 then 11 else cp_MedianTimePastWindow p)"
  define s where "s = nat (if int idx - 1 - (w - 1) < 0 then 0 else int idx - 1 - (w - 1))"
  define ts where "ts = map blk_TimestampUnix (drop s (take idx path))"
  have w: "1 \<le> w" by (simp add: w_def)
  then have s: "s < idx"
    using assms(1) by (auto simp: s_def)
  have n: "nat (int idx - 1) + 1 = idx"
    using assms(1) by simp
  have len: "length ts = idx - s"
    using assms(2) by (simp add: ts_def)
  have m: "medianTimePast p path (int idx - 1) = sort ts ! (length ts div 2)"
  proof -
    have "ts \<noteq> []" using len s by auto
    then show ?thesis
      unfolding medianTimePast_def Let_def w_def [symmetric] s_def [symmetric] n ts_def [symmetric]
      using assms(1) by simp
  qed
  have "length ts div 2 < length (sort ts)"
    using len s by simp
  then have "sort ts ! (length ts div 2) \<in> set ts"
    using nth_mem [of "length ts div 2" "sort ts"] by (simp only: set_sort)
  then obtain i where i: "i < length ts" "ts ! i = sort ts ! (length ts div 2)"
    by (metis in_set_conv_nth)
  have "ts ! i = blk_TimestampUnix (path ! (s + i))"
    using i(1) len assms(2) by (simp add: ts_def)
  then show ?thesis
    using i m len by (intro exI [of _ "s + i"]) simp
qed

text \<open>On a chain whose timestamps already increase, the median rule is implied by the
  parent rule.\<close>

lemma medianTimePast_le_prev:
  assumes "0 < idx" "idx \<le> length path"
    and "\<And>i j. i \<le> j \<Longrightarrow> j < idx \<Longrightarrow> blk_TimestampUnix (path ! i) \<le> blk_TimestampUnix (path ! j)"
  shows "medianTimePast p path (int idx - 1) \<le> blk_TimestampUnix (path ! (idx - 1))"
proof -
  obtain j where j: "j < idx" "medianTimePast p path (int idx - 1) = blk_TimestampUnix (path ! j)"
    using medianTimePast_mem [OF assms(1,2)] by blast
  then show ?thesis
    using assms(3) [of j "idx - 1"] by simp
qed

subsection \<open>Work\<close>

definition WorkForDifficultyBits :: "u32 \<Rightarrow> nat" where
  "WorkForDifficultyBits bits =
     (let bits = (if maxDifficultyBits < bits then maxDifficultyBits else bits)
      in if bits = 0 then 0 else 2 ^ unat bits)"

lemma WorkForDifficultyBits_pos: "bits \<noteq> 0 \<Longrightarrow> 0 < WorkForDifficultyBits bits"
  by (simp add: WorkForDifficultyBits_def Let_def maxDifficultyBits_def)

lemma WorkForDifficultyBits_mono: "a \<le> b \<Longrightarrow> WorkForDifficultyBits a \<le> WorkForDifficultyBits b"
  by (auto simp: WorkForDifficultyBits_def Let_def maxDifficultyBits_def word_le_nat_alt
      word_less_nat_alt not_less word_unat_eq_iff)


subsection \<open>The parameters of the shipped genesis files\<close>

definition smoke_params :: consensus_params where
  "smoke_params = \<lparr>
     cp_DifficultyEnable = False, cp_TargetBlockTime = 1000 * 1000000, cp_DifficultyWindow = 10,
     cp_DifficultyMaxStep = 1, cp_MinDifficultyBits = 1, cp_MaxDifficultyBits = 255,
     cp_GenesisDifficultyBits = 1, cp_MedianTimePastWindow = 11, cp_MaxTimeDrift = 7200,
     cp_MaxBlockSize = 1000000, cp_MerkleEnable = False, cp_MerkleActivationHeight = 0,
     cp_BinaryEncodingEnable = False, cp_BinaryEncodingActivationHeight = 0,
     cp_MonetaryPolicy = \<lparr>mp_InitialBlockReward = 50, mp_HalvingInterval = 210000,
       mp_MinerFeeShare = 100, mp_TailEmission = 0\<rparr>\<rparr>"

definition mainnet_params :: consensus_params where
  "mainnet_params = \<lparr>
     cp_DifficultyEnable = True, cp_TargetBlockTime = 60000 * 1000000, cp_DifficultyWindow = 100,
     cp_DifficultyMaxStep = 4, cp_MinDifficultyBits = 16, cp_MaxDifficultyBits = 32,
     cp_GenesisDifficultyBits = 20, cp_MedianTimePastWindow = 11, cp_MaxTimeDrift = 7200,
     cp_MaxBlockSize = 2000000, cp_MerkleEnable = True, cp_MerkleActivationHeight = 0,
     cp_BinaryEncodingEnable = True, cp_BinaryEncodingActivationHeight = 0,
     cp_MonetaryPolicy = \<lparr>mp_InitialBlockReward = 5000000000, mp_HalvingInterval = 210000,
       mp_MinerFeeShare = 100, mp_TailEmission = 0\<rparr>\<rparr>"

lemma params_ok_shipped: "params_ok smoke_params" "params_ok mainnet_params"
  by (simp_all add: params_ok_def smoke_params_def mainnet_params_def maxDifficultyBits_def)

subsection \<open>Total emission\<close>

lemma halving_sum:
  fixes I :: nat
  shows "(\<Sum>j < Suc m. I div 2 ^ j) + I div 2 ^ m \<le> 2 * I"
proof (induction m)
  case (Suc m)
  have "2 * (I div 2 ^ Suc m) \<le> I div 2 ^ m"
    by (simp add: div_mult2_eq mult.commute [of 2 "2 ^ m"])
  with Suc show ?case by simp
qed simp

lemma sum_intervals:
  fixes f :: "nat \<Rightarrow> nat"
  assumes "0 < k"
  shows "(\<Sum>h < m * k. f (h div k)) = k * (\<Sum>j < m. f j)"
proof (induction m)
  case (Suc m)
  have "(\<Sum>h < Suc m * k. f (h div k)) = (\<Sum>h < m * k. f (h div k)) + (\<Sum>h = m * k..<m * k + k. f (h div k))"
    by (simp add: lessThan_atLeast0 sum.atLeastLessThan_concat add.commute)
  moreover have "(\<Sum>h = m * k..<m * k + k. f (h div k)) = k * f m"
  proof -
    have "h div k = m" if "h \<in> {m * k..<m * k + k}" for h
      using that by (auto intro: div_nat_eqI simp: algebra_simps)
    then show ?thesis by simp
  qed
  ultimately show ?case using Suc by (simp add: algebra_simps)
qed simp

lemma emission_bound:
  fixes I k :: nat
  assumes "0 < k"
  shows "(\<Sum>h < n. I div 2 ^ (h div k)) \<le> 2 * I * k"
proof -
  have "(\<Sum>h < n. I div 2 ^ (h div k)) \<le> (\<Sum>h < Suc n * k. I div 2 ^ (h div k))"
    using assms by (intro sum_mono2) (auto intro!: trans_le_add2)
  also have "\<dots> = k * (\<Sum>j < Suc n. I div 2 ^ j)" by (rule sum_intervals [OF assms])
  also have "\<dots> \<le> k * (2 * I)" using halving_sum [where I = I and m = n] by (intro mult_left_mono) auto
  finally show ?thesis by (simp add: algebra_simps)
qed

subsection \<open>Properties\<close>

text \<open>The block reward is the initial reward halved once per interval and the tail emission once
  that is exhausted; without tail emission all rewards that can ever be paid sum to at most
  twice the initial reward times the interval.\<close>

theorem reward_schedule:
  assumes "mp_HalvingInterval p \<noteq> 0"
  shows "(let r = unat (mp_InitialBlockReward p) div 2 ^ (unat h div unat (mp_HalvingInterval p))
      in unat (BlockReward p h) = (if r = 0 then unat (mp_TailEmission p) else r)) \<and>
    (mp_TailEmission p = 0 \<longrightarrow> n \<le> 2 ^ 64 \<longrightarrow>
      (\<Sum>i < n. unat (BlockReward p (word_of_nat i))) \<le>
        2 * unat (mp_InitialBlockReward p) * unat (mp_HalvingInterval p))"
proof (intro conjI impI)
  show "let r = unat (mp_InitialBlockReward p) div 2 ^ (unat h div unat (mp_HalvingInterval p))
      in unat (BlockReward p h) = (if r = 0 then unat (mp_TailEmission p) else r)"
    using BlockReward_closed [OF assms, of h] by (simp add: Let_def)
  assume tail: "mp_TailEmission p = 0" and n: "n \<le> 2 ^ 64"
  have "unat (BlockReward p (word_of_nat i)) =
      unat (mp_InitialBlockReward p) div 2 ^ (i div unat (mp_HalvingInterval p))" if "i < n" for i
  proof -
    have "unat (word_of_nat i :: u64) = i"
      using that n by (simp add: unsigned_of_nat take_bit_nat_eq_self_iff)
    then show ?thesis using BlockReward_closed [OF assms, of "word_of_nat i"] tail by (auto split: if_splits)
  qed
  then show "(\<Sum>i < n. unat (BlockReward p (word_of_nat i))) \<le>
      2 * unat (mp_InitialBlockReward p) * unat (mp_HalvingInterval p)"
    using emission_bound [of "unat (mp_HalvingInterval p)" "unat (mp_InitialBlockReward p)" n] assms
    by (simp add: word_unat_eq_iff [of _ 0] del: unsigned_eq_0_iff)
qed

theorem reward_schedule_witness:
  "unat (BlockReward (cp_MonetaryPolicy mainnet_params) 210000) = 2500000000 \<and>
   (\<Sum>i < 2 ^ 64. unat (BlockReward (cp_MonetaryPolicy mainnet_params) (word_of_nat i))) \<le> 2100000000000000"
  using reward_schedule [of "cp_MonetaryPolicy mainnet_params" 210000 "2 ^ 64"]
  by (simp add: mainnet_params_def Let_def)


definition bits20_block :: block where
  "bits20_block = \<lparr>blk_Version = 2, blk_Height = 0, blk_TimestampUnix = 1742252800, blk_PrevHash = None,
     blk_Nonce = 0, blk_DifficultyBits = 20, blk_MinerAddress = [], blk_Transactions = [],
     blk_Hash = None, blk_StateRoot = None, blk_UTXORoot = None\<rparr>"


text \<open>The time rule: a block is accepted exactly when it is later than its parent, later than the
  median of the window before it, and not too far ahead of the clock; on a chain whose times
  already increase the median condition follows from the parent condition.\<close>

theorem block_time_rule:
  assumes "0 < idx" and "idx < length path"
  shows "(validateBlockTime now p path idx = Inr () \<longleftrightarrow>
      blk_TimestampUnix (path ! (idx - 1)) < blk_TimestampUnix (path ! idx) \<and>
      medianTimePast p path (int idx - 1) < blk_TimestampUnix (path ! idx) \<and>
      (0 < cp_MaxTimeDrift p \<longrightarrow> blk_TimestampUnix (path ! idx) \<le> i64 (now + cp_MaxTimeDrift p))) \<and>
    ((\<forall>i j. i \<le> j \<longrightarrow> j < idx \<longrightarrow> blk_TimestampUnix (path ! i) \<le> blk_TimestampUnix (path ! j)) \<longrightarrow>
      medianTimePast p path (int idx - 1) \<le> blk_TimestampUnix (path ! (idx - 1)))"
  using validateBlockTime_OK_iff [OF assms] medianTimePast_le_prev [of idx path p] assms by auto

theorem block_time_rule_witness:
  "validateBlockTime 1742252900 mainnet_params
     [bits20_block, bits20_block\<lparr>blk_TimestampUnix := 1742252801\<rparr>] 1 = Inr ()"
  using block_time_rule [of 1 "[bits20_block, bits20_block\<lparr>blk_TimestampUnix := 1742252801\<rparr>]" 1742252900 mainnet_params]
  by (simp add: medianTimePast_def bits20_block_def mainnet_params_def i64_def)

end
