(* ===== verification/Merkle.thy ===== *)
theory Merkle
  imports Chain_Types
begin

text \<open>
  The Merkle trees of the program.  \<^verbatim>\<open>internal/crypto/merkle.go\<close> and
  \<^verbatim>\<open>internal/blockchain/merkle.go\<close> build the tagged tree that block headers of
  version 2 commit to; the second file also has the untagged scheme of the light
  client (\<^verbatim>\<open>buildMerkleProof\<close>, \<^verbatim>\<open>VerifyMerkleProof\<close>).
\<close>

subsection \<open>Levels\<close>

text \<open>One pass of the inner loop: neighbours are joined, a last odd node is joined
  with itself.\<close>

fun level_up :: "(bytes \<Rightarrow> bytes \<Rightarrow> bytes) \<Rightarrow> bytes list \<Rightarrow> bytes list" where
  "level_up nh [] = []"
| "level_up nh [x] = [nh x x]"
| "level_up nh (x # y # r) = nh x y # level_up nh r"

lemma length_level_up [simp]: "length (level_up nh xs) = (length xs + 1) div 2"
  by (induction nh xs rule: level_up.induct) auto

text \<open>The outer loop of \<^verbatim>\<open>MerkleRoot\<close>; \<open>None\<close> is the index panic on an empty level.\<close>

function root_loop :: "(bytes \<Rightarrow> bytes \<Rightarrow> bytes) \<Rightarrow> bytes list \<Rightarrow> bytes option" where
  "root_loop nh level =
     (if 1 < length level then root_loop nh (level_up nh level)
      else case level of [] \<Rightarrow> None | x # _ \<Rightarrow> Some x)"
  by pat_completeness auto
termination
  by (relation "measure (\<lambda>(nh, level). length level)") auto

declare root_loop.simps [simp del]

text \<open>The sibling of position \<open>idx\<close> and the side it is on.\<close>

definition sibling :: "bytes list \<Rightarrow> nat \<Rightarrow> bytes \<times> bool" where
  "sibling level idx =
     (if idx mod 2 = 0
      then (if idx + 1 < length level then level ! (idx + 1) else level ! idx, False)
      else (level ! (idx - 1), True))"

text \<open>The loop of the proof builders: branch, sides, root.\<close>

function proof_loop ::
  "(bytes \<Rightarrow> bytes \<Rightarrow> bytes) \<Rightarrow> bytes list \<Rightarrow> nat \<Rightarrow> (bytes list \<times> bool list \<times> bytes) option" where
  "proof_loop nh level idx =
     (if 1 < length level then
        (case proof_loop nh (level_up nh level) (idx div 2) of
           None \<Rightarrow> None
         | Some (branch, sides, root) \<Rightarrow>
             (case sibling level idx of (s, left) \<Rightarrow> Some (s # branch, left # sides, root)))
      else case level of [] \<Rightarrow> None | x # _ \<Rightarrow> Some ([], [], x))"
  by pat_completeness auto
termination
  by (relation "measure (\<lambda>(nh, level, idx). length level)") auto

declare proof_loop.simps [simp del]

text \<open>The loop of the verifier over the branch.\<close>

fun fold_branch :: "(bytes \<Rightarrow> bytes \<Rightarrow> bytes) \<Rightarrow> bytes \<Rightarrow> (bytes \<times> bool) list \<Rightarrow> bytes res" where
  "fold_branch nh cur [] = Inr cur"
| "fold_branch nh cur ((sib, left) # r) =
     (if length sib \<noteq> 32 then Inl ''branch item must be 32 bytes''
      else fold_branch nh (if left then nh sib cur else nh cur sib) r)"

subsection \<open>The tagged hashes\<close>

text \<open>\<^verbatim>\<open>copy(dst[i:], src)\<close>.\<close>

definition copy_at :: "nat \<Rightarrow> bytes \<Rightarrow> bytes \<Rightarrow> bytes" where
  "copy_at i src dst = take i dst @ take (length dst - i) src @ drop (i + length src) dst"

definition leafBytes :: "bytes \<Rightarrow> bytes" where
  "leafBytes leaf = copy_at 1 leaf (0 # replicate 32 0)"

definition nodeBytes :: "bytes \<Rightarrow> bytes \<Rightarrow> bytes" where
  "nodeBytes left right = copy_at 33 right (copy_at 1 left (1 # replicate 64 0))"

definition hashLeaf :: "bytes \<Rightarrow> bytes" where
  "hashLeaf leaf = sha256 (leafBytes leaf)"

definition hashNode :: "bytes \<Rightarrow> bytes \<Rightarrow> bytes" where
  "hashNode left right = sha256 (nodeBytes left right)"

lemma leafBytes_32: "length leaf = 32 \<Longrightarrow> leafBytes leaf = 0 # leaf"
  by (simp add: leafBytes_def copy_at_def)

lemma nodeBytes_32: "length l = 32 \<Longrightarrow> length r = 32 \<Longrightarrow> nodeBytes l r = 1 # l @ r"
  by (simp add: nodeBytes_def copy_at_def)

lemma length_hashLeaf [simp]: "length (hashLeaf l) = 32"
  by (simp add: hashLeaf_def)

lemma length_hashNode [simp]: "length (hashNode l r) = 32"
  by (simp add: hashNode_def)

subsection \<open>internal/blockchain: MerkleRoot and MerkleProofFromLeaves\<close>

text \<open>The root of an empty or malformed leaf list is the nil slice, without an error.\<close>

definition MerkleRoot :: "bytes list \<Rightarrow> slice" where
  "MerkleRoot leaves =
     (if leaves = [] then None
      else if \<exists>l \<in> set leaves. length l \<noteq> 32 then None
      else root_loop hashNode (map hashLeaf leaves))"

definition MerkleProofFromLeaves ::
  "bytes list \<Rightarrow> int \<Rightarrow> (bytes list \<times> bool list \<times> bytes) res" where
  "MerkleProofFromLeaves leaves index =
     (if leaves = [] then Inl ''empty leaves''
      else if index < 0 \<or> int (length leaves) \<le> index then Inl ''index out of range''
      else if \<exists>l \<in> set leaves. length l \<noteq> 32 then Inl ''leaf must be 32 bytes''
      else case proof_loop hashNode (map hashLeaf leaves) (nat index) of
             None \<Rightarrow> Inl ''index panic'' | Some r \<Rightarrow> Inr r)"

subsection \<open>internal/crypto: MerkleRoot, MerkleProof and VerifyMerkleProof\<close>

definition crypto_MerkleRoot :: "bytes list \<Rightarrow> bytes res" where
  "crypto_MerkleRoot leaves =
     (if leaves = [] then Inl ''empty leaves''
      else if \<exists>l \<in> set leaves. length l \<noteq> 32 then Inl ''leaf must be 32 bytes''
      else case root_loop hashNode (map hashLeaf leaves) of
             None \<Rightarrow> Inl ''index panic'' | Some r \<Rightarrow> Inr r)"

definition crypto_MerkleProof ::
  "bytes list \<Rightarrow> int \<Rightarrow> (bytes list \<times> bool list \<times> bytes) res" where
  "crypto_MerkleProof leaves index =
     (if leaves = [] then Inl ''empty leaves''
      else if index < 0 \<or> int (length leaves) \<le> index then Inl ''index out of range''
      else if \<exists>l \<in> set leaves. length l \<noteq> 32 then Inl ''leaf must be 32 bytes''
      else case proof_loop hashNode (map hashLeaf leaves) (nat index) of
             None \<Rightarrow> Inl ''index panic'' | Some r \<Rightarrow> Inr r)"

definition crypto_VerifyMerkleProof ::
  "bytes \<Rightarrow> int \<Rightarrow> bytes list \<Rightarrow> bool list \<Rightarrow> bytes \<Rightarrow> bool res" where
  "crypto_VerifyMerkleProof leaf index branch siblingLeft expectedRoot =
     (if length leaf \<noteq> 32 then Inl ''leaf must be 32 bytes''
      else if length expectedRoot \<noteq> 32 then Inl ''expected root must be 32 bytes''
      else if length branch \<noteq> length siblingLeft then Inl ''branch/side length mismatch''
      else if index < 0 then Inl ''index must be >= 0''
      else case fold_branch hashNode (hashLeaf leaf) (zip branch siblingLeft) of
             Inl e \<Rightarrow> Inl e | Inr cur \<Rightarrow> Inr (cur = expectedRoot))"

subsection \<open>Completeness: a built proof verifies\<close>

lemma level_up_nth:
  assumes "i < length xs"
  shows "level_up nh xs ! (i div 2) =
    (let s = fst (sibling xs i) in if snd (sibling xs i) then nh s (xs ! i) else nh (xs ! i) s)"
  using assms
proof (induction nh xs arbitrary: i rule: level_up.induct)
  case (3 nh x y r)
  show ?case
  proof (cases "i < 2")
    case True
    then have "i = 0 \<or> i = 1" by auto
    then show ?thesis by (auto simp: sibling_def)
  next
    case False
    then obtain k where k: "i = Suc (Suc k)"
      by (metis add_2_eq_Suc le_Suc_ex not_less)
    have "k < length r" using 3 k by simp
    moreover have "sibling (x # y # r) i = sibling r k"
    proof (cases "k mod 2 = 0")
      case True
      then show ?thesis by (simp add: sibling_def k)
    next
      case False
      then obtain k' where "k = Suc k'" by (cases k) auto
      with False show ?thesis by (simp add: sibling_def k)
    qed
    ultimately show ?thesis
      using "3.IH" [of k] by (simp add: k Let_def)
  qed
qed (auto simp: sibling_def)

lemma set_level_up: "x \<in> set (level_up nh xs) \<Longrightarrow> \<exists>a \<in> set xs. \<exists>b \<in> set xs. x = nh a b"
  by (induction nh xs rule: level_up.induct) auto

lemma sibling_mem: "i < length xs \<Longrightarrow> fst (sibling xs i) \<in> set xs"
  by (auto simp: sibling_def)

text \<open>The root computed along a proof is the root of the tree; every branch entry is a
  node of the tree, hence 32 bytes long.\<close>

lemma proof_loop_complete:
  assumes "idx < length level" and "\<forall>x \<in> set level. length x = 32"
    and "\<And>a b. length (nh a b) = 32"
  shows "\<exists>branch sides root. proof_loop nh level idx = Some (branch, sides, root) \<and>
    root_loop nh level = Some root \<and> length branch = length sides \<and> length root = 32 \<and>
    fold_branch nh (level ! idx) (zip branch sides) = Inr root"
  using assms
proof (induction nh level idx rule: proof_loop.induct)
  case (1 nh level idx)
  show ?case
  proof (cases "1 < length level")
    case True
    have lvl: "\<forall>x \<in> set (level_up nh level). length x = 32"
      using "1.prems"(3) set_level_up by fastforce
    have "idx div 2 < length (level_up nh level)"
      using "1.prems"(1) by simp
    then obtain branch sides root where IH:
      "proof_loop nh (level_up nh level) (idx div 2) = Some (branch, sides, root)"
      "root_loop nh (level_up nh level) = Some root" "length branch = length sides"
      "length root = 32"
      "fold_branch nh (level_up nh level ! (idx div 2)) (zip branch sides) = Inr root"
      using "1.IH" [OF True] lvl "1.prems"(3) by blast
    obtain s left where s: "sibling level idx = (s, left)"
      by (cases "sibling level idx")
    have "length s = 32"
      using sibling_mem [OF "1.prems"(1)] s "1.prems"(2) by simp
    moreover have "level_up nh level ! (idx div 2) =
      (if left then nh s (level ! idx) else nh (level ! idx) s)"
      using level_up_nth [OF "1.prems"(1), of nh] s by (simp add: Let_def)
    ultimately show ?thesis
      using True IH s by (simp add: proof_loop.simps [of nh level] root_loop.simps [of nh level])
  next
    case False
    then obtain x where "level = [x]"
      using "1.prems"(1) by (cases level; cases "tl level") auto
    then show ?thesis
      using "1.prems" by (simp add: proof_loop.simps root_loop.simps)
  qed
qed


subsection \<open>Soundness: what verifies is a leaf of the tree\<close>

text \<open>The messages hashed while a tree is built and while a branch is verified.\<close>

fun level_inputs :: "(bytes \<Rightarrow> bytes \<Rightarrow> bytes) \<Rightarrow> bytes list \<Rightarrow> bytes list" where
  "level_inputs np [] = []"
| "level_inputs np [x] = [np x x]"
| "level_inputs np (x # y # r) = np x y # level_inputs np r"

function root_inputs ::
  "(bytes \<Rightarrow> bytes \<Rightarrow> bytes) \<Rightarrow> (bytes \<Rightarrow> bytes) \<Rightarrow> bytes list \<Rightarrow> bytes list" where
  "root_inputs np H level =
     (if 1 < length level
      then level_inputs np level @ root_inputs np H (level_up (\<lambda>a b. H (np a b)) level)
      else [])"
  by pat_completeness auto
termination
  by (relation "measure (\<lambda>(np, H, level). length level)") auto

declare root_inputs.simps [simp del]

fun branch_inputs ::
  "(bytes \<Rightarrow> bytes \<Rightarrow> bytes) \<Rightarrow> (bytes \<Rightarrow> bytes) \<Rightarrow> bytes \<Rightarrow> (bytes \<times> bool) list \<Rightarrow> bytes list" where
  "branch_inputs np H cur [] = []"
| "branch_inputs np H cur ((sib, left) # r) =
     (let m = (if left then np sib cur else np cur sib) in m # branch_inputs np H (H m) r)"

lemma set_level_inputs:
  "t \<in> set (level_inputs np xs) \<Longrightarrow> \<exists>a \<in> set xs. \<exists>b \<in> set xs. t = np a b"
  by (induction np xs rule: level_inputs.induct) auto

lemma level_up_inputs: "level_up (\<lambda>a b. H (np a b)) xs = map H (level_inputs np xs)"
  by (induction np xs rule: level_inputs.induct) auto

lemma fold_branch_snoc:
  "fold_branch nh cur (st @ [(sib, left)]) = Inr root \<longleftrightarrow>
   length sib = 32 \<and>
   (\<exists>c. fold_branch nh cur st = Inr c \<and> root = (if left then nh sib c else nh c sib))"
  by (induction nh cur st rule: fold_branch.induct) auto

lemma branch_inputs_snoc:
  "fold_branch (\<lambda>a b. H (np a b)) cur st = Inr c \<Longrightarrow>
   branch_inputs np H cur (st @ [(sib, left)]) =
     branch_inputs np H cur st @ [if left then np sib c else np c sib]"
  by (induction "\<lambda>a b. H (np a b)" cur st rule: fold_branch.induct)
    (auto simp: Let_def split: if_splits)

lemma fold_branch_length:
  "fold_branch nh cur st = Inr c \<Longrightarrow> length cur = 32 \<Longrightarrow> (\<And>a b. length (nh a b) = 32) \<Longrightarrow>
   length c = 32"
  by (induction nh cur st rule: fold_branch.induct) (auto split: if_splits)

text \<open>The contract of a node hash: the message of a node determines its two 32-byte children.\<close>

locale node_hash = hash32 H for H :: "bytes \<Rightarrow> bytes" +
  fixes np :: "bytes \<Rightarrow> bytes \<Rightarrow> bytes"
  assumes node_inj: "length a = 32 \<Longrightarrow> length b = 32 \<Longrightarrow> length c = 32 \<Longrightarrow> length d = 32 \<Longrightarrow>
      np a b = np c d \<Longrightarrow> a = c \<and> b = d"
begin

abbreviation nh :: "bytes \<Rightarrow> bytes \<Rightarrow> bytes" where
  "nh a b \<equiv> H (np a b)"

text \<open>Roots bind the leaves of trees of the same size.\<close>

lemma level_inputs_eq:
  assumes "length xs = length ys" and "\<forall>x \<in> set xs \<union> set ys. length x = 32"
    and "level_inputs np xs = level_inputs np ys"
  shows "xs = ys"
  using assms
proof (induction xs arbitrary: ys rule: induct_list012)
  case (2 x)
  then obtain y where "ys = [y]" by (cases ys) auto
  with 2 show ?case using node_inj [of x x y y] by auto
next
  case (3 x x' r)
  then obtain y y' s where ys: "ys = y # y' # s"
    by (metis length_Suc_conv list.size(4))
  with 3 have "x = y \<and> x' = y'" by (intro node_inj) auto
  with 3 ys show ?case by auto
qed simp

lemma map_hash_eq:
  "map H A = map H B \<Longrightarrow> A = B \<or> collides H A B"
proof (induction A arbitrary: B)
  case (Cons a A)
  then obtain b B' where B: "B = b # B'" "H a = H b" "map H A = map H B'" by (cases B) auto
  with Cons.IH [of B'] show ?case by (auto simp: collides_def)
qed simp

lemma root_loop_binds:
  assumes "length xs = length ys" and "\<forall>x \<in> set xs \<union> set ys. length x = 32"
    and "root_loop nh xs = root_loop nh ys"
  shows "xs = ys \<or> collides H (root_inputs np H xs) (root_inputs np H ys)"
  using assms
proof (induction "length xs" arbitrary: xs ys rule: less_induct)
  case (less xs)
  show ?case
  proof (cases "1 < length xs")
    case True
    let ?ux = "level_up nh xs" and ?uy = "level_up nh ys"
    have "root_loop nh ?ux = root_loop nh ?uy"
      using less True by (simp add: root_loop.simps [of _ xs] root_loop.simps [of _ ys])
    moreover have "\<forall>x \<in> set ?ux \<union> set ?uy. length x = 32"
      by (auto simp: level_up_inputs hash_length)
    ultimately have "?ux = ?uy \<or> collides H (root_inputs np H ?ux) (root_inputs np H ?uy)"
      using less True by (intro less.hyps) auto
    then show ?thesis
    proof
      assume "?ux = ?uy"
      then have "level_inputs np xs = level_inputs np ys \<or>
          collides H (level_inputs np xs) (level_inputs np ys)"
        by (intro map_hash_eq) (simp add: level_up_inputs)
      then show ?thesis
        using level_inputs_eq [of xs ys] less True
        by (auto simp: root_inputs.simps [of _ _ xs] root_inputs.simps [of _ _ ys]
            intro: collides_append)
    qed (use less True in \<open>auto simp: root_inputs.simps [of _ _ xs] root_inputs.simps [of _ _ ys]
            intro: collides_append\<close>)
  next
    case False
    then show ?thesis
      using less by (cases xs; cases ys) (auto simp: root_loop.simps)
  qed
qed

end

text \<open>The contract of a domain-separated tree hash: in addition, leaf messages are injective in their
  32-byte parts and never equal a node message.\<close>

locale merkle_hash = node_hash H np for H :: "bytes \<Rightarrow> bytes" and np :: "bytes \<Rightarrow> bytes \<Rightarrow> bytes" +
  fixes lp :: "bytes \<Rightarrow> bytes"
  assumes leaf_inj: "length a = 32 \<Longrightarrow> length b = 32 \<Longrightarrow> lp a = lp b \<Longrightarrow> a = b"
    and leaf_node: "length a = 32 \<Longrightarrow> length b = 32 \<Longrightarrow> length c = 32 \<Longrightarrow> lp a \<noteq> np b c"
begin

lemma root_inputs_closed:
  assumes "set level \<subseteq> H ` S"
  shows "\<forall>t \<in> set (root_inputs np H level). \<exists>a b. t = np a b \<and>
      a \<in> H ` (S \<union> set (root_inputs np H level)) \<and> b \<in> H ` (S \<union> set (root_inputs np H level))"
    and "root_loop nh level = Some root \<Longrightarrow> root \<in> H ` (S \<union> set (root_inputs np H level))"
  using assms
proof (induction np H level arbitrary: S rule: root_inputs.induct)
  case (1 np H level)
  note unf = root_inputs.simps [of np H level] root_loop.simps [of "\<lambda>a b. H (np a b)" level]
  let ?up = "level_up (\<lambda>a b. H (np a b)) level"
  {
    case 1
    show ?case
    proof (cases "1 < length level")
      case True
      have "set ?up \<subseteq> H ` set (level_inputs np level)"
        by (simp add: level_up_inputs)
      note IH = "1.IH"(1) [OF True this]
      show ?thesis
        using IH set_level_inputs [of _ np level] 1 True by (fastforce simp: unf)
    qed (simp add: unf)
  next
    case 2
    show ?case
    proof (cases "1 < length level")
      case True
      have "set ?up \<subseteq> H ` set (level_inputs np level)"
        by (simp add: level_up_inputs)
      from "1.IH"(2) [OF True _ this] 2 True show ?thesis
        by (auto simp: unf)
    next
      case False
      then show ?thesis using 2 by (auto simp: unf split: list.splits)
    qed
  }
qed

text \<open>A set of messages closed under the tree structure: what verifies against the hash
  of one of them starts at a leaf among them.\<close>

lemma branch_descends:
  assumes closed: "\<forall>t \<in> set T. (\<exists>l \<in> L. t = lp l) \<or>
      (\<exists>a b. t = np a b \<and> a \<in> H ` set T \<and> b \<in> H ` set T)"
    and L: "\<forall>l \<in> L. length l = 32" and leaf: "length leaf = 32"
    and fold: "fold_branch nh (H (lp leaf)) st = Inr root" and root: "root \<in> H ` set T"
  shows "leaf \<in> L \<or> collides H (lp leaf # branch_inputs np H (H (lp leaf)) st) T"
  using fold root
proof (induction st arbitrary: root rule: rev_induct)
  case Nil
  then obtain t where t: "t \<in> set T" "H (lp leaf) = H t" by auto
  show ?case
  proof (cases "lp leaf = t")
    case True
    with t(1) closed leaf leaf_node [OF leaf] leaf_inj L show ?thesis
      by (metis hash_length imageE)
  next
    case False
    with t show ?thesis by (auto simp: collides_def)
  qed
next
  case (snoc s st)
  obtain sib left where s: "s = (sib, left)" by (cases s)
  obtain c where c: "length sib = 32" "fold_branch nh (H (lp leaf)) st = Inr c"
      "root = H (if left then np sib c else np c sib)"
    using snoc.prems(1) by (auto simp: s fold_branch_snoc)
  let ?m = "if left then np sib c else np c sib"
  have bi: "branch_inputs np H (H (lp leaf)) (st @ [s]) = branch_inputs np H (H (lp leaf)) st @ [?m]"
    using branch_inputs_snoc [where H = H and np = np, OF c(2)] by (simp add: s)
  have lc: "length c = 32"
    by (rule fold_branch_length [OF c(2)]) (simp_all add: hash_length)
  obtain t where t: "t \<in> set T" "root = H t" using snoc.prems(2) by auto
  show ?case
  proof (cases "?m = t")
    case True
    have "c \<in> H ` set T"
      using closed t(1) True c(1) lc L leaf_node node_inj
      by (cases left) (metis (no_types, lifting) hash_length imageE)+
    from snoc.IH [OF c(2) this] show ?thesis
      by (auto simp: bi collides_def)
  next
    case False
    with t c(3) show ?thesis by (auto simp: bi collides_def)
  qed
qed

theorem tree_sound:
  assumes "\<forall>l \<in> set leaves. length l = 32" and "length leaf = 32"
    and "root_loop nh (map (\<lambda>l. H (lp l)) leaves) = Some root"
    and "fold_branch nh (H (lp leaf)) st = Inr root"
  shows "leaf \<in> set leaves \<or> collides H (lp leaf # branch_inputs np H (H (lp leaf)) st)
    (map lp leaves @ root_inputs np H (map (\<lambda>l. H (lp l)) leaves))"
proof (rule branch_descends)
  let ?S = "set (map lp leaves)" and ?lv = "map (\<lambda>l. H (lp l)) leaves"
  have S: "set ?lv \<subseteq> H ` ?S" by auto
  show "\<forall>t \<in> set (map lp leaves @ root_inputs np H ?lv). (\<exists>l \<in> set leaves. t = lp l) \<or>
      (\<exists>a b. t = np a b \<and> a \<in> H ` set (map lp leaves @ root_inputs np H ?lv) \<and>
        b \<in> H ` set (map lp leaves @ root_inputs np H ?lv))"
    using root_inputs_closed(1) [OF S] by auto
  show "root \<in> H ` set (map lp leaves @ root_inputs np H ?lv)"
    using root_inputs_closed(2) [OF S assms(3)] by simp
qed (use assms in auto)

theorem tree_binds:
  assumes "length xs = length ys" and "\<forall>x \<in> set xs \<union> set ys. length x = 32"
    and "root_loop nh (map (\<lambda>l. H (lp l)) xs) = root_loop nh (map (\<lambda>l. H (lp l)) ys)"
  shows "xs = ys \<or> collides H
    (map lp xs @ root_inputs np H (map (\<lambda>l. H (lp l)) xs))
    (map lp ys @ root_inputs np H (map (\<lambda>l. H (lp l)) ys))"
proof -
  have "map (\<lambda>l. H (lp l)) xs = map (\<lambda>l. H (lp l)) ys \<or> collides H
      (root_inputs np H (map (\<lambda>l. H (lp l)) xs)) (root_inputs np H (map (\<lambda>l. H (lp l)) ys))"
    using assms by (intro root_loop_binds) (auto simp: hash_length)
  moreover have "map lp xs = map lp ys \<or> collides H (map lp xs) (map lp ys)"
    if "map (\<lambda>l. H (lp l)) xs = map (\<lambda>l. H (lp l)) ys"
    using that by (intro map_hash_eq) (simp add: comp_def)
  moreover have "xs = ys" if "map lp xs = map lp ys"
    using that assms(2) by (intro map_inj_on [of lp xs ys]) (auto intro!: inj_onI leaf_inj)
  ultimately show ?thesis
    by (auto intro: collides_append)
qed

end

interpretation mh: merkle_hash sha256 nodeBytes leafBytes
  by unfold_locales (auto simp: leafBytes_32 nodeBytes_32)

text \<open>The messages hashed by one call of \<^const>\<open>MerkleRoot\<close> and of
  \<^const>\<open>crypto_VerifyMerkleProof\<close>.\<close>

definition tree_messages :: "bytes list \<Rightarrow> bytes list" where
  "tree_messages leaves =
     map leafBytes leaves @ root_inputs nodeBytes sha256 (map hashLeaf leaves)"

definition proof_messages :: "bytes \<Rightarrow> bytes list \<Rightarrow> bool list \<Rightarrow> bytes list" where
  "proof_messages leaf branch sides =
     leafBytes leaf # branch_inputs nodeBytes sha256 (hashLeaf leaf) (zip branch sides)"

lemma hash_abbrevs: "hashLeaf = (\<lambda>l. sha256 (leafBytes l))"
    "hashNode = (\<lambda>a b. sha256 (nodeBytes a b))"
  by (intro ext; simp add: hashLeaf_def hashNode_def)+

lemma MerkleRoot_SomeD:
  "MerkleRoot leaves = Some root \<Longrightarrow> leaves \<noteq> [] \<and> (\<forall>l \<in> set leaves. length l = 32) \<and>
   root_loop hashNode (map hashLeaf leaves) = Some root"
  by (auto simp: MerkleRoot_def split: if_splits)

lemma MerkleRoot_total:
  "leaves \<noteq> [] \<Longrightarrow> \<forall>l \<in> set leaves. length l = 32 \<Longrightarrow> \<exists>root. MerkleRoot leaves = Some root \<and> length root = 32"
  using proof_loop_complete [of 0 "map hashLeaf leaves" hashNode] by (auto simp: MerkleRoot_def)

lemma merkle_binds:
  assumes "MerkleRoot xs = Some root" and "MerkleRoot ys = Some root" and "length xs = length ys"
  shows "xs = ys \<or> collides sha256 (tree_messages xs) (tree_messages ys)"
  using mh.tree_binds [of xs ys] MerkleRoot_SomeD [OF assms(1)] MerkleRoot_SomeD [OF assms(2)] assms(3)
  unfolding tree_messages_def hash_abbrevs by auto

subsection \<open>Duplicating the last leaf\<close>

lemma level_up_append:
  "even (length xs) \<Longrightarrow> level_up nh (xs @ ys) = level_up nh xs @ level_up nh ys"
  by (induction nh xs rule: level_up.induct) auto

lemma root_loop_dup:
  assumes "even (length xs)" and "xs \<noteq> []"
  shows "root_loop nh (xs @ [x, x]) = root_loop nh (xs @ [x])"
  using assms
  by (simp add: root_loop.simps [of _ "xs @ [x, x]"] root_loop.simps [of _ "xs @ [x]"]
      level_up_append Suc_lessI)

subsection \<open>Properties\<close>

text \<open>C21. The proof \<^verbatim>\<open>MerkleProofFromLeaves\<close> builds for any position of any list of 32-byte
  leaves ends in the root that \<^verbatim>\<open>MerkleRoot\<close> computes, and the verifier of
  \<^verbatim>\<open>internal/crypto\<close> accepts it for the leaf at that position.\<close>

theorem merkle_proof_verifies:
  assumes "i < length leaves" and "\<forall>l \<in> set leaves. length l = 32"
  shows "\<exists>branch sides root. MerkleProofFromLeaves leaves (int i) = Inr (branch, sides, root) \<and>
    MerkleRoot leaves = Some root \<and>
    crypto_VerifyMerkleProof (leaves ! i) (int i) branch sides root = Inr True"
proof -
  have "leaves \<noteq> []" and "length (leaves ! i) = 32" using assms by auto
  moreover obtain branch sides root where
    "proof_loop hashNode (map hashLeaf leaves) i = Some (branch, sides, root)"
    "root_loop hashNode (map hashLeaf leaves) = Some root" "length branch = length sides"
    "length root = 32" "fold_branch hashNode (hashLeaf (leaves ! i)) (zip branch sides) = Inr root"
    using proof_loop_complete [of i "map hashLeaf leaves" hashNode] assms by auto
  ultimately show ?thesis
    using assms by (intro exI [of _ branch] exI [of _ sides] exI [of _ root])
      (auto simp: MerkleProofFromLeaves_def MerkleRoot_def crypto_VerifyMerkleProof_def)
qed

theorem merkle_proof_verifies_witness:
  "\<exists>branch sides root.
    MerkleProofFromLeaves [replicate 32 0, replicate 32 1, replicate 32 2] 2 = Inr (branch, sides, root) \<and>
    MerkleRoot [replicate 32 0, replicate 32 1, replicate 32 2] = Some root \<and>
    crypto_VerifyMerkleProof (replicate 32 2) 2 branch sides root = Inr True"
  using merkle_proof_verifies [of 2 "[replicate 32 0, replicate 32 1, replicate 32 2]"] by simp

text \<open>C7. Whatever leaf and branch the verifier accepts against the root of a tree, the
  leaf is one of the leaves the tree was built from, or the messages hashed by the two
  computations contain a SHA-256 collision.\<close>

theorem merkle_proof_sound:
  assumes "MerkleRoot leaves = Some root"
    and "crypto_VerifyMerkleProof leaf i branch sides root = Inr True"
  shows "leaf \<in> set leaves \<or>
    collides sha256 (proof_messages leaf branch sides) (tree_messages leaves)"
  using mh.tree_sound [of leaves leaf root "zip branch sides"] MerkleRoot_SomeD [OF assms(1)] assms(2)
  by (auto simp: crypto_VerifyMerkleProof_def proof_messages_def tree_messages_def hash_abbrevs
      split: if_splits sum.splits)

theorem merkle_proof_sound_witness:
  "MerkleRoot [replicate 32 7] = Some (hashLeaf (replicate 32 7)) \<and>
   (replicate 32 7 \<in> set [replicate 32 (7 :: u8)] \<or>
    collides sha256 (proof_messages (replicate 32 7) [] []) (tree_messages [replicate 32 7]))"
proof -
  have "MerkleRoot [replicate 32 7] = Some (hashLeaf (replicate 32 7))"
    by (simp add: MerkleRoot_def root_loop.simps)
  then show ?thesis
    using merkle_proof_sound [of "[replicate 32 7]" "hashLeaf (replicate 32 7)" "replicate 32 7" 0 "[]" "[]"]
    by (simp add: crypto_VerifyMerkleProof_def)
qed

text \<open>Two leaf lists of the same size with the same root are equal, or building the
  two trees exhibits a SHA-256 collision.\<close>

theorem merkle_root_binds:
  assumes "MerkleRoot xs = Some root" and "MerkleRoot ys = Some root" and "length xs = length ys"
  shows "xs = ys \<or> collides sha256 (tree_messages xs) (tree_messages ys)"
  using assms by (rule merkle_binds)

theorem merkle_root_binds_witness:
  "[replicate 32 7] = [replicate 32 (7 :: u8)] \<or>
   collides sha256 (tree_messages [replicate 32 7]) (tree_messages [replicate 32 7])"
proof -
  have "MerkleRoot [replicate 32 7] = Some (hashLeaf (replicate 32 7))"
    by (simp add: MerkleRoot_def root_loop.simps)
  from merkle_root_binds [OF this this] show ?thesis by simp
qed

text \<open>The size condition cannot be dropped: an odd list of at least three leaves and
  the list with its last leaf repeated have the same root.\<close>

theorem merkle_root_duplicate_last:
  assumes "even (length xs)" and "xs \<noteq> []" and "\<forall>l \<in> set (x # xs). length l = 32"
  shows "MerkleRoot (xs @ [x]) = MerkleRoot (xs @ [x, x]) \<and> MerkleRoot (xs @ [x]) \<noteq> None"
proof -
  have "\<exists>root. root_loop hashNode (map hashLeaf (xs @ [x])) = Some root"
    using proof_loop_complete [of 0 "map hashLeaf (xs @ [x])" hashNode] by auto
  then show ?thesis
    using assms root_loop_dup [of "map hashLeaf xs" hashNode "hashLeaf x"]
    by (auto simp: MerkleRoot_def)
qed

theorem merkle_root_duplicate_last_witness:
  "MerkleRoot [replicate 32 0, replicate 32 1, replicate 32 2] =
   MerkleRoot [replicate 32 0, replicate 32 1, replicate 32 2, replicate 32 2]"
  using merkle_root_duplicate_last [of "[replicate 32 0, replicate 32 1]" "replicate 32 2"] by simp

end
