(* ===== verification/Encoding.thy ===== *)
theory Encoding
  imports Consensus Merkle
begin

text \<open>
  \<^verbatim>\<open>internal/blockchain/encoding.go\<close> and \<^verbatim>\<open>internal/blockchain/pow.go\<close>: the bytes
  that transaction ids, signatures and block hashes are computed from, in the legacy
  JSON form and in the binary form, the signature rules, and proof of work.  The
  verification function of ed25519 is an argument \<open>ed\<close> (key, message, signature).
\<close>

subsection \<open>JSON views\<close>

definition json_u64 :: "u64 \<Rightarrow> string" where
  "json_u64 w = dec_nat (unat w)"

definition json_u32 :: "u32 \<Rightarrow> string" where
  "json_u32 w = dec_nat (unat w)"

text \<open>\<^verbatim>\<open>json.Marshal\<close> of a \<^verbatim>\<open>signingView\<close>.\<close>

definition signingView :: "transaction \<Rightarrow> string \<Rightarrow> string" where
  "signingView t fromAddr = json_object (
     [(''type'', json_string (tx_Type t)), (''chainId'', json_u64 (tx_ChainID t))] @
     omit_when (fromAddr = '''') ''fromAddr'' (json_string fromAddr) @
     [(''toAddress'', json_string (tx_ToAddress t)), (''amount'', json_u64 (tx_Amount t)),
      (''fee'', json_u64 (tx_Fee t))] @
     omit_when (tx_Nonce t = 0) ''nonce'' (json_u64 (tx_Nonce t)) @
     omit_when (tx_Data t = '''') ''data'' (json_string (tx_Data t)))"

definition signingHashLegacyJSON :: "transaction \<Rightarrow> bytes res" where
  "signingHashLegacyJSON t =
     (if tx_Type t = TxTransfer
      then rbind (FromAddress t) (\<lambda>fromAddr. Inr (sha256 (bytes_of_string (signingView t fromAddr))))
      else Inr (sha256 (bytes_of_string (signingView t ''''))))"

definition SigningHash :: "transaction \<Rightarrow> bytes res" where
  "SigningHash t = signingHashLegacyJSON t"

text \<open>\<^verbatim>\<open>json.Marshal\<close> of a transaction and of a block, as the block-size rule measures it.\<close>

definition transaction_json :: "transaction \<Rightarrow> string" where
  "transaction_json t = json_object (
     [(''type'', json_string (tx_Type t)), (''chainId'', json_u64 (tx_ChainID t))] @
     omit_when (sl (tx_FromPubKey t) = []) ''fromPubKey'' (json_slice (tx_FromPubKey t)) @
     [(''toAddress'', json_string (tx_ToAddress t)), (''amount'', json_u64 (tx_Amount t)),
      (''fee'', json_u64 (tx_Fee t))] @
     omit_when (tx_Nonce t = 0) ''nonce'' (json_u64 (tx_Nonce t)) @
     omit_when (tx_Data t = '''') ''data'' (json_string (tx_Data t)) @
     omit_when (sl (tx_Signature t) = []) ''signature'' (json_slice (tx_Signature t)))"

definition block_json :: "block \<Rightarrow> string" where
  "block_json b = json_object (
     [(''version'', json_u32 (blk_Version b)), (''height'', json_u64 (blk_Height b)),
      (''timestampUnix'', dec_int (blk_TimestampUnix b)), (''prevHash'', json_slice (blk_PrevHash b)),
      (''nonce'', json_u64 (blk_Nonce b)), (''difficultyBits'', json_u32 (blk_DifficultyBits b)),
      (''minerAddress'', json_string (blk_MinerAddress b)),
      (''transactions'', if blk_Transactions b = [] then ''null''
                         else json_list (map transaction_json (blk_Transactions b))),
      (''hash'', json_slice (blk_Hash b))] @
     omit_when (sl (blk_StateRoot b) = []) ''stateRoot'' (json_slice (blk_StateRoot b)) @
     omit_when (sl (blk_UTXORoot b) = []) ''utxoRoot'' (json_slice (blk_UTXORoot b)))"

definition blockSizeForConsensus :: "block option \<Rightarrow> nat res" where
  "blockSizeForConsensus b =
     (case b of None \<Rightarrow> Inl ''nil block'' | Some b \<Rightarrow> Inr (length (block_json b)))"

subsection \<open>Binary views\<close>

definition binaryEncodingVersionV1 :: u8 where
  "binaryEncodingVersionV1 = 1"

lemma drop_bit_7_less: "drop_bit 7 n \<noteq> 0 \<Longrightarrow> unat (drop_bit 7 n) < unat (n :: u64)"
proof -
  assume "drop_bit 7 n \<noteq> 0"
  then have "unat n \<noteq> 0" by (metis drop_bit_of_0 unsigned_eq_0_iff)
  moreover have "unat (drop_bit 7 n) = unat n div 128"
    by (simp add: drop_bit_eq_div unat_div_distrib)
  ultimately show ?thesis by simp
qed

function writeULEB128 :: "u64 \<Rightarrow> bytes" where
  "writeULEB128 n =
     (let b = ucast (n AND 0x7F) :: u8; m = drop_bit 7 n
      in if m \<noteq> 0 then (b OR 0x80) # writeULEB128 m else [b])"
  by pat_completeness auto

termination
  by (relation "measure unat") (auto intro: drop_bit_7_less)

declare writeULEB128.simps [simp del]

definition decodeHex32 :: "string \<Rightarrow> bytes res" where
  "decodeHex32 addrHex =
     (case hex_decode addrHex of (b, ok) \<Rightarrow>
        if \<not> ok then Inl ''hex error''
        else if length b \<noteq> 32 then Inl ''expected 32 bytes''
        else Inr (copy_at 0 b (replicate 32 0)))"

definition txSigningPreimageBinaryV1 :: "transaction \<Rightarrow> bytes res" where
  "txSigningPreimageBinaryV1 tx =
     (if tx_Type tx \<noteq> TxCoinbase \<and> tx_Type tx \<noteq> TxTransfer then Inl ''unknown tx type''
      else if tx_ChainID tx = 0 then Inl ''missing chainId''
      else
        let buf = [binaryEncodingVersionV1, if tx_Type tx = TxCoinbase then 0 else 1] @ le64 (tx_ChainID tx);
            data = bytes_of_string (tx_Data tx)
        in if tx_Type tx = TxCoinbase then
             (case decodeHex32 (tx_ToAddress tx) of
                Inl _ \<Rightarrow> Inl ''invalid toAddress''
              | Inr to \<Rightarrow> Inr (buf @ to @ le64 (tx_Amount tx) @
                    writeULEB128 (word_of_nat (length data)) @ data))
           else if length (sl (tx_FromPubKey tx)) \<noteq> 32 then Inl ''invalid fromPubKey length''
           else
             (case decodeHex32 (tx_ToAddress tx) of
                Inl _ \<Rightarrow> Inl ''invalid toAddress''
              | Inr to \<Rightarrow> Inr (buf @ sl (tx_FromPubKey tx) @ to @ le64 (tx_Amount tx) @
                    le64 (tx_Nonce tx) @ le64 (tx_Fee tx) @
                    writeULEB128 (word_of_nat (length data)) @ data)))"

definition txSigningHashBinaryV1 :: "transaction \<Rightarrow> bytes res" where
  "txSigningHashBinaryV1 tx = rbind (txSigningPreimageBinaryV1 tx) (\<lambda>pre. Inr (sha256 pre))"

definition txSigningHashForConsensus :: "transaction \<Rightarrow> consensus_params \<Rightarrow> u64 \<Rightarrow> bytes res" where
  "txSigningHashForConsensus tx p height =
     (if BinaryEncodingActive p height then txSigningHashBinaryV1 tx else signingHashLegacyJSON tx)"

definition TxIDHex :: "transaction \<Rightarrow> string res" where
  "TxIDHex tx = rbind (SigningHash tx) (\<lambda>h. Inr (hex_encode h))"

definition TxIDHexForConsensus :: "transaction \<Rightarrow> consensus_params \<Rightarrow> u64 \<Rightarrow> string res" where
  "TxIDHexForConsensus tx p height =
     rbind (txSigningHashForConsensus tx p height)
       (\<lambda>h. if length h \<noteq> 32 then Inl ''expected 32 bytes'' else Inr (hex_encode h))"

subsection \<open>Signatures\<close>

type_synonym ed25519 = "bytes \<Rightarrow> bytes \<Rightarrow> bytes \<Rightarrow> bool"

definition crypto_Verify :: "ed25519 \<Rightarrow> bytes \<Rightarrow> bytes \<Rightarrow> bytes \<Rightarrow> bool" where
  "crypto_Verify ed pubKey message signature =
     (if length pubKey \<noteq> 32 then False else ed pubKey message signature)"

definition verifyWithSigningHash :: "ed25519 \<Rightarrow> transaction \<Rightarrow> bytes \<Rightarrow> unit res" where
  "verifyWithSigningHash ed t h =
     (if tx_Type t \<noteq> TxTransfer
      then Inl ''signature verification only applies to transfer transactions''
      else if length (sl (tx_FromPubKey t)) \<noteq> 32 then Inl ''invalid fromPubKey length''
      else if length (sl (tx_Signature t)) \<noteq> 64 then Inl ''invalid signature length''
      else if \<not> crypto_Verify ed (copy_at 0 (sl (tx_FromPubKey t)) (replicate 32 0)) h (sl (tx_Signature t))
      then Inl ''signature verification failed''
      else Inr ())"

definition verify_coinbase :: "transaction \<Rightarrow> unit res" where
  "verify_coinbase t =
     (if tx_ChainID t = 0 then Inl ''chainId must be set''
      else if tx_Amount t = 0 then Inl ''coinbase amount must be > 0''
      else rbind (ValidateAddress (tx_ToAddress t)) (\<lambda>_.
        if tx_FromPubKey t \<noteq> None \<or> tx_Signature t \<noteq> None \<or> tx_Nonce t \<noteq> 0 \<or> tx_Fee t \<noteq> 0
        then Inl ''coinbase must not include fromPubKey/signature/nonce/fee''
        else Inr ()))"

text \<open>The transfer branch shared by \<^verbatim>\<open>Verify\<close> and \<^verbatim>\<open>VerifyForConsensus\<close>, which differ in the
  signing hash they use.\<close>

definition verify_transfer :: "ed25519 \<Rightarrow> transaction \<Rightarrow> bytes res \<Rightarrow> unit res" where
  "verify_transfer ed t hash =
     (if tx_Amount t = 0 then Inl ''amount must be > 0''
      else rbind (ValidateAddress (tx_ToAddress t)) (\<lambda>_.
        if length (sl (tx_FromPubKey t)) \<noteq> 32 then Inl ''invalid fromPubKey length''
        else if length (sl (tx_Signature t)) \<noteq> 64 then Inl ''invalid signature length''
        else if tx_Nonce t = 0 then Inl ''nonce must be > 0''
        else if tx_ChainID t = 0 then Inl ''chainId must be set''
        else rbind hash (\<lambda>h. verifyWithSigningHash ed t h)))"

definition Verify :: "ed25519 \<Rightarrow> transaction \<Rightarrow> unit res" where
  "Verify ed t =
     (if tx_Type t = TxCoinbase then verify_coinbase t
      else if tx_Type t = TxTransfer then verify_transfer ed t (signingHashLegacyJSON t)
      else Inl ''unknown transaction type'')"

definition VerifyForConsensus ::
  "ed25519 \<Rightarrow> transaction \<Rightarrow> consensus_params \<Rightarrow> u64 \<Rightarrow> unit res" where
  "VerifyForConsensus ed t p height =
     (if tx_Type t = TxCoinbase then Verify ed t
      else if tx_Type t = TxTransfer then verify_transfer ed t (txSigningHashForConsensus t p height)
      else Inl ''unknown transaction type'')"

subsection \<open>Block headers\<close>

fun rmap :: "('a \<Rightarrow> 'b res) \<Rightarrow> 'a list \<Rightarrow> 'b list res" where
  "rmap f [] = Inr []"
| "rmap f (x # xs) = rbind (f x) (\<lambda>y. rbind (rmap f xs) (\<lambda>ys. Inr (y # ys)))"

definition TxRootLegacyForConsensus :: "block \<Rightarrow> consensus_params \<Rightarrow> slice res" where
  "TxRootLegacyForConsensus b p =
     rbind (rmap (\<lambda>tx. txSigningHashForConsensus tx p (blk_Height b)) (blk_Transactions b))
       (\<lambda>ths. Inr (Some (sha256 (concat ths))))"

definition MerkleRootV2ForConsensus :: "block \<Rightarrow> consensus_params \<Rightarrow> slice res" where
  "MerkleRootV2ForConsensus b p =
     rbind (rmap (\<lambda>tx. txSigningHashForConsensus tx p (blk_Height b)) (blk_Transactions b))
       (\<lambda>leaves. Inr (MerkleRoot leaves))"

definition block_root :: "block \<Rightarrow> consensus_params \<Rightarrow> slice res" where
  "block_root b p =
     (if blk_Version b = 2 then MerkleRootV2ForConsensus b p else TxRootLegacyForConsensus b p)"

definition blockHeaderPreimageBinaryV1 :: "block \<Rightarrow> u64 \<Rightarrow> consensus_params \<Rightarrow> bytes res" where
  "blockHeaderPreimageBinaryV1 b nonce p =
     (if blk_TimestampUnix b \<le> 0 then Inl ''invalid timestamp''
      else if length (sl (blk_PrevHash b)) \<noteq> 0 \<and> length (sl (blk_PrevHash b)) \<noteq> 32
      then Inl ''invalid prevHash length''
      else if length (sl (blk_Hash b)) \<noteq> 0 \<and> length (sl (blk_Hash b)) \<noteq> 32
      then Inl ''invalid hash length''
      else case decodeHex32 (blk_MinerAddress b) of
        Inl _ \<Rightarrow> Inl ''invalid minerAddress''
      | Inr miner \<Rightarrow>
          rbind (block_root b p) (\<lambda>r.
            let root = copy_at 0 (sl r) (replicate 32 0);
                prev = (if length (sl (blk_PrevHash b)) = 32
                        then copy_at 0 (sl (blk_PrevHash b)) (replicate 32 0) else replicate 32 0)
            in Inr ([binaryEncodingVersionV1] @ le32 (blk_Version b) @ le64 (blk_Height b) @
                 le_i64 (blk_TimestampUnix b) @ prev @ root @ le32 (blk_DifficultyBits b) @
                 miner @ le64 nonce)))"

text \<open>\<^verbatim>\<open>json.Marshal\<close> of \<^verbatim>\<open>headerV1\<close> and \<^verbatim>\<open>headerV2\<close>, which differ in the name of the root.\<close>

definition header_json :: "string \<Rightarrow> block \<Rightarrow> slice \<Rightarrow> u64 \<Rightarrow> string" where
  "header_json rootName b root nonce = json_object
     [(''version'', json_u32 (blk_Version b)), (''height'', json_u64 (blk_Height b)),
      (''timestampUnix'', dec_int (blk_TimestampUnix b)),
      (''prevHashB64'', json_string (base64 (sl (blk_PrevHash b)))),
      (rootName, json_string (hex_encode (sl root))),
      (''difficultyBits'', json_u32 (blk_DifficultyBits b)),
      (''minerAddress'', json_string (blk_MinerAddress b)), (''nonce'', json_u64 nonce)]"

definition HeaderBytesForConsensus :: "consensus_params \<Rightarrow> block \<Rightarrow> u64 \<Rightarrow> bytes res" where
  "HeaderBytesForConsensus p b nonce =
     (if BinaryEncodingActive p (blk_Height b) then blockHeaderPreimageBinaryV1 b nonce p
      else if blk_Version b = 2 then
        rbind (MerkleRootV2ForConsensus b p)
          (\<lambda>root. Inr (bytes_of_string (header_json ''merkleRootHex'' b root nonce)))
      else
        rbind (TxRootLegacyForConsensus b p)
          (\<lambda>root. Inr (bytes_of_string (header_json ''txRootHex'' b root nonce))))"

subsection \<open>Proof of work\<close>

definition big_SetBytes :: "bytes \<Rightarrow> nat" where
  "big_SetBytes bs = foldl (\<lambda>a b. 256 * a + unat b) 0 bs"

text \<open>The shift count is a \<^verbatim>\<open>uint32\<close> subtraction.\<close>

definition pow_target :: "block \<Rightarrow> nat" where
  "pow_target b = 2 ^ unat (256 - blk_DifficultyBits b)"

text \<open>The search loop does not end when no nonce meets the target.\<close>

partial_function (option) pow_loop ::
  "consensus_params \<Rightarrow> block \<Rightarrow> u64 \<Rightarrow> (u64 \<times> bytes) res option" where
  "pow_loop p b nonce =
     (case HeaderBytesForConsensus p b nonce of
        Inl e \<Rightarrow> Some (Inl e)
      | Inr header \<Rightarrow>
          if big_SetBytes (sha256 header) < pow_target b then Some (Inr (nonce, sha256 header))
          else pow_loop p b (nonce + 1))"

definition pow_Run :: "consensus_params \<Rightarrow> block \<Rightarrow> (u64 \<times> bytes) res option" where
  "pow_Run p b = pow_loop p b 0"

definition pow_Validate :: "consensus_params \<Rightarrow> block \<Rightarrow> bool res" where
  "pow_Validate p b =
     rbind (HeaderBytesForConsensus p b (blk_Nonce b)) (\<lambda>header.
       if length (sl (blk_Hash b)) \<noteq> 0 \<and> sl (blk_Hash b) \<noteq> sha256 header then Inr False
       else Inr (big_SetBytes (sha256 header) < pow_target b))"

text \<open>The hash, and the block with its hash set when it had none.\<close>

definition ensureBlockHash :: "block \<Rightarrow> consensus_params \<Rightarrow> (bytes \<times> block) res" where
  "ensureBlockHash b p =
     rbind (HeaderBytesForConsensus p b (blk_Nonce b)) (\<lambda>header.
       Inr (sha256 header,
            if length (sl (blk_Hash b)) = 0 then b\<lparr>blk_Hash := Some (sha256 header)\<rparr> else b))"


subsection \<open>ULEB128 is a prefix code\<close>

lemma bit_127: "bit (0x7F :: u64) i \<longleftrightarrow> i < 7"
proof -
  have "(0x7F :: u64) = mask 7" by (simp add: mask_eq_exp_minus_1)
  then have "bit (0x7F :: u64) i \<longleftrightarrow> bit (mask 7 :: u64) i" by (rule arg_cong)
  also have "\<dots> \<longleftrightarrow> i < 7" unfolding bit_mask_iff by auto
  finally show ?thesis .
qed

lemma bit_low7: "bit (ucast (n AND 0x7F) :: u8) i \<longleftrightarrow> i < 7 \<and> bit (n :: u64) i"
  by (simp only: bit_unsigned_iff bit_and_iff bit_127) auto

lemma bit_128: "bit (0x80 :: u8) i \<longleftrightarrow> i = 7"
proof -
  have "(0x80 :: u8) = 2 ^ 7" by simp
  then have "bit (0x80 :: u8) i \<longleftrightarrow> bit (2 ^ 7 :: u8) i" by (rule arg_cong)
  also have "\<dots> \<longleftrightarrow> i = 7" unfolding bit_exp_iff by auto
  finally show ?thesis .
qed

lemma low7_eq: "(ucast (n AND 0x7F) :: u8) = ucast (m AND 0x7F) \<Longrightarrow> drop_bit 7 n = drop_bit 7 m \<Longrightarrow> n = (m :: u64)"
proof (rule bit_word_eqI)
  fix i
  assume a: "(ucast (n AND 0x7F) :: u8) = ucast (m AND 0x7F)" and b: "drop_bit 7 n = drop_bit 7 m"
    and "i < LENGTH(64)"
  show "bit n i \<longleftrightarrow> bit m i"
  proof (cases "i < 7")
    case True
    then show ?thesis using arg_cong [OF a, of "\<lambda>w. bit w i"] by (simp add: bit_low7)
  next
    case False
    then show ?thesis using arg_cong [OF b, of "\<lambda>w. bit w (i - 7)"] by (simp add: bit_simps)
  qed
qed
lemma low7_or: "(ucast ((n :: u64) AND 0x7F) :: u8) OR 0x80 = ucast (m AND 0x7F) OR 0x80 \<longleftrightarrow> (ucast (n AND 0x7F) :: u8) = ucast ((m :: u64) AND 0x7F)"
  unfolding bit_eq_iff by (simp only: bit_low7 bit_or_iff bit_128) auto
lemma low7_or': "(ucast ((n :: u64) AND 0x7F) :: u8) OR 0x80 \<noteq> ucast ((m :: u64) AND 0x7F)"
proof
  assume "(ucast ((n :: u64) AND 0x7F) :: u8) OR 0x80 = ucast (m AND 0x7F)"
  from arg_cong [OF this, of "\<lambda>w. bit w 7"] show False by (simp only: bit_low7 bit_or_iff bit_128) simp
qed

lemma writeULEB128_split:
  "writeULEB128 n @ r = writeULEB128 m @ s \<Longrightarrow> n = m \<and> r = s"
proof (induction n arbitrary: m rule: writeULEB128.induct)
  case (1 n)
  note unf = writeULEB128.simps [of n] writeULEB128.simps [of m]
  show ?case
  proof (cases "drop_bit 7 n = 0 \<or> drop_bit 7 m = 0")
    case True
    then show ?thesis
      using "1.prems" low7_eq [of n m] low7_or' [of n m] low7_or' [of m n]
      by (auto simp: unf Let_def split: if_splits)
  next
    case False
    then have "(ucast (n AND 0x7F) :: u8) = ucast (m AND 0x7F)"
      and "writeULEB128 (drop_bit 7 n) @ r = writeULEB128 (drop_bit 7 m) @ s"
      using "1.prems" by (simp_all add: unf Let_def low7_or)
    with "1.IH" [OF refl refl] False low7_eq [of n m] show ?thesis by blast
  qed
qed

interpretation uleb: prefix_code writeULEB128
  by unfold_locales (rule writeULEB128_split)


subsection \<open>Fields of the binary forms\<close>

lemma copy_at_0 [simp]: "length src = n \<Longrightarrow> copy_at 0 src (replicate n x) = src"
  by (simp add: copy_at_def)

lemma decodeHex32_Inr_iff:
  "decodeHex32 a = Inr b \<longleftrightarrow> hex_decode a = (b, True) \<and> length b = 32"
  by (auto simp: decodeHex32_def split: prod.splits if_splits)

lemma decodeHex32_length:
  "decodeHex32 a = Inr b \<Longrightarrow> length b = 32"
  by (simp add: decodeHex32_Inr_iff)

lemma decodeHex32_address:
  "ValidateAddress a = Inr () \<Longrightarrow> decodeHex32 a = Inl ''hex error''"
  by (simp add: decodeHex32_def ValidateAddress_not_hex)

lemma le_i64_inj:
  assumes "le_i64 x = le_i64 y" and "- (2 ^ 63) \<le> x" "x < 2 ^ 63" "- (2 ^ 63) \<le> y" "y < 2 ^ 63"
  shows "x = y"
proof -
  have "nat (x mod 2 ^ 64) = nat (y mod 2 ^ 64)"
    using assms(1) by (intro le_bytes_inj [of _ 8]) (simp_all add: le_i64_def nat_less_iff)
  then have "x mod 2 ^ 64 = y mod 2 ^ 64" by (simp add: nat_eq_iff2)
  then have "(x + 2 ^ 63) mod 2 ^ 64 = (y + 2 ^ 63) mod 2 ^ 64"
    by (metis mod_add_left_eq)
  with i64_id [of x] i64_id [of y] assms show ?thesis by (simp add: i64_def)
qed

lemma txSigningPreimageBinaryV1_coinbase:
  "tx_Type t = TxCoinbase \<Longrightarrow> txSigningPreimageBinaryV1 t = Inr m \<longleftrightarrow>
   tx_ChainID t \<noteq> 0 \<and> (\<exists>to. decodeHex32 (tx_ToAddress t) = Inr to \<and> length to = 32 \<and>
     m = [1, 0] @ le64 (tx_ChainID t) @ to @ le64 (tx_Amount t) @
       writeULEB128 (word_of_nat (length (tx_Data t))) @ bytes_of_string (tx_Data t))"
  by (auto simp: txSigningPreimageBinaryV1_def binaryEncodingVersionV1_def Let_def
      dest: decodeHex32_length split: sum.splits if_splits)

lemma txSigningPreimageBinaryV1_transfer:
  "tx_Type t = TxTransfer \<Longrightarrow> txSigningPreimageBinaryV1 t = Inr m \<longleftrightarrow>
   tx_ChainID t \<noteq> 0 \<and> length (sl (tx_FromPubKey t)) = 32 \<and>
   (\<exists>to. decodeHex32 (tx_ToAddress t) = Inr to \<and> length to = 32 \<and>
     m = [1, 1] @ le64 (tx_ChainID t) @ sl (tx_FromPubKey t) @ to @ le64 (tx_Amount t) @
       le64 (tx_Nonce t) @ le64 (tx_Fee t) @
       writeULEB128 (word_of_nat (length (tx_Data t))) @ bytes_of_string (tx_Data t))"
  by (auto simp: txSigningPreimageBinaryV1_def binaryEncodingVersionV1_def Let_def
      dest: decodeHex32_length split: sum.splits if_splits)

lemma txSigningPreimageBinaryV1_type:
  "txSigningPreimageBinaryV1 t = Inr m \<Longrightarrow> tx_Type t = TxCoinbase \<or> tx_Type t = TxTransfer"
  by (auto simp: txSigningPreimageBinaryV1_def split: if_splits)

lemma txSigningPreimageBinaryV1_signature:
  "txSigningPreimageBinaryV1 (t\<lparr>tx_Signature := x\<rparr>) = txSigningPreimageBinaryV1 t"
  by (simp add: txSigningPreimageBinaryV1_def Let_def cong: if_cong sum.case_cong)

text \<open>The fields a binary signing preimage determines.\<close>

definition same_signed_fields :: "transaction \<Rightarrow> transaction \<Rightarrow> bool" where
  "same_signed_fields s t \<longleftrightarrow>
     tx_Type s = tx_Type t \<and> tx_ChainID s = tx_ChainID t \<and>
     decodeHex32 (tx_ToAddress s) = decodeHex32 (tx_ToAddress t) \<and>
     tx_Amount s = tx_Amount t \<and> tx_Data s = tx_Data t \<and>
     (if tx_Type s = TxTransfer
      then sl (tx_FromPubKey s) = sl (tx_FromPubKey t) \<and> tx_Nonce s = tx_Nonce t \<and> tx_Fee s = tx_Fee t
      else True)"

lemma txSigningPreimageBinaryV1_inj:
  assumes "txSigningPreimageBinaryV1 s = Inr m" and "txSigningPreimageBinaryV1 t = Inr m"
  shows "same_signed_fields s t"
  using txSigningPreimageBinaryV1_type [OF assms(1)] txSigningPreimageBinaryV1_type [OF assms(2)] assms
  by (elim disjE)
    (auto simp: same_signed_fields_def txSigningPreimageBinaryV1_coinbase
      txSigningPreimageBinaryV1_transfer)

subsection \<open>Headers and proof of work\<close>

definition pow_meets :: "consensus_params \<Rightarrow> block \<Rightarrow> u64 \<Rightarrow> bool" where
  "pow_meets p b nonce \<longleftrightarrow>
     (case HeaderBytesForConsensus p b nonce of
        Inl _ \<Rightarrow> False | Inr header \<Rightarrow> big_SetBytes (sha256 header) < pow_target b)"

lemma rmap_length: "rmap f xs = Inr ys \<Longrightarrow> length ys = length xs"
  by (induction xs arbitrary: ys) (auto simp: rbind_Inr_iff)

lemma rmap_mem: "rmap f xs = Inr ys \<Longrightarrow> y \<in> set ys \<Longrightarrow> \<exists>x \<in> set xs. f x = Inr y"
  by (induction xs arbitrary: ys) (auto simp: rbind_Inr_iff)

lemma txSigningHashForConsensus_length:
  "txSigningHashForConsensus tx p h = Inr th \<Longrightarrow> length th = 32"
  by (auto simp: txSigningHashForConsensus_def txSigningHashBinaryV1_def signingHashLegacyJSON_def
      rbind_Inr_iff split: if_splits)

lemma header_error_nonce:
  "HeaderBytesForConsensus p b n = Inl e \<longleftrightarrow> HeaderBytesForConsensus p b m = Inl e"
  by (auto simp: HeaderBytesForConsensus_def blockHeaderPreimageBinaryV1_def rbind_def Let_def
      split: sum.splits)

text \<open>A header does not contain the block's own nonce field, hash or commitments.\<close>

lemma header_stable:
  assumes "HeaderBytesForConsensus p b n = Inr header" and "length h = 32"
  shows "HeaderBytesForConsensus p (b\<lparr>blk_Nonce := k, blk_Hash := Some h\<rparr>) n = Inr header"
  using assms
  by (auto simp: HeaderBytesForConsensus_def blockHeaderPreimageBinaryV1_def block_root_def
      MerkleRootV2ForConsensus_def TxRootLegacyForConsensus_def header_json_def rbind_def Let_def
      dest: decodeHex32_length split: sum.splits if_splits)

lemma header_ok_nonce:
  "HeaderBytesForConsensus p b n = Inr x \<Longrightarrow> \<exists>y. HeaderBytesForConsensus p b m = Inr y"
  by (metis header_error_nonce sum.exhaust sum.distinct(1))

lemma pow_loop_fails:
  assumes "HeaderBytesForConsensus p b n = Inl e"
  shows "pow_loop p b m = Some (Inl e)"
proof -
  have "HeaderBytesForConsensus p b m = Inl e"
    using assms header_error_nonce by blast
  then show ?thesis by (simp add: pow_loop.simps)
qed

lemma pow_loop_returns_only_if:
  "pow_loop p b n = Some r \<Longrightarrow> \<exists>k. pow_meets p b k \<or> (\<exists>e. HeaderBytesForConsensus p b k = Inl e)"
proof (erule pow_loop.raw_induct [rotated])
  fix loop p b nonce r
  assume "\<And>p b n y. loop p b n = Some y \<Longrightarrow>
      \<exists>k. pow_meets p b k \<or> (\<exists>e. HeaderBytesForConsensus p b k = Inl e)"
    and "(case HeaderBytesForConsensus p b nonce of Inl e \<Rightarrow> Some (Inl e)
      | Inr header \<Rightarrow>
          if big_SetBytes (sha256 header) < pow_target b then Some (Inr (nonce, sha256 header))
          else loop p b (nonce + 1)) = Some r"
  then show "\<exists>k. pow_meets p b k \<or> (\<exists>e. HeaderBytesForConsensus p b k = Inl e)"
    by (cases "pow_meets p b nonce", blast)
      (auto simp: pow_meets_def [of p b nonce] split: if_splits sum.splits)
qed

lemma pow_loop_skips:
  assumes "\<not> pow_meets p b n" and "HeaderBytesForConsensus p b m = Inr x"
  shows "pow_loop p b n = pow_loop p b (n + 1)"
  using header_ok_nonce [OF assms(2), of n] assms(1)
  by (auto simp: pow_meets_def pow_loop.simps [of p b n])

lemma pow_meets_loop:
  assumes "pow_meets p b n"
  obtains header where "HeaderBytesForConsensus p b n = Inr header"
    "pow_loop p b n = Some (Inr (n, sha256 header))"
  using assms by (auto simp: pow_meets_def pow_loop.simps [of p b n] split: sum.splits)

text \<open>From 0 the loop reaches the first nonce that meets the target.\<close>

lemma pow_loop_reaches:
  assumes "pow_meets p b n"
  shows "\<exists>k. pow_loop p b 0 = pow_loop p b k \<and> pow_meets p b k \<and> (\<forall>m<k. \<not> pow_meets p b m)"
proof -
  obtain x where x: "HeaderBytesForConsensus p b n = Inr x"
    using assms by (rule pow_meets_loop)
  define k where "k = (LEAST i. pow_meets p b (word_of_nat i))"
  have ex: "pow_meets p b (word_of_nat (unat n))" using assms by simp
  have k: "pow_meets p b (word_of_nat k)"
    unfolding k_def by (rule LeastI) (rule ex)
  have below: "\<not> pow_meets p b (word_of_nat i)" if "i < k" for i
    using that unfolding k_def by (rule not_less_Least)
  have "k \<le> unat n" unfolding k_def by (rule Least_le) (rule ex)
  then have "unat (word_of_nat k :: u64) = k"
    using unat_u64_less [of n] by (simp add: unsigned_of_nat take_bit_nat_eq_self_iff)
  then have "\<not> pow_meets p b m" if "m < word_of_nat k" for m
    using below [of "unat m"] that by (simp add: word_less_nat_alt)
  then have least: "\<forall>m < word_of_nat k. \<not> pow_meets p b m" by blast
  have "pow_loop p b (word_of_nat i) = pow_loop p b (word_of_nat k)" if "i \<le> k" for i
    using that
  proof (induction rule: inc_induct)
    case (step j)
    then show ?case
      using pow_loop_skips [OF below x, of j] by (simp add: add.commute)
  qed simp
  from this [of 0] k least show ?thesis by auto
qed


lemma pow_Run_Inr_iff:
  "pow_Run p b = Some (Inr (k, h)) \<longleftrightarrow>
   pow_meets p b k \<and> (\<forall>m<k. \<not> pow_meets p b m) \<and>
   (\<exists>header. HeaderBytesForConsensus p b k = Inr header \<and> h = sha256 header)" (is "?run \<longleftrightarrow> ?least")
proof
  assume run: ?run
  then have "\<exists>n. pow_meets p b n"
    using pow_loop_returns_only_if [of p b 0 "Inr (k, h)"] pow_loop_fails [of p b _ _ 0]
    by (auto simp: pow_Run_def)
  then obtain j where j: "pow_loop p b 0 = pow_loop p b j" "pow_meets p b j" "\<forall>m<j. \<not> pow_meets p b m"
    using pow_loop_reaches by blast
  from j(2) obtain header where "HeaderBytesForConsensus p b j = Inr header"
    "pow_loop p b j = Some (Inr (j, sha256 header))" by (rule pow_meets_loop)
  with run j show ?least by (simp add: pow_Run_def)
next
  assume least: ?least
  then obtain j where j: "pow_loop p b 0 = pow_loop p b j" "pow_meets p b j" "\<forall>m<j. \<not> pow_meets p b m"
    using pow_loop_reaches by blast
  with least have "j = k" using less_linear [of j k] by blast
  moreover obtain header where "HeaderBytesForConsensus p b k = Inr header"
    "pow_loop p b k = Some (Inr (k, sha256 header))"
    using least by (blast elim: pow_meets_loop)
  ultimately show ?run using j(1) least by (simp add: pow_Run_def)
qed

lemma pow_Run_None_iff:
  "pow_Run p b = None \<longleftrightarrow>
   (\<exists>header. HeaderBytesForConsensus p b 0 = Inr header) \<and> (\<forall>n. \<not> pow_meets p b n)" (is "_ \<longleftrightarrow> ?never")
proof
  assume none: "pow_Run p b = None"
  have "\<not> pow_meets p b n" for n
  proof
    assume "pow_meets p b n"
    then obtain j where "pow_loop p b 0 = pow_loop p b j" "pow_meets p b j"
      using pow_loop_reaches by blast
    moreover from this(2) obtain header where "pow_loop p b j = Some (Inr (j, sha256 header))"
      by (rule pow_meets_loop)
    ultimately show False using none by (simp add: pow_Run_def)
  qed
  moreover have "\<exists>header. HeaderBytesForConsensus p b 0 = Inr header"
    using none pow_loop_fails [of p b 0 _ 0] by (cases "HeaderBytesForConsensus p b 0") (auto simp: pow_Run_def)
  ultimately show ?never by blast
next
  assume never: ?never
  show "pow_Run p b = None"
  proof (rule ccontr)
    assume "pow_Run p b \<noteq> None"
    then obtain r where "pow_loop p b 0 = Some r" by (auto simp: pow_Run_def)
    from pow_loop_returns_only_if [OF this] never obtain n e where
      "HeaderBytesForConsensus p b n = Inl e" by blast
    with never show False using header_error_nonce [of p b n e 0] by simp
  qed
qed

lemma mined_block_valid:
  assumes "pow_Run p b = Some (Inr (k, h))"
  shows "pow_Validate p (b\<lparr>blk_Nonce := k, blk_Hash := Some h\<rparr>) = Inr True"
proof -
  obtain header where "HeaderBytesForConsensus p b k = Inr header" "h = sha256 header"
      "big_SetBytes (sha256 header) < pow_target b"
    using assms by (auto simp: pow_Run_Inr_iff pow_meets_def)
  then show ?thesis
    using header_stable [of p b k header h k] by (simp add: pow_Validate_def pow_target_def)
qed

text \<open>A target of difficulty 0 is met by every digest.\<close>

lemma big_SetBytes_bound: "big_SetBytes bs < 256 ^ length bs"
proof (induction bs rule: rev_induct)
  case (snoc x xs)
  then show ?case using unat_byte_less [of x] by (simp add: big_SetBytes_def)
qed (simp add: big_SetBytes_def)

lemma pow_meets_zero_bits:
  assumes "blk_DifficultyBits b = 0" and "HeaderBytesForConsensus p b n = Inr header"
  shows "pow_meets p b n"
  using assms big_SetBytes_bound [of "sha256 header"] power_mult [of "2 :: nat" 8 32]
  by (simp add: pow_meets_def pow_target_def)


subsection \<open>The legacy forms determine their fields\<close>

lemma json_u_inj [simp]: "json_u64 x = json_u64 y \<longleftrightarrow> x = y" "json_u32 x' = json_u32 y' \<longleftrightarrow> x' = y'"
  by (simp_all add: json_u64_def json_u32_def word_unat_eq_iff)

lemma json_u_token [simp]: "json_token (json_u64 x)" "json_token (json_u32 x')"
  by (auto simp: json_u64_def json_u32_def)

lemma header_json_inj:
  assumes "header_json name b root n = header_json name' b' root' n'"
    and "ascii name" "ascii name'" "ascii (blk_MinerAddress b)" "ascii (blk_MinerAddress b')"
  shows "blk_Version b = blk_Version b' \<and> blk_Height b = blk_Height b' \<and>
    blk_TimestampUnix b = blk_TimestampUnix b' \<and> sl (blk_PrevHash b) = sl (blk_PrevHash b') \<and>
    sl root = sl root' \<and> blk_DifficultyBits b = blk_DifficultyBits b' \<and>
    blk_MinerAddress b = blk_MinerAddress b' \<and> n = n'"
  using assms json_object_inj [OF assms(1) [unfolded header_json_def]]
  by (simp add: json_string_eq base64_inj)

definition signing_ascii :: "transaction \<Rightarrow> bool" where
  "signing_ascii t \<longleftrightarrow> ascii (tx_Type t) \<and> ascii (tx_ToAddress t) \<and> ascii (tx_Data t)"

lemma signingView_inj:
  assumes "signingView s f = signingView t g"
    and "signing_ascii s" "ascii f" "signing_ascii t" "ascii g"
  shows "tx_Type s = tx_Type t \<and> tx_ChainID s = tx_ChainID t \<and> f = g \<and>
    tx_ToAddress s = tx_ToAddress t \<and> tx_Amount s = tx_Amount t \<and> tx_Fee s = tx_Fee t \<and>
    tx_Nonce s = tx_Nonce t \<and> tx_Data s = tx_Data t"
proof -
  note signingView_def [simp]
  have "ascii ''fromAddr''" "ascii ''nonce''" by simp_all
  with assms(2-) have "omit_when (f = []) ''fromAddr'' (json_string f) @
      [(''toAddress'', json_string (tx_ToAddress s)), (''amount'', json_u64 (tx_Amount s)),
       (''fee'', json_u64 (tx_Fee s))] @
      omit_when (tx_Nonce s = 0) ''nonce'' (json_u64 (tx_Nonce s)) @
      omit_when (tx_Data s = []) ''data'' (json_string (tx_Data s)) =
    omit_when (g = []) ''fromAddr'' (json_string g) @
      [(''toAddress'', json_string (tx_ToAddress t)), (''amount'', json_u64 (tx_Amount t)),
       (''fee'', json_u64 (tx_Fee t))] @
      omit_when (tx_Nonce t = 0) ''nonce'' (json_u64 (tx_Nonce t)) @
      omit_when (tx_Data t = []) ''data'' (json_string (tx_Data t)) \<and>
    tx_Type s = tx_Type t \<and> tx_ChainID s = tx_ChainID t"
    using json_object_inj [OF assms(1) [unfolded signingView_def]]
    by (simp add: signing_ascii_def json_string_eq)
  with assms(2-) show ?thesis
    by (auto simp: omit_when_def signing_ascii_def json_string_eq split: if_splits)
qed

lemma signingHashLegacyJSON_eq:
  "signingHashLegacyJSON t = Inr h \<Longrightarrow>
   h = sha256 (bytes_of_string (signingView t (FromAddressSafe t))) \<and>
   (tx_Type t = TxTransfer \<longrightarrow> FromAddressSafe t = GenerateAddress (sl (tx_FromPubKey t)))"
  by (auto simp: signingHashLegacyJSON_def FromAddressSafe_def FromAddress_def split: if_splits)

text \<open>The messages hashed for a legacy transaction id: the key (for the address) and the view.\<close>

definition signing_messages :: "transaction \<Rightarrow> bytes list" where
  "signing_messages t =
     [sl (tx_FromPubKey t), bytes_of_string (signingView t (FromAddressSafe t))]"

lemma ascii_GenerateAddress [simp]: "ascii (GenerateAddress pk)"
  by (simp add: GenerateAddress_eq del: hex_encode.simps append_Cons)

lemma ascii_FromAddressSafe [simp]: "ascii (FromAddressSafe t)"
  by (simp add: FromAddressSafe_def FromAddress_def)

lemma GenerateAddress_binds:
  "GenerateAddress pk = GenerateAddress pk' \<Longrightarrow> pk = pk' \<or> collides sha256 [pk] [pk']"
  by (auto simp: GenerateAddress_eq collides_def)

lemma ValidateAddress_ascii: "ValidateAddress a = Inr () \<Longrightarrow> ascii a"
proof -
  assume "ValidateAddress a = Inr ()"
  then have "take 3 a = ''NEO''" "\<exists>b. hex_decode (drop 3 a) = (b, True)"
    by (auto simp: ValidateAddress_iff)
  then have "ascii (take 3 a @ drop 3 a)"
    unfolding ascii_append by (auto dest: ascii_hex_decode)
  then show ?thesis by simp
qed

subsection \<open>What a block hash determines\<close>

definition header_prev :: "block \<Rightarrow> bytes" where
  "header_prev b = (if length (sl (blk_PrevHash b)) = 32 then sl (blk_PrevHash b) else replicate 32 0)"

definition same_header_fields :: "block \<Rightarrow> block \<Rightarrow> bool" where
  "same_header_fields b b' \<longleftrightarrow>
     blk_Version b = blk_Version b' \<and> blk_Height b = blk_Height b' \<and>
     blk_TimestampUnix b = blk_TimestampUnix b' \<and> header_prev b = header_prev b' \<and>
     blk_DifficultyBits b = blk_DifficultyBits b' \<and>
     decodeHex32 (blk_MinerAddress b) = decodeHex32 (blk_MinerAddress b')"

text \<open>Timestamps are 64-bit; miner addresses are hexadecimal or NEO addresses.\<close>

definition header_ok :: "block \<Rightarrow> bool" where
  "header_ok b \<longleftrightarrow> - (2 ^ 63) \<le> blk_TimestampUnix b \<and> blk_TimestampUnix b < 2 ^ 63 \<and>
     ascii (blk_MinerAddress b)"

definition root32 :: "slice \<Rightarrow> bytes" where
  "root32 r = copy_at 0 (sl r) (replicate 32 0)"

lemma length_root32 [simp]: "length (root32 r) = 32"
  by (auto simp: root32_def copy_at_def)

lemma binary_header_Inr:
  "blockHeaderPreimageBinaryV1 b n p = Inr m \<Longrightarrow>
   \<exists>miner r. decodeHex32 (blk_MinerAddress b) = Inr miner \<and> length miner = 32 \<and> block_root b p = Inr r \<and>
     m = [1] @ le32 (blk_Version b) @ le64 (blk_Height b) @ le_i64 (blk_TimestampUnix b) @
       header_prev b @ root32 r @ le32 (blk_DifficultyBits b) @ miner @ le64 n"
  by (auto simp: blockHeaderPreimageBinaryV1_def binaryEncodingVersionV1_def header_prev_def root32_def
      rbind_Inr_iff Let_def dest: decodeHex32_length split: if_splits sum.splits)

lemma legacy_header_Inr:
  "\<not> BinaryEncodingActive p (blk_Height b) \<Longrightarrow> HeaderBytesForConsensus p b n = Inr m \<Longrightarrow>
   \<exists>name r. ascii name \<and> block_root b p = Inr r \<and> m = bytes_of_string (header_json name b r n)"
  by (rule exI [of _ "if blk_Version b = 2 then ''merkleRootHex'' else ''txRootHex''"])
    (auto simp: HeaderBytesForConsensus_def block_root_def rbind_Inr_iff split: if_splits)

lemma bytes_of_brace: "bytes_of_string (header_json name b r n) = 123 # bytes_of_string (tl (header_json name b r n))"
  by (simp add: header_json_def json_object_def bytes_of_string_def)

lemma header_bytes_bind:
  assumes "HeaderBytesForConsensus p b n = Inr m" "HeaderBytesForConsensus p b' n' = Inr m"
    and "header_ok b" "header_ok b'"
  shows "same_header_fields b b' \<and> n = n' \<and>
    (\<exists>r r'. block_root b p = Inr r \<and> block_root b' p = Inr r' \<and> root32 r = root32 r')"
proof -
  let ?A = "BinaryEncodingActive p (blk_Height b)" and ?A' = "BinaryEncodingActive p (blk_Height b')"
  have first: "hd m = (if BinaryEncodingActive p (blk_Height c) then 1 else 123)"
    if "HeaderBytesForConsensus p c k = Inr m" for c k
  proof (cases "BinaryEncodingActive p (blk_Height c)")
    case True
    then show ?thesis using that by (auto simp: HeaderBytesForConsensus_def dest!: binary_header_Inr)
  next
    case False
    from legacy_header_Inr [OF False that] show ?thesis using False by (auto simp: bytes_of_brace)
  qed
  from first [OF assms(1)] first [OF assms(2)] have same: "?A = ?A'" by (auto split: if_splits)
  show ?thesis
  proof (cases ?A)
    case True
    with same assms(1,2) obtain miner r miner' r' where
      "decodeHex32 (blk_MinerAddress b) = Inr miner" "length miner = 32" "block_root b p = Inr r"
      "decodeHex32 (blk_MinerAddress b') = Inr miner'" "length miner' = 32" "block_root b' p = Inr r'"
      "le32 (blk_Version b) @ le64 (blk_Height b) @ le_i64 (blk_TimestampUnix b) @
         header_prev b @ root32 r @ le32 (blk_DifficultyBits b) @ miner @ le64 n =
       le32 (blk_Version b') @ le64 (blk_Height b') @ le_i64 (blk_TimestampUnix b') @
         header_prev b' @ root32 r' @ le32 (blk_DifficultyBits b') @ miner' @ le64 n'"
      by (fastforce simp: HeaderBytesForConsensus_def dest!: binary_header_Inr)
    moreover have "length (header_prev c) = 32" for c by (simp add: header_prev_def)
    ultimately show ?thesis
      using assms(3,4) le_i64_inj [of "blk_TimestampUnix b" "blk_TimestampUnix b'"]
      by (simp add: same_header_fields_def header_ok_def)
  next
    case False
    then obtain name name' r r' where "ascii name" "ascii name'" "block_root b p = Inr r"
      "block_root b' p = Inr r'" "header_json name b r n = header_json name' b' r' n'"
      using legacy_header_Inr [OF _ assms(1)] legacy_header_Inr [OF _ assms(2)] same by auto
    with header_json_inj [OF this(5)] assms(3,4) show ?thesis
      by (simp add: same_header_fields_def header_ok_def header_prev_def root32_def)
  qed
qed

text \<open>The transaction ids a root is computed from, and the messages hashed for it.\<close>

definition block_txids :: "block \<Rightarrow> consensus_params \<Rightarrow> bytes list res" where
  "block_txids b p = rmap (\<lambda>tx. txSigningHashForConsensus tx p (blk_Height b)) (blk_Transactions b)"

definition root_messages :: "block \<Rightarrow> consensus_params \<Rightarrow> bytes list" where
  "root_messages b p =
     (case block_txids b p of Inl _ \<Rightarrow> []
      | Inr ths \<Rightarrow> if blk_Version b = 2 then tree_messages ths else [concat ths])"

lemma concat_chunks_inj:
  "concat xs = concat ys \<Longrightarrow> length xs = length ys \<Longrightarrow> \<forall>x \<in> set xs \<union> set ys. length x = n \<Longrightarrow> xs = ys"
  by (induction xs ys rule: list_induct2') auto

lemma block_root_binds:
  assumes "block_root b p = Inr r" "block_root b' p = Inr r'" "root32 r = root32 r'"
    and "blk_Version b = blk_Version b'" "length (blk_Transactions b) = length (blk_Transactions b')"
  shows "block_txids b p = block_txids b' p \<or> collides sha256 (root_messages b p) (root_messages b' p)"
proof -
  obtain ths ths' where t: "block_txids b p = Inr ths" "block_txids b' p = Inr ths'"
    using assms(1,2) by (auto simp: block_root_def MerkleRootV2ForConsensus_def
        TxRootLegacyForConsensus_def block_txids_def rbind_Inr_iff split: if_splits)
  have len: "length ths = length ths'"
    using t assms(5) by (auto simp: block_txids_def dest!: rmap_length)
  have all32: "\<forall>x \<in> set ths \<union> set ths'. length x = 32"
    using t by (auto simp: block_txids_def dest!: rmap_mem txSigningHashForConsensus_length)
  show ?thesis
  proof (cases "blk_Version b = 2")
    case True
    then have r: "r = MerkleRoot ths" "r' = MerkleRoot ths'"
      using assms t by (auto simp: block_root_def MerkleRootV2ForConsensus_def block_txids_def rbind_Inr_iff)
    show ?thesis
    proof (cases "ths = []")
      case False
      moreover from this len have "ths' \<noteq> []" by auto
      ultimately obtain root root' where "MerkleRoot ths = Some root" "MerkleRoot ths' = Some root'"
          "length root = 32" "length root' = 32"
        using len all32 MerkleRoot_total [of ths] MerkleRoot_total [of ths'] by auto
      moreover from this r assms(3) have "root = root'" by (simp add: root32_def)
      ultimately show ?thesis
        using merkle_binds [of ths root ths'] len t True assms(4) by (auto simp: root_messages_def)
    qed (use len t in simp)
  next
    case False
    then have "sha256 (concat ths) = sha256 (concat ths')"
      using assms t by (auto simp: block_root_def TxRootLegacyForConsensus_def block_txids_def
          rbind_Inr_iff root32_def)
    then show ?thesis
      using concat_chunks_inj [OF _ len all32] t False assms(4)
      by (auto simp: root_messages_def collides_def)
  qed
qed

subsection \<open>Properties\<close>

text \<open>C8. \<^verbatim>\<open>ProofOfWork.Run\<close>: the search returns a nonce exactly when some nonce meets the
  target, and then it returns the first one with its header hash; it runs forever exactly
  when the header encodes but no 64-bit nonce meets the target.\<close>

theorem pow_Run_spec:
  "(pow_Run p b = Some (Inr (k, h)) \<longleftrightarrow>
     pow_meets p b k \<and> (\<forall>m<k. \<not> pow_meets p b m) \<and>
     (\<exists>header. HeaderBytesForConsensus p b k = Inr header \<and> h = sha256 header)) \<and>
   (pow_Run p b = None \<longleftrightarrow>
     (\<exists>header. HeaderBytesForConsensus p b 0 = Inr header) \<and> (\<forall>n. \<not> pow_meets p b n))"
  using pow_Run_Inr_iff pow_Run_None_iff by blast

text \<open>A mined block passes validation: with the nonce and hash that \<^verbatim>\<open>Run\<close> returned, whatever
  the block's nonce and hash were before, \<^verbatim>\<open>Validate\<close> accepts it, and its stored hash is the
  hash \<^verbatim>\<open>ensureBlockHash\<close> recomputes.\<close>

theorem pow_Run_validates:
  assumes "pow_Run p b = Some (Inr (k, h))"
  shows "pow_Validate p (b\<lparr>blk_Nonce := k, blk_Hash := Some h\<rparr>) = Inr True \<and>
    ensureBlockHash (b\<lparr>blk_Nonce := k, blk_Hash := Some h\<rparr>) p =
      Inr (h, b\<lparr>blk_Nonce := k, blk_Hash := Some h\<rparr>)"
proof -
  obtain header where "HeaderBytesForConsensus p b k = Inr header" "h = sha256 header"
    using assms by (auto simp: pow_Run_Inr_iff)
  then show ?thesis
    using mined_block_valid [OF assms] header_stable [of p b k header h k]
    by (simp add: ensureBlockHash_def)
qed

text \<open>C34. When the binary encoding is active no transfer passes verification, because the
  recipient must be a NEO address for the address check and 64 hexadecimal digits for the
  signing preimage; and no block mined to a NEO address has a header.\<close>

theorem binary_encoding_unusable:
  assumes "BinaryEncodingActive p (blk_Height b)" and "tx_Type t = TxTransfer"
    and "ValidateAddress (blk_MinerAddress b) = Inr ()"
  shows "VerifyForConsensus ed t p (blk_Height b) \<noteq> Inr () \<and>
    HeaderBytesForConsensus p b n \<noteq> Inr m"
proof -
  have "VerifyForConsensus ed t p (blk_Height b) \<noteq> Inr ()"
  proof
    assume "VerifyForConsensus ed t p (blk_Height b) = Inr ()"
    then obtain h where "ValidateAddress (tx_ToAddress t) = Inr ()" "txSigningPreimageBinaryV1 t = Inr h"
      using assms(1,2) by (auto simp: VerifyForConsensus_def verify_transfer_def
          txSigningHashForConsensus_def txSigningHashBinaryV1_def rbind_Inr_iff split: if_splits)
    then show False
      using assms(2) decodeHex32_address by (auto simp: txSigningPreimageBinaryV1_transfer)
  qed
  moreover have "HeaderBytesForConsensus p b n \<noteq> Inr m"
    using assms(1) decodeHex32_address [OF assms(3)]
    by (auto simp: HeaderBytesForConsensus_def dest!: binary_header_Inr)
  ultimately show ?thesis ..
qed

definition demo_tx :: transaction where
  "demo_tx = \<lparr>tx_Type = TxTransfer, tx_ChainID = 3, tx_FromPubKey = Some (replicate 32 1),
     tx_ToAddress = GenerateAddress (replicate 32 2), tx_Amount = 5, tx_Fee = 1, tx_Nonce = 1,
     tx_Data = [], tx_Signature = Some (replicate 64 0)\<rparr>"

definition demo_block :: block where
  "demo_block = \<lparr>blk_Version = 1, blk_Height = 7, blk_TimestampUnix = 1700000000, blk_PrevHash = None,
     blk_Nonce = 0, blk_DifficultyBits = 0, blk_MinerAddress = GenerateAddress (replicate 32 3),
     blk_Transactions = [], blk_Hash = None, blk_StateRoot = None, blk_UTXORoot = None\<rparr>"

theorem binary_encoding_unusable_witness:
  "VerifyForConsensus (\<lambda>_ _ _. True) demo_tx mainnet_params 7 \<noteq> Inr () \<and>
   HeaderBytesForConsensus mainnet_params demo_block 0 \<noteq> Inr []"
  using binary_encoding_unusable [of mainnet_params demo_block demo_tx "\<lambda>_ _ _. True" 0 "[]"]
  by (simp add: BinaryEncodingActive_def mainnet_params_def demo_block_def demo_tx_def)

lemma demo_block_header:
  "HeaderBytesForConsensus smoke_params demo_block n =
     Inr (bytes_of_string (header_json ''txRootHex'' demo_block (Some (sha256 [])) n))"
  by (simp add: HeaderBytesForConsensus_def BinaryEncodingActive_def smoke_params_def
      TxRootLegacyForConsensus_def demo_block_def)

lemma demo_block_run:
  "pow_Run smoke_params demo_block =
     Some (Inr (0, sha256 (bytes_of_string (header_json ''txRootHex'' demo_block (Some (sha256 [])) 0))))"
proof -
  have "blk_DifficultyBits demo_block = 0" by (simp add: demo_block_def)
  from pow_meets_zero_bits [OF this demo_block_header] show ?thesis
    by (simp add: pow_Run_Inr_iff demo_block_header)
qed

theorem pow_Run_spec_witness:
  "pow_meets smoke_params demo_block 0 \<and> pow_Run smoke_params demo_block \<noteq> None"
proof -
  let ?h = "sha256 (bytes_of_string (header_json ''txRootHex'' demo_block (Some (sha256 [])) 0))"
  show ?thesis
    using pow_Run_spec [of smoke_params demo_block 0 ?h] demo_block_run by simp
qed

theorem pow_Run_validates_witness:
  "\<exists>h. pow_Validate smoke_params (demo_block\<lparr>blk_Nonce := 0, blk_Hash := Some h\<rparr>) = Inr True"
  using pow_Run_validates [OF demo_block_run] by blast

text \<open>Legacy transaction ids: two transactions with the same signing hash agree in every field
  but the signature, or the messages hashed for them (key and JSON view) contain a SHA-256
  collision.  Strings are ASCII, as addresses are; other strings are not preserved by the JSON
  encoder.\<close>

theorem legacy_txid_binds:
  assumes "signingHashLegacyJSON s = Inr h" and "signingHashLegacyJSON t = Inr h"
    and "signing_ascii s" and "signing_ascii t"
  shows "tx_Type s = tx_Type t \<and> tx_ChainID s = tx_ChainID t \<and> tx_ToAddress s = tx_ToAddress t \<and>
      tx_Amount s = tx_Amount t \<and> tx_Fee s = tx_Fee t \<and> tx_Nonce s = tx_Nonce t \<and>
      tx_Data s = tx_Data t \<and>
      (if tx_Type s = TxTransfer then sl (tx_FromPubKey s) = sl (tx_FromPubKey t) else True)
    \<or> collides sha256 (signing_messages s) (signing_messages t)"
proof (cases "signingView s (FromAddressSafe s) = signingView t (FromAddressSafe t)")
  case True
  note fields = signingView_inj [OF True assms(3) ascii_FromAddressSafe assms(4) ascii_FromAddressSafe]
  show ?thesis
  proof (cases "tx_Type s = TxTransfer")
    case True
    with fields have "GenerateAddress (sl (tx_FromPubKey s)) = GenerateAddress (sl (tx_FromPubKey t))"
      using signingHashLegacyJSON_eq [OF assms(1)] signingHashLegacyJSON_eq [OF assms(2)] by simp
    from GenerateAddress_binds [OF this] fields show ?thesis
      by (auto simp: signing_messages_def collides_def)
  qed (use fields in auto)
next
  case False
  then show ?thesis
    using signingHashLegacyJSON_eq [OF assms(1)] signingHashLegacyJSON_eq [OF assms(2)]
    by (auto simp: signing_messages_def collides_def)
qed

theorem legacy_txid_binds_witness:
  "tx_Signature demo_tx \<noteq> tx_Signature (demo_tx\<lparr>tx_Signature := None\<rparr>) \<and>
   (tx_Amount demo_tx = tx_Amount (demo_tx\<lparr>tx_Signature := None\<rparr>) \<or>
    collides sha256 (signing_messages demo_tx) (signing_messages (demo_tx\<lparr>tx_Signature := None\<rparr>)))"
proof -
  have "signingHashLegacyJSON demo_tx = Inr (sha256 (bytes_of_string (signingView demo_tx (FromAddressSafe demo_tx))))"
    "signingHashLegacyJSON (demo_tx\<lparr>tx_Signature := None\<rparr>) =
       Inr (sha256 (bytes_of_string (signingView demo_tx (FromAddressSafe demo_tx))))"
    by (simp_all add: signingHashLegacyJSON_def demo_tx_def FromAddressSafe_def FromAddress_def signingView_def)
  moreover have "signing_ascii demo_tx" "signing_ascii (demo_tx\<lparr>tx_Signature := None\<rparr>)"
    by (simp_all add: signing_ascii_def demo_tx_def TxTransfer_def)
  ultimately show ?thesis
    using legacy_txid_binds [of demo_tx _ "demo_tx\<lparr>tx_Signature := None\<rparr>"]
    by (auto simp: demo_tx_def)
qed

text \<open>Binary transaction ids: two transactions with the same binary signing hash agree in every
  signed field (recipients up to the case of their hexadecimal digits), or their preimages are
  a SHA-256 collision.\<close>

theorem binary_txid_binds:
  assumes "txSigningHashBinaryV1 s = Inr h" and "txSigningHashBinaryV1 t = Inr h"
    and "txSigningPreimageBinaryV1 s = Inr m" and "txSigningPreimageBinaryV1 t = Inr m'"
  shows "same_signed_fields s t \<or> collides sha256 [m] [m']"
  using assms txSigningPreimageBinaryV1_inj [of s m t]
  by (auto simp: txSigningHashBinaryV1_def collides_def)

theorem binary_txid_binds_witness:
  "\<exists>m. txSigningPreimageBinaryV1 (demo_tx\<lparr>tx_ToAddress := hex_encode (replicate 32 2)\<rparr>) = Inr m \<and>
     (same_signed_fields (demo_tx\<lparr>tx_ToAddress := hex_encode (replicate 32 2)\<rparr>)
        (demo_tx\<lparr>tx_ToAddress := hex_encode (replicate 32 2), tx_Signature := None\<rparr>)
      \<or> collides sha256 [m] [m])"
proof -
  let ?s = "demo_tx\<lparr>tx_ToAddress := hex_encode (replicate 32 2)\<rparr>"
    and ?t = "demo_tx\<lparr>tx_ToAddress := hex_encode (replicate 32 2), tx_Signature := None\<rparr>"
  have hex: "hex_decode (hex_encode (replicate 32 (2 :: u8))) = (replicate 32 2, True)"
    by (rule hex_decode_encode)
  obtain m where "txSigningPreimageBinaryV1 ?s = Inr m"
    by (auto simp: txSigningPreimageBinaryV1_def demo_tx_def decodeHex32_def Let_def hex
        simp del: hex_decode_encode)
  moreover from this have "txSigningPreimageBinaryV1 ?t = Inr m"
    by (simp add: txSigningPreimageBinaryV1_signature [where t = ?s, simplified])
  ultimately show ?thesis
    using binary_txid_binds [of ?s "sha256 m" ?t m m] by (auto simp: txSigningHashBinaryV1_def)
qed



end
