(* ===== verification/Genesis.thy ===== *)
theory Genesis
  imports Encoding
begin

text \<open>
  The rest of \<^verbatim>\<open>internal/blockchain/consensus.go\<close>: parameters from the environment, the
  rules hash, and the genesis configuration and block.  The environment is a function from
  names to values (empty when unset); file contents and JSON decoding are arguments.
\<close>

subsection \<open>Reading environment variables\<close>

text \<open>\<^verbatim>\<open>strings.TrimSpace\<close>: the UTF-8 encodings of the Unicode spaces.\<close>

definition spaces :: "string list" where
  "spaces = [[CHR 0x09], [CHR 0x0A], [CHR 0x0B], [CHR 0x0C], [CHR 0x0D], [CHR 0x20],
     [CHR 0xC2, CHR 0x85], [CHR 0xC2, CHR 0xA0], [CHR 0xE1, CHR 0x9A, CHR 0x80]] @
     map (\<lambda>n. [CHR 0xE2, CHR 0x80, char_of (n :: nat)]) ([128..<139] @ [168, 169, 175]) @
     [[CHR 0xE2, CHR 0x81, CHR 0x9F], [CHR 0xE3, CHR 0x80, CHR 0x80]]"

definition leading :: "string list \<Rightarrow> string \<Rightarrow> nat" where
  "leading ws s = (case filter (\<lambda>w. take (length w) s = w \<and> w \<noteq> []) ws of [] \<Rightarrow> 0 | w # _ \<Rightarrow> length w)"

lemma leading_pos: "0 < leading ws s \<Longrightarrow> 0 < length s"
  by (auto simp: leading_def dest: filter_eq_ConsD split: list.splits)

function trim_left :: "string list \<Rightarrow> string \<Rightarrow> string" where
  "trim_left ws s = (let k = leading ws s in if k = 0 then s else trim_left ws (drop k s))"
  by pat_completeness auto
termination
  by (relation "measure (\<lambda>(ws, s). length s)") (auto intro: diff_less dest: leading_pos)

declare trim_left.simps [simp del]

definition TrimSpace :: "string \<Rightarrow> string" where
  "TrimSpace s = rev (trim_left (map rev spaces) (rev (trim_left spaces s)))"

definition ToLower_ascii :: "string \<Rightarrow> string" where
  "ToLower_ascii s = map (\<lambda>c. let n = of_char c :: nat in if 65 \<le> n \<and> n \<le> 90 then char_of (n + 32) else c) s"

text \<open>\<^verbatim>\<open>strconv.ParseUint(s, 10, w)\<close>, \<^verbatim>\<open>strconv.ParseInt(s, 10, 64)\<close> and \<^verbatim>\<open>strconv.Atoi\<close>.\<close>

definition ParseUint :: "nat \<Rightarrow> string \<Rightarrow> nat option" where
  "ParseUint w s =
     (if s \<noteq> [] \<and> list_all is_digit s \<and> dec_val s < 2 ^ w then Some (dec_val s) else None)"

definition ParseInt :: "string \<Rightarrow> int option" where
  "ParseInt s =
     (case s of [] \<Rightarrow> None
      | c # r \<Rightarrow>
        (let neg = (c = CHR ''-''); d = (if c = CHR ''-'' \<or> c = CHR ''+'' then r else s) in
         if d \<noteq> [] \<and> list_all is_digit d \<and> dec_val d < (if neg then 2 ^ 63 + 1 else 2 ^ 63)
         then Some (if neg then - int (dec_val d) else int (dec_val d)) else None))"

type_synonym env = "string \<Rightarrow> string"

text \<open>\<^verbatim>\<open>strings.ToLower\<close> on the compared words only concerns ASCII letters; the one other
  character that lowers to an ASCII letter (U+212A) is in none of them.\<close>

definition envBool :: "env \<Rightarrow> string \<Rightarrow> bool \<Rightarrow> bool" where
  "envBool env name def =
     (let v = TrimSpace (env name) in
      if v = [] then def
      else ToLower_ascii v \<in> {''1'', ''true'', ''yes'', ''y''})"

definition envInt :: "env \<Rightarrow> string \<Rightarrow> int \<Rightarrow> int" where
  "envInt env name def =
     (let v = TrimSpace (env name) in
      if v = [] then def else case ParseInt v of None \<Rightarrow> def | Some n \<Rightarrow> n)"

definition envUint32 :: "env \<Rightarrow> string \<Rightarrow> u32 \<Rightarrow> u32" where
  "envUint32 env name def =
     (let v = TrimSpace (env name) in
      if v = [] then def else case ParseUint 32 v of None \<Rightarrow> def | Some n \<Rightarrow> word_of_nat n)"

definition envUint64 :: "env \<Rightarrow> string \<Rightarrow> u64 \<Rightarrow> u64" where
  "envUint64 env name def =
     (let v = TrimSpace (env name) in
      if v = [] then def else case ParseUint 64 v of None \<Rightarrow> def | Some n \<Rightarrow> word_of_nat n)"

definition envInt64 :: "env \<Rightarrow> string \<Rightarrow> int \<Rightarrow> int" where
  "envInt64 env name def =
     (let v = TrimSpace (env name) in
      if v = [] then def else case ParseInt v of None \<Rightarrow> def | Some n \<Rightarrow> n)"

definition envDurationMS :: "env \<Rightarrow> string \<Rightarrow> int \<Rightarrow> int" where
  "envDurationMS env name def =
     (let v = TrimSpace (env name) in
      if v = [] then def
      else case ParseInt v of None \<Rightarrow> def
        | Some ms \<Rightarrow> if ms \<le> 0 then def else i64 (ms * 1000000))"

definition defaultDifficultyBits :: u32 where
  "defaultDifficultyBits = 18"

text \<open>The repairs at the end of \<^verbatim>\<open>defaultConsensusParamsFromEnv\<close>, in their order.\<close>

definition adjust :: "('a \<Rightarrow> bool) \<times> ('a \<Rightarrow> 'a) \<Rightarrow> 'a \<Rightarrow> 'a" where
  "adjust cu p = (if fst cu p then snd cu p else p)"

definition repairLimits :: "consensus_params \<Rightarrow> consensus_params" where
  "repairLimits = fold adjust
     [(\<lambda>p. cp_TargetBlockTime p \<le> 0, \<lambda>p. p\<lparr>cp_TargetBlockTime := 15 * time_Second\<rparr>),
      (\<lambda>p. cp_DifficultyWindow p \<le> 0, \<lambda>p. p\<lparr>cp_DifficultyWindow := 20\<rparr>),
      (\<lambda>p. cp_DifficultyMaxStep p = 0, \<lambda>p. p\<lparr>cp_DifficultyMaxStep := 1\<rparr>),
      (\<lambda>p. cp_MinDifficultyBits p = 0, \<lambda>p. p\<lparr>cp_MinDifficultyBits := 1\<rparr>),
      (\<lambda>p. cp_MaxDifficultyBits p = 0, \<lambda>p. p\<lparr>cp_MaxDifficultyBits := 255\<rparr>),
      (\<lambda>p. maxDifficultyBits < cp_MaxDifficultyBits p, \<lambda>p. p\<lparr>cp_MaxDifficultyBits := maxDifficultyBits\<rparr>),
      (\<lambda>p. cp_MaxDifficultyBits p < cp_MinDifficultyBits p,
         \<lambda>p. p\<lparr>cp_MinDifficultyBits := cp_MaxDifficultyBits p\<rparr>)]"

definition repairRest :: "consensus_params \<Rightarrow> consensus_params" where
  "repairRest = fold adjust
     [(\<lambda>p. cp_GenesisDifficultyBits p < cp_MinDifficultyBits p,
         \<lambda>p. p\<lparr>cp_GenesisDifficultyBits := cp_MinDifficultyBits p\<rparr>),
      (\<lambda>p. cp_MaxDifficultyBits p < cp_GenesisDifficultyBits p,
         \<lambda>p. p\<lparr>cp_GenesisDifficultyBits := cp_MaxDifficultyBits p\<rparr>),
      (\<lambda>p. cp_MedianTimePastWindow p \<le> 0, \<lambda>p. p\<lparr>cp_MedianTimePastWindow := 11\<rparr>),
      (\<lambda>p. cp_MaxTimeDrift p \<le> 0, \<lambda>p. p\<lparr>cp_MaxTimeDrift := 2 * 60 * 60\<rparr>),
      (\<lambda>p. cp_MaxBlockSize p = 0, \<lambda>p. p\<lparr>cp_MaxBlockSize := 1000000\<rparr>)]"

definition repairParams :: "consensus_params \<Rightarrow> consensus_params" where
  "repairParams p = repairRest (repairLimits p)"

definition defaultConsensusParamsFromEnv :: "env \<Rightarrow> consensus_params" where
  "defaultConsensusParamsFromEnv env = repairParams \<lparr>
     cp_DifficultyEnable = envBool env ''DIFFICULTY_ENABLE'' False,
     cp_TargetBlockTime = envDurationMS env ''DIFFICULTY_TARGET_MS'' (15 * time_Second),
     cp_DifficultyWindow = envInt env ''DIFFICULTY_WINDOW'' 20,
     cp_DifficultyMaxStep = envUint32 env ''DIFFICULTY_MAX_STEP'' 1,
     cp_MinDifficultyBits = envUint32 env ''DIFFICULTY_MIN_BITS'' 1,
     cp_MaxDifficultyBits = envUint32 env ''DIFFICULTY_MAX_BITS'' 255,
     cp_GenesisDifficultyBits = envUint32 env ''GENESIS_DIFFICULTY_BITS'' defaultDifficultyBits,
     cp_MedianTimePastWindow = envInt env ''MTP_WINDOW'' 11,
     cp_MaxTimeDrift = envInt64 env ''MAX_TIME_DRIFT'' (envInt64 env ''MAX_FUTURE_DRIFT_SEC'' (2 * 60 * 60)),
     cp_MaxBlockSize = envUint64 env ''MAX_BLOCK_SIZE'' 1000000,
     cp_MerkleEnable = envBool env ''MERKLE_ENABLE'' False,
     cp_MerkleActivationHeight = envUint64 env ''MERKLE_ACTIVATION_HEIGHT'' 0,
     cp_BinaryEncodingEnable = envBool env ''BINARY_ENCODING_ENABLE'' False,
     cp_BinaryEncodingActivationHeight = envUint64 env ''BINARY_ENCODING_ACTIVATION_HEIGHT'' 0,
     cp_MonetaryPolicy = zero_policy\<rparr>"

definition consensusEnvOverridesSet :: "env \<Rightarrow> bool" where
  "consensusEnvOverridesSet env \<longleftrightarrow> list_ex (\<lambda>name. env name \<noteq> [])
     [''DIFFICULTY_ENABLE'', ''DIFFICULTY_TARGET_MS'', ''DIFFICULTY_WINDOW'', ''DIFFICULTY_MAX_STEP'',
      ''DIFFICULTY_MIN_BITS'', ''DIFFICULTY_MAX_BITS'', ''GENESIS_DIFFICULTY_BITS'', ''MTP_WINDOW'',
      ''MAX_TIME_DRIFT'', ''MAX_FUTURE_DRIFT_SEC'', ''MAX_BLOCK_SIZE'', ''MERKLE_ENABLE'',
      ''MERKLE_ACTIVATION_HEIGHT'', ''BINARY_ENCODING_ENABLE'', ''BINARY_ENCODING_ACTIVATION_HEIGHT'']"

subsection \<open>The rules hash\<close>

definition writeBool :: "bool \<Rightarrow> bytes" where
  "writeBool v = (if v then [1] else [0])"

definition MarshalBinary :: "consensus_params \<Rightarrow> bytes" where
  "MarshalBinary p =
     [3] @ writeBool (cp_DifficultyEnable p) @ le_i64 (cp_TargetBlockTime p) @
     le32 (word_of_int (cp_DifficultyWindow p)) @ le32 (cp_DifficultyMaxStep p) @
     le32 (cp_MinDifficultyBits p) @ le32 (cp_MaxDifficultyBits p) @
     le32 (cp_GenesisDifficultyBits p) @ le32 (word_of_int (cp_MedianTimePastWindow p)) @
     le_i64 (cp_MaxTimeDrift p) @ writeBool (cp_MerkleEnable p) @
     le64 (cp_MerkleActivationHeight p) @ writeBool (cp_BinaryEncodingEnable p) @
     le64 (cp_BinaryEncodingActivationHeight p) @ le64 (cp_MaxBlockSize p) @
     le64 (mp_InitialBlockReward (cp_MonetaryPolicy p)) @
     le64 (mp_HalvingInterval (cp_MonetaryPolicy p)) @ [mp_MinerFeeShare (cp_MonetaryPolicy p)] @
     le64 (mp_TailEmission (cp_MonetaryPolicy p))"

definition RulesHash :: "consensus_params \<Rightarrow> bytes" where
  "RulesHash p = sha256 (MarshalBinary p)"

subsection \<open>The genesis configuration and block\<close>

record genesis_config_json =
  gcj_Network :: string
  gcj_ChainID :: u64
  gcj_Timestamp :: int
  gcj_GenesisMinerAddress :: string
  gcj_InitialSupply :: u64
  gcj_GenesisMessage :: string
  gcj_MonetaryPolicy :: bytes
  gcj_ConsensusParams :: bytes

record genesis_config =
  gc_Network :: string
  gc_ChainID :: u64
  gc_Timestamp :: int
  gc_GenesisMinerAddress :: string
  gc_InitialSupply :: u64
  gc_GenesisMessage :: string
  gc_MonetaryPolicy :: monetary_policy
  gc_ConsensusParams :: consensus_params

definition validateGenesisMinerAddress :: "string \<Rightarrow> unit res" where
  "validateGenesisMinerAddress addr =
     (if take 3 addr = AddressPrefix then ValidateAddress addr
      else case hex_decode addr of (b, ok) \<Rightarrow>
        if \<not> ok then Inl ''invalid hex''
        else if length b \<noteq> 32 then Inl ''raw address must be 32 bytes'' else Inr ())"

text \<open>The JSON decoders used while loading.\<close>

record genesis_decoders =
  gd_config :: "bytes \<Rightarrow> genesis_config_json res"
  gd_policy :: "bytes \<Rightarrow> monetary_policy_json res"
  gd_params :: "bytes \<Rightarrow> consensus_params_json res"

definition LoadGenesisConfig :: "genesis_decoders \<Rightarrow> bytes res \<Rightarrow> genesis_config res" where
  "LoadGenesisConfig d file =
     (case file of Inl e \<Rightarrow> Inl (''read genesis file'' @ e)
      | Inr data \<Rightarrow>
        (case gd_config d data of Inl e \<Rightarrow> Inl (''parse genesis config: '' @ e)
         | Inr raw \<Rightarrow>
           if gcj_ChainID raw = 0 then Inl ''genesis chainId must be > 0''
           else if gcj_Timestamp raw \<le> 0 then Inl ''genesis timestamp must be > 0''
           else if gcj_InitialSupply raw = 0 then Inl ''genesis initialSupply must be > 0''
           else case validateGenesisMinerAddress (gcj_GenesisMinerAddress raw) of
             Inl e \<Rightarrow> Inl (''invalid genesisMinerAddress: '' @ e)
           | Inr _ \<Rightarrow>
             rbind (parseMonetaryPolicy (gd_policy d) (gcj_MonetaryPolicy raw)) (\<lambda>policy.
             rbind (parseConsensusParams (gd_params d) (gcj_ConsensusParams raw)) (\<lambda>consensus.
             Inr \<lparr>gc_Network = gcj_Network raw, gc_ChainID = gcj_ChainID raw,
                  gc_Timestamp = gcj_Timestamp raw,
                  gc_GenesisMinerAddress = gcj_GenesisMinerAddress raw,
                  gc_InitialSupply = gcj_InitialSupply raw,
                  gc_GenesisMessage = gcj_GenesisMessage raw, gc_MonetaryPolicy = policy,
                  gc_ConsensusParams = consensus\<lparr>cp_MonetaryPolicy := policy\<rparr>\<rparr>))))"

definition genesisMessageOrDefault :: "genesis_config \<Rightarrow> string" where
  "genesisMessageOrDefault cfg =
     (if gc_GenesisMessage cfg \<noteq> [] then gc_GenesisMessage cfg
      else ''genesis allocation (supply='' @ dec_nat (unat (gc_InitialSupply cfg)) @ '')'')"

definition genesis_coinbase :: "genesis_config \<Rightarrow> transaction" where
  "genesis_coinbase cfg = \<lparr>tx_Type = TxCoinbase, tx_ChainID = gc_ChainID cfg, tx_FromPubKey = None,
     tx_ToAddress = gc_GenesisMinerAddress cfg, tx_Amount = gc_InitialSupply cfg, tx_Fee = 0,
     tx_Nonce = 0, tx_Data = genesisMessageOrDefault cfg, tx_Signature = None\<rparr>"

definition genesis_template :: "genesis_config \<Rightarrow> consensus_params \<Rightarrow> block" where
  "genesis_template cfg consensus = \<lparr>blk_Version = blockVersionForHeight consensus 0, blk_Height = 0,
     blk_TimestampUnix = gc_Timestamp cfg, blk_PrevHash = None, blk_Nonce = 0,
     blk_DifficultyBits = cp_GenesisDifficultyBits consensus,
     blk_MinerAddress = gc_GenesisMinerAddress cfg, blk_Transactions = [genesis_coinbase cfg],
     blk_Hash = None, blk_StateRoot = None, blk_UTXORoot = None\<rparr>"

text \<open>\<open>None\<close> when the proof-of-work search does not end.\<close>

definition BuildGenesisBlock :: "genesis_config \<Rightarrow> consensus_params \<Rightarrow> block res option" where
  "BuildGenesisBlock cfg consensus =
     (case pow_Run consensus (genesis_template cfg consensus) of
        None \<Rightarrow> None
      | Some (Inl e) \<Rightarrow> Some (Inl e)
      | Some (Inr (nonce, hash)) \<Rightarrow>
          Some (Inr ((genesis_template cfg consensus)\<lparr>blk_Nonce := nonce, blk_Hash := Some hash\<rparr>)))"

text \<open>On success, the block with its hash filled in.\<close>

definition ValidateGenesisBlock :: "block \<Rightarrow> genesis_config \<Rightarrow> consensus_params \<Rightarrow> block res" where
  "ValidateGenesisBlock b cfg consensus =
     (if blk_Height b \<noteq> 0 then Inl ''invalid genesis height''
      else if length (sl (blk_PrevHash b)) \<noteq> 0 then Inl ''invalid genesis prevHash''
      else if blk_Version b \<noteq> blockVersionForHeight consensus 0 then Inl ''invalid genesis version''
      else if blk_TimestampUnix b \<noteq> gc_Timestamp cfg then Inl ''genesis timestamp mismatch''
      else if blk_MinerAddress b \<noteq> gc_GenesisMinerAddress cfg then Inl ''genesis miner mismatch''
      else if blk_DifficultyBits b \<noteq> cp_GenesisDifficultyBits consensus
      then Inl ''genesis difficulty mismatch''
      else case blk_Transactions b of
        [cb] \<Rightarrow>
          if tx_Type cb \<noteq> TxCoinbase then Inl ''genesis tx must be coinbase''
          else if tx_ChainID cb \<noteq> gc_ChainID cfg then Inl ''genesis coinbase chainId mismatch''
          else if tx_ToAddress cb \<noteq> gc_GenesisMinerAddress cfg
          then Inl ''genesis coinbase toAddress mismatch''
          else if tx_Amount cb \<noteq> gc_InitialSupply cfg then Inl ''genesis supply mismatch''
          else if tx_Data cb \<noteq> genesisMessageOrDefault cfg then Inl ''genesis message mismatch''
          else rbind (pow_Validate consensus b) (\<lambda>ok.
            if \<not> ok then Inl ''invalid genesis pow''
            else rbind (ensureBlockHash b consensus) (\<lambda>(_, b'). Inr b'))
      | _ \<Rightarrow> Inl ''genesis must contain exactly one transaction'')"

subsection \<open>The shipped main network\<close>

definition mainnet_config :: genesis_config where
  "mainnet_config = \<lparr>gc_Network = ''neocoin-mainnet'', gc_ChainID = 1, gc_Timestamp = 1742252800,
     gc_GenesisMinerAddress =
       ''NEO008f5fc94fe4754bc6143c72c129fcafd279735c0d38c2ec6b35e9614088f1a12879b796d1'',
     gc_InitialSupply = 2100000000000000,
     gc_GenesisMessage = ''NeoCoin Mainnet Launch - A new era of decentralized finance'',
     gc_MonetaryPolicy = cp_MonetaryPolicy mainnet_params, gc_ConsensusParams = mainnet_params\<rparr>"

subsection \<open>Lemmas\<close>

lemma adjust_same: "(\<And>p. f (u p) = f p) \<Longrightarrow> f (adjust (c, u) p) = f p"
  by (simp add: adjust_def)

lemma adjust_hit: "f (adjust (c, u) p) = (if c p then f (u p) else f p)"
  by (simp add: adjust_def)

lemmas adjust_others =
  adjust_same [of cp_TargetBlockTime] adjust_same [of cp_DifficultyWindow]
  adjust_same [of cp_DifficultyMaxStep] adjust_same [of cp_MinDifficultyBits]
  adjust_same [of cp_MaxDifficultyBits] adjust_same [of cp_GenesisDifficultyBits]
  adjust_same [of cp_MedianTimePastWindow] adjust_same [of cp_MaxTimeDrift]
  adjust_same [of cp_MaxBlockSize]

lemma repairLimits_fields:
  "cp_TargetBlockTime (repairLimits p) =
     (if cp_TargetBlockTime p \<le> 0 then 15 * time_Second else cp_TargetBlockTime p)"
  "cp_DifficultyWindow (repairLimits p) = (if cp_DifficultyWindow p \<le> 0 then 20 else cp_DifficultyWindow p)"
  "cp_DifficultyMaxStep (repairLimits p) = (if cp_DifficultyMaxStep p = 0 then 1 else cp_DifficultyMaxStep p)"
  "cp_MaxDifficultyBits (repairLimits p) =
     (let m = (if cp_MaxDifficultyBits p = 0 then 255 else cp_MaxDifficultyBits p) in if 256 < m then 256 else m)"
  by (simp_all add: repairLimits_def adjust_others adjust_hit [of cp_TargetBlockTime] Let_def
      adjust_hit [of cp_DifficultyWindow] adjust_hit [of cp_DifficultyMaxStep]
      adjust_hit [of cp_MaxDifficultyBits] maxDifficultyBits_def)

lemma repairLimits_min:
  "cp_MinDifficultyBits (repairLimits p) =
     (let n = (if cp_MinDifficultyBits p = 0 then 1 else cp_MinDifficultyBits p);
          m = cp_MaxDifficultyBits (repairLimits p) in if m < n then m else n)"
  unfolding repairLimits_fields
  by (simp add: repairLimits_def adjust_others adjust_hit [of cp_MinDifficultyBits]
      adjust_hit [of cp_MaxDifficultyBits] Let_def maxDifficultyBits_def)

lemma repairRest_fields:
  "cp_TargetBlockTime (repairRest p) = cp_TargetBlockTime p"
  "cp_DifficultyWindow (repairRest p) = cp_DifficultyWindow p"
  "cp_DifficultyMaxStep (repairRest p) = cp_DifficultyMaxStep p"
  "cp_MinDifficultyBits (repairRest p) = cp_MinDifficultyBits p"
  "cp_MaxDifficultyBits (repairRest p) = cp_MaxDifficultyBits p"
  "cp_GenesisDifficultyBits (repairRest p) =
     (let g = (if cp_GenesisDifficultyBits p < cp_MinDifficultyBits p then cp_MinDifficultyBits p
               else cp_GenesisDifficultyBits p)
      in if cp_MaxDifficultyBits p < g then cp_MaxDifficultyBits p else g)"
  "cp_MedianTimePastWindow (repairRest p) =
     (if cp_MedianTimePastWindow p \<le> 0 then 11 else cp_MedianTimePastWindow p)"
  "cp_MaxTimeDrift (repairRest p) = (if cp_MaxTimeDrift p \<le> 0 then 7200 else cp_MaxTimeDrift p)"
  "cp_MaxBlockSize (repairRest p) = (if cp_MaxBlockSize p = 0 then 1000000 else cp_MaxBlockSize p)"
  by (simp_all add: repairRest_def adjust_others adjust_hit [of cp_GenesisDifficultyBits] Let_def
      adjust_hit [of cp_MedianTimePastWindow] adjust_hit [of cp_MaxTimeDrift] adjust_hit [of cp_MaxBlockSize])

lemma repairParams_ok: "params_ok (repairParams p)"
proof -
  define n m where "n = cp_MinDifficultyBits (repairLimits p)" and "m = cp_MaxDifficultyBits (repairLimits p)"
  have m: "1 \<le> m" "m \<le> 256"
    by (auto simp: m_def repairLimits_fields Let_def u32_ge_1_iff not_less)
  have n: "1 \<le> n" "n \<le> m"
    using m(1) unfolding n_def repairLimits_min m_def [symmetric]
    by (auto simp: Let_def u32_ge_1_iff not_less)
  then show ?thesis
    using m by (auto simp: params_ok_def repairParams_def repairRest_fields repairLimits_fields(1-3)
        n_def [symmetric] m_def [symmetric] time_Second_def Let_def not_less)
qed

text \<open>\<^verbatim>\<open>MarshalBinary\<close> field by field.  The two window sizes are written as 32-bit values.\<close>

definition params_in_range :: "consensus_params \<Rightarrow> bool" where
  "params_in_range p \<longleftrightarrow>
     - (2 ^ 63) \<le> cp_TargetBlockTime p \<and> cp_TargetBlockTime p < 2 ^ 63 \<and>
     - (2 ^ 63) \<le> cp_MaxTimeDrift p \<and> cp_MaxTimeDrift p < 2 ^ 63 \<and>
     0 \<le> cp_DifficultyWindow p \<and> cp_DifficultyWindow p < 2 ^ 32 \<and>
     0 \<le> cp_MedianTimePastWindow p \<and> cp_MedianTimePastWindow p < 2 ^ 32"

lemma writeBool_split: "writeBool a @ r = writeBool b @ s \<longleftrightarrow> a = b \<and> r = s"
  by (simp add: writeBool_def)

lemma word32_of_int_inj:
  "0 \<le> i \<Longrightarrow> i < 2 ^ 32 \<Longrightarrow> 0 \<le> j \<Longrightarrow> j < 2 ^ 32 \<Longrightarrow> (word_of_int i :: u32) = word_of_int j \<Longrightarrow> i = j"
  by (drule arg_cong [where f = uint]) (simp add: uint_word_of_int)

lemma MarshalBinary_inj:
  assumes "MarshalBinary p = MarshalBinary q" and "params_in_range p" and "params_in_range q"
  shows "p = q"
proof -
  have "le_i64 (cp_TargetBlockTime p) = le_i64 (cp_TargetBlockTime q)"
    "le_i64 (cp_MaxTimeDrift p) = le_i64 (cp_MaxTimeDrift q)"
    "(word_of_int (cp_DifficultyWindow p) :: u32) = word_of_int (cp_DifficultyWindow q)"
    "(word_of_int (cp_MedianTimePastWindow p) :: u32) = word_of_int (cp_MedianTimePastWindow q)"
    "cp_DifficultyEnable p = cp_DifficultyEnable q" "cp_DifficultyMaxStep p = cp_DifficultyMaxStep q"
    "cp_MinDifficultyBits p = cp_MinDifficultyBits q" "cp_MaxDifficultyBits p = cp_MaxDifficultyBits q"
    "cp_GenesisDifficultyBits p = cp_GenesisDifficultyBits q" "cp_MerkleEnable p = cp_MerkleEnable q"
    "cp_MerkleActivationHeight p = cp_MerkleActivationHeight q"
    "cp_BinaryEncodingEnable p = cp_BinaryEncodingEnable q"
    "cp_BinaryEncodingActivationHeight p = cp_BinaryEncodingActivationHeight q"
    "cp_MaxBlockSize p = cp_MaxBlockSize q" "cp_MonetaryPolicy p = cp_MonetaryPolicy q"
    using assms(1) by (simp_all add: MarshalBinary_def writeBool_split)
  then show ?thesis
    using assms(2,3) le_i64_inj [of "cp_TargetBlockTime p" "cp_TargetBlockTime q"]
      le_i64_inj [of "cp_MaxTimeDrift p" "cp_MaxTimeDrift q"]
      word32_of_int_inj [of "cp_DifficultyWindow p" "cp_DifficultyWindow q"]
      word32_of_int_inj [of "cp_MedianTimePastWindow p" "cp_MedianTimePastWindow q"]
    by (intro consensus_params.equality) (simp_all add: params_in_range_def)
qed

lemma genesis_header_nonce:
  "BuildGenesisBlock cfg p = Some (Inr b) \<Longrightarrow>
   \<exists>k h. pow_Run p (genesis_template cfg p) = Some (Inr (k, h)) \<and>
     b = (genesis_template cfg p)\<lparr>blk_Nonce := k, blk_Hash := Some h\<rparr>"
  by (auto simp: BuildGenesisBlock_def split: option.splits sum.splits prod.splits)

subsection \<open>Properties\<close>

text \<open>Whatever the environment variables contain, the parameters read from them satisfy the
  rules that genesis files are checked against.\<close>

theorem env_params_valid: "params_ok (defaultConsensusParamsFromEnv env)"
  unfolding defaultConsensusParamsFromEnv_def by (rule repairParams_ok)

text \<open>The rules hash identifies the consensus parameters: two parameter sets with the same hash
  are equal or their encodings are a SHA-256 collision.  Window sizes are below 2 to the 32,
  the range in which the encoding keeps them.\<close>

theorem rules_hash_binds:
  assumes "RulesHash p = RulesHash q" and "params_in_range p" and "params_in_range q"
  shows "p = q \<or> collides sha256 [MarshalBinary p] [MarshalBinary q]"
  using assms MarshalBinary_inj [of p q] by (auto simp: RulesHash_def collides_def)

theorem rules_hash_binds_witness:
  "params_in_range smoke_params \<and>
   (smoke_params = smoke_params\<lparr>cp_MaxTimeDrift := 7200\<rparr> \<or>
    collides sha256 [MarshalBinary smoke_params] [MarshalBinary (smoke_params\<lparr>cp_MaxTimeDrift := 7200\<rparr>)])"
proof -
  have "smoke_params\<lparr>cp_MaxTimeDrift := 7200\<rparr> = smoke_params" "params_in_range smoke_params"
    by (simp_all add: smoke_params_def params_in_range_def)
  with rules_hash_binds [of smoke_params "smoke_params\<lparr>cp_MaxTimeDrift := 7200\<rparr>"] show ?thesis by simp
qed

text \<open>A loaded genesis configuration has a chain id, a timestamp, a supply, a recipient in one of
  the two accepted forms, a valid monetary policy and valid consensus parameters that carry
  this policy.\<close>

theorem genesis_config_valid:
  assumes "LoadGenesisConfig d file = Inr cfg"
  shows "gc_ChainID cfg \<noteq> 0 \<and> 0 < gc_Timestamp cfg \<and> gc_InitialSupply cfg \<noteq> 0 \<and>
    (ValidateAddress (gc_GenesisMinerAddress cfg) = Inr () \<or>
     (\<exists>raw. decodeHex32 (gc_GenesisMinerAddress cfg) = Inr raw)) \<and>
    MonetaryPolicy_Validate (gc_MonetaryPolicy cfg) = Inr () \<and>
    params_ok (gc_ConsensusParams cfg) \<and>
    cp_MonetaryPolicy (gc_ConsensusParams cfg) = gc_MonetaryPolicy cfg"
proof -
  obtain data raw where f: "file = Inr data" "gd_config d data = Inr raw"
    using assms by (auto simp: LoadGenesisConfig_def split: sum.splits)
  with assms obtain policy consensus where
    parsed: "parseMonetaryPolicy (gd_policy d) (gcj_MonetaryPolicy raw) = Inr policy"
      "parseConsensusParams (gd_params d) (gcj_ConsensusParams raw) = Inr consensus"
    by (auto simp: LoadGenesisConfig_def rbind_Inr_iff split: sum.splits if_splits)
  have raw: "gcj_ChainID raw \<noteq> 0 \<and> 0 < gcj_Timestamp raw \<and> gcj_InitialSupply raw \<noteq> 0 \<and>
      validateGenesisMinerAddress (gcj_GenesisMinerAddress raw) = Inr () \<and>
      gc_ChainID cfg = gcj_ChainID raw \<and> gc_Timestamp cfg = gcj_Timestamp raw \<and>
      gc_InitialSupply cfg = gcj_InitialSupply raw \<and>
      gc_GenesisMinerAddress cfg = gcj_GenesisMinerAddress raw \<and> gc_MonetaryPolicy cfg = policy \<and>
      gc_ConsensusParams cfg = consensus\<lparr>cp_MonetaryPolicy := policy\<rparr>"
    using assms f parsed by (auto simp: LoadGenesisConfig_def split: sum.splits if_splits)
  moreover have "params_ok consensus" using parseConsensusParams_ok parsed(2) by blast
  then have "params_ok (consensus\<lparr>cp_MonetaryPolicy := policy\<rparr>)" by (simp add: params_ok_def)
  moreover have "MonetaryPolicy_Validate policy = Inr ()" using parseMonetaryPolicy_valid parsed(1) by blast
  moreover have "ValidateAddress (gcj_GenesisMinerAddress raw) = Inr () \<or>
      (\<exists>r. decodeHex32 (gcj_GenesisMinerAddress raw) = Inr r)"
    using raw by (auto simp: validateGenesisMinerAddress_def decodeHex32_Inr_iff split: if_splits prod.splits)
  ultimately show ?thesis using raw by simp
qed

text \<open>The decoded contents of the smoke-test configuration.\<close>

definition smoke_decoders :: genesis_decoders where
  "smoke_decoders = \<lparr>
     gd_config = (\<lambda>_. Inr \<lparr>gcj_Network = ''neocoin-smoke'', gcj_ChainID = 3, gcj_Timestamp = 1700000000,
       gcj_GenesisMinerAddress = GenerateAddress [1], gcj_InitialSupply = 21000000,
       gcj_GenesisMessage = [], gcj_MonetaryPolicy = [1], gcj_ConsensusParams = [1]\<rparr>),
     gd_policy = (\<lambda>_. Inr \<lparr>mpj_InitialBlockReward = Some 50, mpj_HalvingInterval = Some 210000,
       mpj_MinerFeeShare = Some 100, mpj_TailEmission = Some 0\<rparr>),
     gd_params = (\<lambda>_. Inr \<lparr>cpj_DifficultyEnable = Some False, cpj_DifficultyTargetMs = Some 1000,
       cpj_DifficultyTargetSpacing = None, cpj_DifficultyWindow = Some 10, cpj_DifficultyWindowSize = None,
       cpj_DifficultyAdjustmentInterval = None, cpj_DifficultyMaxStepBits = Some 1,
       cpj_DifficultyMaxStep = None, cpj_MinDifficultyBits = Some 1, cpj_MaxDifficultyBits = Some 255,
       cpj_GenesisDifficultyBits = Some 1, cpj_MedianTimePastWindow = Some 11,
       cpj_MaxTimeDrift = Some 7200, cpj_MaxBlockSize = Some 1000000, cpj_MerkleEnable = Some False,
       cpj_MerkleActivationHeight = Some 0, cpj_BinaryEncodingEnable = Some False,
       cpj_BinaryEncodingActivationHeight = Some 0\<rparr>)\<rparr>"

lemma GenerateAddress_prefix: "take 3 (GenerateAddress pk) = AddressPrefix"
  by (simp add: GenerateAddress_def AddressPrefix_def Let_def)

lemma smoke_config_loads:
  "\<exists>cfg. LoadGenesisConfig smoke_decoders (Inr [1]) = Inr cfg \<and> gc_ConsensusParams cfg = smoke_params"
  by (simp add: LoadGenesisConfig_def smoke_decoders_def validateGenesisMinerAddress_def
      GenerateAddress_prefix parseMonetaryPolicy_def MonetaryPolicy_Validate_def Let_def
      parseConsensusParams_def require_field_def pickInt64_def pickInt_def pickUint32_def toMillis_def
      validateConsensusParams_def maxDifficultyBits_def smoke_params_def i64_def)

theorem genesis_config_valid_witness:
  "\<exists>cfg. LoadGenesisConfig smoke_decoders (Inr [1]) = Inr cfg \<and> params_ok (gc_ConsensusParams cfg)"
  using smoke_config_loads genesis_config_valid by blast

text \<open>The genesis block a node builds is one every node accepts: \<^verbatim>\<open>ValidateGenesisBlock\<close> succeeds
  on the result of \<^verbatim>\<open>BuildGenesisBlock\<close> and leaves it unchanged.\<close>

theorem genesis_built_is_valid:
  assumes "BuildGenesisBlock cfg p = Some (Inr b)"
  shows "ValidateGenesisBlock b cfg p = Inr b"
proof -
  obtain k h where run: "pow_Run p (genesis_template cfg p) = Some (Inr (k, h))"
    and b: "b = (genesis_template cfg p)\<lparr>blk_Nonce := k, blk_Hash := Some h\<rparr>"
    using genesis_header_nonce [OF assms] by blast
  obtain header where hd: "HeaderBytesForConsensus p (genesis_template cfg p) k = Inr header" "h = sha256 header"
    using run by (auto simp: pow_Run_Inr_iff)
  have "pow_Validate p b = Inr True"
    unfolding b by (rule mined_block_valid [OF run])
  moreover have "ensureBlockHash b p = Inr (h, b)"
    using header_stable [OF hd(1), of h k] hd(2) by (simp add: b ensureBlockHash_def)
  ultimately show ?thesis
    by (simp add: b ValidateGenesisBlock_def genesis_template_def genesis_coinbase_def)
qed

definition easy_config :: genesis_config where
  "easy_config = mainnet_config\<lparr>gc_GenesisMinerAddress := GenerateAddress [1]\<rparr>"

definition easy_params :: consensus_params where
  "easy_params = smoke_params\<lparr>cp_GenesisDifficultyBits := 0\<rparr>"

theorem genesis_built_is_valid_witness:
  "\<exists>b. BuildGenesisBlock easy_config easy_params = Some (Inr b) \<and>
     ValidateGenesisBlock b easy_config easy_params = Inr b"
proof -
  let ?t = "genesis_template easy_config easy_params"
  obtain header where hd: "HeaderBytesForConsensus easy_params ?t 0 = Inr header"
    by (auto simp: HeaderBytesForConsensus_def BinaryEncodingActive_def easy_params_def smoke_params_def
        TxRootLegacyForConsensus_def genesis_template_def txSigningHashForConsensus_def
        signingHashLegacyJSON_def genesis_coinbase_def blockVersionForHeight_def)
  have "blk_DifficultyBits ?t = 0" by (simp add: genesis_template_def easy_params_def)
  from pow_meets_zero_bits [OF this hd] hd
  have "pow_Run easy_params ?t = Some (Inr (0, sha256 header))" by (simp add: pow_Run_Inr_iff)
  then have "BuildGenesisBlock easy_config easy_params =
      Some (Inr (?t\<lparr>blk_Nonce := 0, blk_Hash := Some (sha256 header)\<rparr>))"
    by (simp add: BuildGenesisBlock_def)
  with genesis_built_is_valid [OF this] show ?thesis by blast
qed

text \<open>With the binary encoding active from height 0 and a NEO address as the genesis recipient,
  building the genesis block always fails.  The shipped main network configuration is such
  a configuration.\<close>

theorem binary_genesis_fails:
  assumes "BinaryEncodingActive p 0" and "take 3 (gc_GenesisMinerAddress cfg) = ''NEO''"
    and "0 < gc_Timestamp cfg"
  shows "BuildGenesisBlock cfg p = Some (Inl ''invalid minerAddress'')"
proof -
  have "decodeHex32 (gc_GenesisMinerAddress cfg) = Inl ''hex error''"
    using hex_decode_NEO [OF assms(2)] by (simp add: decodeHex32_def)
  then have "HeaderBytesForConsensus p (genesis_template cfg p) 0 = Inl ''invalid minerAddress''"
    using assms by (simp add: HeaderBytesForConsensus_def blockHeaderPreimageBinaryV1_def genesis_template_def)
  then show ?thesis
    using pow_loop_fails [of p "genesis_template cfg p" 0 _ 0] by (simp add: BuildGenesisBlock_def pow_Run_def)
qed

theorem binary_genesis_fails_witness:
  "BuildGenesisBlock mainnet_config mainnet_params = Some (Inl ''invalid minerAddress'')"
proof (rule binary_genesis_fails)
  show "BinaryEncodingActive mainnet_params 0" by (simp add: BinaryEncodingActive_def mainnet_params_def)
  show "take 3 (gc_GenesisMinerAddress mainnet_config) = ''NEO''" by (simp add: mainnet_config_def)
  show "0 < gc_Timestamp mainnet_config" by (simp add: mainnet_config_def)
qed

end
