(* ===== verification/Ledger.thy ===== *)
theory Ledger
  imports Genesis
begin

text \<open>
  The account ledger: \<^verbatim>\<open>applyBlockToState\<close>, \<^verbatim>\<open>validateTxsForSender\<close>, \<^verbatim>\<open>SelectMempoolTxs\<close>
  and \<^verbatim>\<open>TotalSupply\<close> of \<^verbatim>\<open>internal/blockchain/chain.go\<close>.  The state map is changed in place,
  so an operation returns the map it leaves behind together with its error, if any.
\<close>

subsection \<open>Sequences of fallible steps\<close>

fun run_all :: "('x \<Rightarrow> 's \<Rightarrow> 's \<times> unit res) \<Rightarrow> 'x list \<Rightarrow> 's \<Rightarrow> 's \<times> unit res" where
  "run_all act [] s = (s, Inr ())"
| "run_all act (x # xs) s =
     (case act x s of (s', Inl e) \<Rightarrow> (s', Inl e) | (s', Inr _) \<Rightarrow> run_all act xs s')"

subsection \<open>Applying transactions\<close>

definition credit :: "string \<Rightarrow> u64 \<Rightarrow> ledger \<Rightarrow> ledger" where
  "credit a v st = gput a ((acct st a)\<lparr>acc_Balance := acc_Balance (acct st a) + v\<rparr>) st"

text \<open>One round of the loop over the transactions of a block.\<close>

definition apply_tx ::
  "ed25519 \<Rightarrow> consensus_params \<Rightarrow> u64 \<Rightarrow> nat \<times> transaction \<Rightarrow> ledger \<Rightarrow> ledger \<times> unit res" where
  "apply_tx ed p height itx st =
     (let i = fst itx; tx = snd itx in
      if tx_Type tx = TxCoinbase then
        (if i \<noteq> 0 then (st, Inl ''coinbase must be first'')
         else case VerifyForConsensus ed tx p height of
           Inl e \<Rightarrow> (st, Inl e)
         | Inr _ \<Rightarrow> (credit (tx_ToAddress tx) (tx_Amount tx) st, Inr ()))
      else if tx_Type tx = TxTransfer then
        (case VerifyForConsensus ed tx p height of
           Inl e \<Rightarrow> (st, Inl e)
         | Inr _ \<Rightarrow>
           (case FromAddress tx of
              Inl e \<Rightarrow> (st, Inl e)
            | Inr fromAddr \<Rightarrow>
                let from = acct st fromAddr in
                if acc_Nonce from + 1 \<noteq> tx_Nonce tx then (st, Inl ''bad nonce'')
                else
                  let totalDebit = tx_Amount tx + tx_Fee tx in
                  if acc_Balance from < totalDebit then (st, Inl ''insufficient funds'')
                  else
                    let st1 = gput fromAddr (from\<lparr>acc_Balance := acc_Balance from - totalDebit,
                                acc_Nonce := tx_Nonce tx\<rparr>) st
                    in (credit (tx_ToAddress tx) (tx_Amount tx) st1, Inr ())))
      else (st, Inl ''unknown tx type''))"

text \<open>The fees of the transfers after the first transaction, as a 64-bit sum.\<close>

definition block_fees :: "block \<Rightarrow> u64" where
  "block_fees b =
     fold (\<lambda>tx fees. if tx_Type tx \<noteq> TxTransfer then fees else fees + tx_Fee tx)
       (tl (blk_Transactions b)) 0"

definition applyBlockToState ::
  "ed25519 \<Rightarrow> consensus_params \<Rightarrow> block \<Rightarrow> ledger \<Rightarrow> ledger \<times> unit res" where
  "applyBlockToState ed p b st =
     (if 0 < cp_MaxBlockSize p \<and> unat (cp_MaxBlockSize p) < length (block_json b)
      then (st, Inl ''block too large'')
      else if blk_Transactions b = [] then (st, Inl ''block has no transactions'')
      else
        let cb = hd (blk_Transactions b) in
        if tx_Type cb \<noteq> TxCoinbase then (st, Inl ''first tx must be coinbase'')
        else
          let header_err =
            (if 0 < blk_Height b then
               (case ValidateAddress (blk_MinerAddress b) of
                  Inl e \<Rightarrow> Inl (''invalid minerAddress: '' @ e)
                | Inr _ \<Rightarrow>
                    if tx_ToAddress cb \<noteq> blk_MinerAddress b
                    then Inl ''coinbase toAddress must match minerAddress''
                    else if tx_Amount cb \<noteq> BlockReward (cp_MonetaryPolicy p) (blk_Height b)
                              + MinerFeeAmount (cp_MonetaryPolicy p) (block_fees b)
                    then Inl ''bad coinbase amount''
                    else Inr ())
             else Inr ())
          in case header_err of
               Inl e \<Rightarrow> (st, Inl e)
             | Inr _ \<Rightarrow> run_all (apply_tx ed p (blk_Height b)) (enumerate 0 (blk_Transactions b)) st)"

text \<open>\<^verbatim>\<open>TotalSupply\<close> sums the balances as 64-bit integers.\<close>

definition TotalSupply :: "ledger \<Rightarrow> u64" where
  "TotalSupply st = gsum acc_Balance st"

subsection \<open>Selecting transactions for a block\<close>

record selected_tx =
  sel_tx :: transaction
  sel_txIDHex :: string

text \<open>The loop of \<^verbatim>\<open>validateTxsForSender\<close> over the entries of one sender; the nonce is tracked
  apart from the account.\<close>

fun validate_loop ::
  "ed25519 \<Rightarrow> u64 \<Rightarrow> consensus_params \<Rightarrow> u64 \<Rightarrow> string \<Rightarrow> u64 \<Rightarrow> ledger \<Rightarrow> selected_tx list \<Rightarrow> selected_tx list" where
  "validate_loop ed chainID p height addr nonce st [] = []"
| "validate_loop ed chainID p height addr nonce st (entry # txs) =
     (let tx = (if tx_ChainID (sel_tx entry) = 0 then (sel_tx entry)\<lparr>tx_ChainID := chainID\<rparr> else sel_tx entry) in
      case VerifyForConsensus ed tx p height of
        Inl _ \<Rightarrow> validate_loop ed chainID p height addr nonce st txs
      | Inr _ \<Rightarrow>
          if tx_Nonce tx \<noteq> nonce + 1 then validate_loop ed chainID p height addr nonce st txs
          else
            let from = acct st addr; totalDebit = tx_Amount tx + tx_Fee tx in
            if acc_Balance from < totalDebit then validate_loop ed chainID p height addr nonce st txs
            else
              let st1 = gput addr (from\<lparr>acc_Balance := acc_Balance from - totalDebit,
                          acc_Nonce := tx_Nonce tx\<rparr>) st
              in entry # validate_loop ed chainID p height addr (tx_Nonce tx)
                   (credit (tx_ToAddress tx) (tx_Amount tx) st1) txs)"

definition validateTxsForSender ::
  "ed25519 \<Rightarrow> ledger \<Rightarrow> string \<Rightarrow> selected_tx list \<Rightarrow> u64 \<Rightarrow> consensus_params \<Rightarrow> u64 \<Rightarrow> selected_tx list" where
  "validateTxsForSender ed baseState addr txs chainID p height =
     validate_loop ed chainID p height addr (acc_Nonce (acct baseState addr)) baseState txs"

text \<open>Grouping by sender, in the order of first appearance.\<close>

definition group_by_sender :: "selected_tx list \<Rightarrow> (string, selected_tx list) gomap" where
  "group_by_sender entries = fold (\<lambda>e m.
     if tx_Type (sel_tx e) \<noteq> TxTransfer then m
     else case FromAddress (sel_tx e) of
       Inl _ \<Rightarrow> m
     | Inr a \<Rightarrow> gput a ((case gget m a of None \<Rightarrow> [] | Some l \<Rightarrow> l) @ [e]) m) entries []"

text \<open>Entries with equal keys keep their order here; \<^verbatim>\<open>sort.Slice\<close> leaves it open.  The results of
  the workers arrive in some order of the senders, \<open>arrive\<close>.\<close>

definition SelectMempoolTxs ::
  "ed25519 \<Rightarrow> (string list \<Rightarrow> string list) \<Rightarrow> u64 \<Rightarrow> consensus_params \<Rightarrow> ledger \<Rightarrow> u64 \<Rightarrow> selected_tx list \<Rightarrow> int
   \<Rightarrow> transaction list \<times> string list" where
  "SelectMempoolTxs ed arrive chainID p st nextHeight entries mx =
     (let mx = (if mx \<le> 0 then 100 else mx);
          groups = group_by_sender entries;
          valid = (\<lambda>a. validateTxsForSender ed st a
                     (sort_key (\<lambda>e. tx_Nonce (sel_tx e)) (case gget groups a of None \<Rightarrow> [] | Some l \<Rightarrow> l))
                     chainID p nextHeight);
          allValid = concat (map valid (arrive (map fst groups)));
          sorted = rev (sort_key (\<lambda>e. tx_Fee (sel_tx e)) (rev allValid));
          picked = take (nat mx) sorted
      in (map sel_tx picked, map sel_txIDHex picked))"

subsection \<open>Accounting\<close>

text \<open>
  The contract of a step that changes a total by a known amount.  It is met by single
  transactions (supply, nonces) and by whole blocks.
\<close>

locale accounting =
  fixes inv :: "'s \<Rightarrow> bool" and ok :: "'x \<Rightarrow> bool" and total :: "'s \<Rightarrow> 'm::comm_monoid_add"
    and delta :: "'x \<Rightarrow> 'm" and act :: "'x \<Rightarrow> 's \<Rightarrow> 's \<times> unit res"
  assumes act_total: "inv s \<Longrightarrow> ok x \<Longrightarrow> act x s = (s', Inr ()) \<Longrightarrow> inv s' \<and> total s' = total s + delta x"
begin

lemma run_all_total:
  "inv s \<Longrightarrow> \<forall>x \<in> set xs. ok x \<Longrightarrow> run_all act xs s = (s', Inr ()) \<Longrightarrow>
   inv s' \<and> total s' = total s + sum_list (map delta xs)"
proof (induction xs arbitrary: s)
  case (Cons x xs)
  from Cons.prems(3) obtain s1 where s1: "act x s = (s1, Inr ())" "run_all act xs s1 = (s', Inr ())"
    by (auto split: prod.splits sum.splits)
  then show ?case
    using Cons.IH [of s1] Cons.prems act_total [OF _ _ s1(1)] by (simp add: add.assoc)
qed simp

end

lemma run_all_append:
  "run_all act (xs @ ys) s =
     (case run_all act xs s of (s', Inl e) \<Rightarrow> (s', Inl e) | (s', Inr _) \<Rightarrow> run_all act ys s')"
  by (induction xs arbitrary: s) (auto split: prod.splits sum.splits)

lemma run_all_ok_prefix:
  "run_all act xs s = (s', Inr ()) \<Longrightarrow> x \<in> set xs \<Longrightarrow> \<exists>t t'. act x t = (t', Inr ())"
  by (induction xs arbitrary: s) (auto split: prod.splits sum.splits)

text \<open>What a successful transaction does.\<close>

lemma acct_credit:
  "acct (credit a v st) x =
     (if x = a then (acct st a)\<lparr>acc_Balance := acc_Balance (acct st a) + v\<rparr> else acct st x)"
  by (auto simp: credit_def)

lemma gmap_ok_credit [simp]: "gmap_ok st \<Longrightarrow> gmap_ok (credit a v st)"
  by (simp add: credit_def)

lemma apply_tx_coinbase:
  assumes "tx_Type tx = TxCoinbase"
  shows "apply_tx ed p h (i, tx) st = (st', Inr ()) \<longleftrightarrow>
    i = 0 \<and> VerifyForConsensus ed tx p h = Inr () \<and> st' = credit (tx_ToAddress tx) (tx_Amount tx) st"
  using assms by (auto simp: apply_tx_def split: sum.splits)

definition debit :: "transaction \<Rightarrow> string \<Rightarrow> ledger \<Rightarrow> ledger" where
  "debit tx fromAddr st = gput fromAddr
     ((acct st fromAddr)\<lparr>acc_Balance := acc_Balance (acct st fromAddr) - (tx_Amount tx + tx_Fee tx),
        acc_Nonce := tx_Nonce tx\<rparr>) st"

lemma apply_tx_transfer:
  assumes "tx_Type tx = TxTransfer"
  shows "apply_tx ed p h (i, tx) st = (st', Inr ()) \<longleftrightarrow>
    VerifyForConsensus ed tx p h = Inr () \<and>
    (\<exists>from. FromAddress tx = Inr from \<and> tx_Nonce tx = acc_Nonce (acct st from) + 1 \<and>
      tx_Amount tx + tx_Fee tx \<le> acc_Balance (acct st from) \<and>
      st' = credit (tx_ToAddress tx) (tx_Amount tx) (debit tx from st))"
  using assms by (auto simp: apply_tx_def Let_def debit_def not_less split: sum.splits)

lemma apply_tx_type:
  "apply_tx ed p h (i, tx) st = (st', Inr ()) \<Longrightarrow> tx_Type tx = TxCoinbase \<or> tx_Type tx = TxTransfer"
  by (auto simp: apply_tx_def split: if_splits)

lemma apply_tx_cases [consumes 1, case_names coinbase transfer]:
  assumes "apply_tx ed p h itx st = (st', Inr ())"
  obtains tx where "itx = (0, tx)" "tx_Type tx = TxCoinbase" "VerifyForConsensus ed tx p h = Inr ()"
      "st' = credit (tx_ToAddress tx) (tx_Amount tx) st"
  | i tx src where "itx = (i, tx)" "tx_Type tx = TxTransfer" "VerifyForConsensus ed tx p h = Inr ()"
      "FromAddress tx = Inr src" "tx_Nonce tx = acc_Nonce (acct st src) + 1"
      "tx_Amount tx + tx_Fee tx \<le> acc_Balance (acct st src)"
      "st' = credit (tx_ToAddress tx) (tx_Amount tx) (debit tx src st)"
proof -
  obtain i tx where itx: "itx = (i, tx)" by (cases itx)
  then show thesis
    using apply_tx_type [OF assms [unfolded itx]] assms that
    by (auto simp: apply_tx_coinbase apply_tx_transfer)
qed

subsection \<open>Supply\<close>

definition tx_delta :: "transaction \<Rightarrow> u64" where
  "tx_delta tx = (if tx_Type tx = TxCoinbase then tx_Amount tx else - tx_Fee tx)"

lemma TotalSupply_gput:
  "gmap_ok st \<Longrightarrow> TotalSupply (gput a x st) = TotalSupply st + acc_Balance x - acc_Balance (acct st a)"
  using gsum_gput_diff [of st acc_Balance a x] by (simp add: TotalSupply_def fsum_gget)

lemma TotalSupply_credit: "gmap_ok st \<Longrightarrow> TotalSupply (credit a v st) = TotalSupply st + v"
  by (simp add: credit_def TotalSupply_gput)

lemma TotalSupply_debit:
  "gmap_ok st \<Longrightarrow> TotalSupply (debit tx a st) = TotalSupply st - (tx_Amount tx + tx_Fee tx)"
  by (simp add: debit_def TotalSupply_gput)

lemma gmap_ok_debit [simp]: "gmap_ok st \<Longrightarrow> gmap_ok (debit tx a st)"
  by (simp add: debit_def)

interpretation coins: accounting gmap_ok "\<lambda>_. True" TotalSupply "\<lambda>itx. tx_delta (snd itx)"
  "apply_tx ed p h" for ed :: ed25519 and p :: consensus_params and h :: u64
proof unfold_locales
  fix st itx st'
  assume "gmap_ok st" "apply_tx ed p h itx st = (st', Inr ())"
  from this(2,1) show "gmap_ok st' \<and> TotalSupply st' = TotalSupply st + tx_delta (snd itx)"
    by (cases rule: apply_tx_cases) (simp_all add: TotalSupply_credit TotalSupply_debit tx_delta_def)
qed

text \<open>Nonces count the transfers of an account.\<close>

interpretation nonces: accounting "\<lambda>_. True" "\<lambda>_. True" "\<lambda>st. acc_Nonce (acct st a)"
  "\<lambda>itx. if FromAddress (snd itx) = Inr a then 1 else 0" "apply_tx ed p h" for a :: string and ed :: ed25519 and p :: consensus_params and h :: u64
proof unfold_locales
  fix st itx st'
  assume "apply_tx ed p h itx st = (st', Inr ())"
  then show "True \<and> acc_Nonce (acct st' a) =
      acc_Nonce (acct st a) + (if FromAddress (snd itx) = Inr a then 1 else 0)"
    by (cases rule: apply_tx_cases) (auto simp: acct_credit debit_def FromAddress_def)
qed

subsection \<open>Supply as a natural number\<close>

text \<open>The real number of coins, and transfers whose debit does not wrap around.\<close>

definition coins :: "ledger \<Rightarrow> nat" where
  "coins st = gsum (\<lambda>a. unat (acc_Balance a)) st"

definition no_wrap :: "transaction \<Rightarrow> bool" where
  "no_wrap tx \<longleftrightarrow> unat (tx_Amount tx) + unat (tx_Fee tx) < 2 ^ 64"

lemma coins_gput:
  "gmap_ok st \<Longrightarrow> coins (gput a x st) + unat (acc_Balance (acct st a)) = coins st + unat (acc_Balance x)"
  using gsum_gput [of st "\<lambda>a. unat (acc_Balance a)" a x]
  by (simp add: coins_def fsum_gget [of "\<lambda>a. unat (acc_Balance a)"])

lemma balance_le_coins: "gmap_ok st \<Longrightarrow> unat (acc_Balance (acct st a)) \<le> coins st"
  using coins_gput [of st a zero_account] by simp

lemma unat_add_no_wrap: "unat x + unat y < 2 ^ 64 \<Longrightarrow> unat (x + y :: u64) = unat x + unat y"
  by (simp add: unat_word_ariths)

lemma coins_credit:
  assumes "gmap_ok st" and "coins st + unat v < 2 ^ 64"
  shows "coins (credit a v st) = coins st + unat v"
proof -
  have "unat (acc_Balance (acct st a)) + unat v < 2 ^ 64"
    using balance_le_coins [OF assms(1), of a] assms(2) by linarith
  then show ?thesis
    using coins_gput [OF assms(1), of a "(acct st a)\<lparr>acc_Balance := acc_Balance (acct st a) + v\<rparr>"]
    by (simp add: credit_def unat_add_no_wrap)
qed

lemma coins_debit:
  assumes "gmap_ok st" and "no_wrap tx" and "tx_Amount tx + tx_Fee tx \<le> acc_Balance (acct st a)"
  shows "coins (debit tx a st) + unat (tx_Amount tx) + unat (tx_Fee tx) = coins st"
proof -
  have d: "unat (tx_Amount tx + tx_Fee tx) = unat (tx_Amount tx) + unat (tx_Fee tx)"
    using assms(2) by (simp add: no_wrap_def unat_add_no_wrap)
  have "unat (acc_Balance (acct st a) - (tx_Amount tx + tx_Fee tx)) =
      unat (acc_Balance (acct st a)) - (unat (tx_Amount tx) + unat (tx_Fee tx))"
    using unat_sub [OF assms(3)] d by simp
  moreover have "unat (tx_Amount tx) + unat (tx_Fee tx) \<le> unat (acc_Balance (acct st a))"
    using assms(3) d by (simp add: word_le_nat_alt)
  ultimately show ?thesis
    using coins_gput [OF assms(1), of a "(acct st a)\<lparr>acc_Balance := acc_Balance (acct st a) - (tx_Amount tx + tx_Fee tx),
        acc_Nonce := tx_Nonce tx\<rparr>"] by (simp add: debit_def)
qed

interpretation exact: accounting "\<lambda>st. gmap_ok st \<and> coins st < 2 ^ 64"
  "\<lambda>itx. tx_Type (snd itx) = TxTransfer \<and> no_wrap (snd itx)" "\<lambda>st. int (coins st)"
  "\<lambda>itx. - int (unat (tx_Fee (snd itx)))" "apply_tx ed p h"
  for ed :: ed25519 and p :: consensus_params and h :: u64
proof unfold_locales
  fix st st' :: ledger and itx :: "nat \<times> transaction"
  assume inv: "gmap_ok st \<and> coins st < 2 ^ 64" and ok: "tx_Type (snd itx) = TxTransfer \<and> no_wrap (snd itx)"
  assume "apply_tx ed p h itx st = (st', Inr ())"
  then show "(gmap_ok st' \<and> coins st' < 2 ^ 64) \<and>
      int (coins st') = int (coins st) + - int (unat (tx_Fee (snd itx)))"
  proof (cases rule: apply_tx_cases)
    case (transfer i tx src)
    have d: "coins (debit tx src st) + unat (tx_Amount tx) + unat (tx_Fee tx) = coins st"
      using coins_debit inv ok transfer by simp
    then have "coins st' = coins (debit tx src st) + unat (tx_Amount tx)"
      unfolding transfer(7) using inv by (intro coins_credit) simp_all
    moreover have "int (coins (debit tx src st)) + int (unat (tx_Amount tx)) + int (unat (tx_Fee tx)) = int (coins st)"
      using d by linarith
    ultimately show ?thesis using d inv transfer by simp
  qed (use ok in simp)
qed

subsection \<open>Whole blocks\<close>

lemma applyBlock_ok:
  assumes "applyBlockToState ed p b st = (st', Inr ())"
  obtains cb rest where "blk_Transactions b = cb # rest" "tx_Type cb = TxCoinbase"
    "VerifyForConsensus ed cb p (blk_Height b) = Inr ()"
    "0 < blk_Height b \<Longrightarrow> tx_ToAddress cb = blk_MinerAddress b"
    "0 < blk_Height b \<Longrightarrow> tx_Amount cb = BlockReward (cp_MonetaryPolicy p) (blk_Height b)
       + MinerFeeAmount (cp_MonetaryPolicy p) (block_fees b)"
    "run_all (apply_tx ed p (blk_Height b)) (enumerate 1 rest) (credit (tx_ToAddress cb) (tx_Amount cb) st) = (st', Inr ())"
proof -
  obtain cb rest where txs: "blk_Transactions b = cb # rest"
    using assms by (cases "blk_Transactions b") (auto simp: applyBlockToState_def split: if_splits)
  then have cb: "tx_Type cb = TxCoinbase"
    and hd: "0 < blk_Height b \<Longrightarrow> tx_ToAddress cb = blk_MinerAddress b \<and>
      tx_Amount cb = BlockReward (cp_MonetaryPolicy p) (blk_Height b)
       + MinerFeeAmount (cp_MonetaryPolicy p) (block_fees b)"
    and run: "run_all (apply_tx ed p (blk_Height b)) (enumerate 0 (cb # rest)) st = (st', Inr ())"
    using assms by (auto simp: applyBlockToState_def Let_def split: if_splits sum.splits)
  from run obtain s1 where s1: "apply_tx ed p (blk_Height b) (0, cb) st = (s1, Inr ())"
      "run_all (apply_tx ed p (blk_Height b)) (enumerate 1 rest) s1 = (st', Inr ())"
    by (auto split: prod.splits sum.splits)
  with cb show thesis using that txs hd by (auto simp: apply_tx_coinbase)
qed

lemma rest_transfers:
  assumes "run_all (apply_tx ed p h) (enumerate k xs) st = (st', Inr ())" and "0 < k"
  shows "\<forall>tx \<in> set xs. tx_Type tx = TxTransfer \<and> VerifyForConsensus ed tx p h = Inr ()"
  using assms
proof (induction xs arbitrary: k st)
  case (Cons x xs)
  from Cons.prems(1) obtain s1 where s1: "apply_tx ed p h (k, x) st = (s1, Inr ())"
      "run_all (apply_tx ed p h) (enumerate (Suc k) xs) s1 = (st', Inr ())"
    by (auto split: prod.splits sum.splits)
  from s1(1) have "tx_Type x = TxTransfer \<and> VerifyForConsensus ed x p h = Inr ()"
    by (cases rule: apply_tx_cases) (use Cons.prems(2) in auto)
  with Cons.IH [OF s1(2)] show ?case by simp
qed simp

text \<open>The fees of a list of transfers.\<close>

definition fee_sum :: "transaction list \<Rightarrow> u64" where
  "fee_sum txs = sum_list (map tx_Fee txs)"

lemma block_fees_eq:
  assumes "blk_Transactions b = cb # rest" and "\<forall>tx \<in> set rest. tx_Type tx = TxTransfer"
  shows "block_fees b = fee_sum rest"
proof -
  have "fold (\<lambda>tx fees. if tx_Type tx \<noteq> TxTransfer then fees else fees + tx_Fee tx) rest z = z + fee_sum rest" for z
    using assms(2) by (induction rest arbitrary: z) (auto simp: fee_sum_def add.assoc)
  then show ?thesis by (simp add: block_fees_def assms(1))
qed

lemma map_snd_enumerate [simp]: "map (\<lambda>itx. f (snd itx)) (enumerate k xs) = map f xs"
  by (induction xs arbitrary: k) auto

lemma delta_sum:
  assumes "\<forall>tx \<in> set rest. tx_Type tx = TxTransfer"
  shows "sum_list (map tx_delta rest) = - fee_sum rest"
  using assms by (induction rest) (auto simp: tx_delta_def fee_sum_def)

lemma block_supply:
  assumes "applyBlockToState ed p b st = (st', Inr ())" and "gmap_ok st"
  shows "gmap_ok st' \<and> TotalSupply st' = TotalSupply st + tx_Amount (hd (blk_Transactions b)) - block_fees b"
proof -
  from assms(1) obtain cb rest where b: "blk_Transactions b = cb # rest"
    and run: "run_all (apply_tx ed p (blk_Height b)) (enumerate 1 rest) (credit (tx_ToAddress cb) (tx_Amount cb) st) = (st', Inr ())"
    by (rule applyBlock_ok)
  note tr = rest_transfers [OF run]
  have "gmap_ok st' \<and> TotalSupply st' = TotalSupply (credit (tx_ToAddress cb) (tx_Amount cb) st) +
      sum_list (map (\<lambda>itx. tx_delta (snd itx)) (enumerate 1 rest))"
    by (rule coins.run_all_total [OF _ _ run]) (simp_all add: assms(2))
  then show ?thesis
    using tr by (simp add: delta_sum TotalSupply_credit assms(2) b block_fees_eq [OF b])
qed

lemma enumerate_fees:
  "(\<Sum>itx \<leftarrow> enumerate k txs. - uint (tx_Fee (snd itx))) = - (\<Sum>tx \<leftarrow> txs. uint (tx_Fee tx))"
  by (induction txs arbitrary: k) auto

lemma block_coins:
  assumes "applyBlockToState ed p b st = (st', Inr ())" and "gmap_ok st"
    and "coins st + unat (tx_Amount (hd (blk_Transactions b))) < 2 ^ 64"
    and "\<forall>tx \<in> set (tl (blk_Transactions b)). no_wrap tx"
  shows "int (coins st') = int (coins st) + int (unat (tx_Amount (hd (blk_Transactions b))))
      - (\<Sum>tx \<leftarrow> tl (blk_Transactions b). int (unat (tx_Fee tx))) \<and> coins st' < 2 ^ 64"
proof -
  from assms(1) obtain cb rest where b: "blk_Transactions b = cb # rest"
    and run: "run_all (apply_tx ed p (blk_Height b)) (enumerate 1 rest) (credit (tx_ToAddress cb) (tx_Amount cb) st) = (st', Inr ())"
    by (rule applyBlock_ok)
  have c: "coins (credit (tx_ToAddress cb) (tx_Amount cb) st) = coins st + unat (tx_Amount cb)"
    using assms(2,3) b by (intro coins_credit) simp_all
  have "\<forall>itx \<in> set (enumerate 1 rest). tx_Type (snd itx) = TxTransfer \<and> no_wrap (snd itx)"
    using rest_transfers [OF run] assms(4) b by (force simp: in_set_enumerate_eq)
  from exact.run_all_total [OF _ this run] show ?thesis
    using assms(2,3) c b by (simp add: enumerate_fees)
qed

text \<open>Transfers sent by one account.\<close>

definition sent_by :: "string \<Rightarrow> transaction list \<Rightarrow> nat" where
  "sent_by a txs = length (filter (\<lambda>tx. FromAddress tx = Inr a) txs)"

lemma sent_by_sum:
  "(\<Sum>itx \<leftarrow> enumerate k txs. if FromAddress (snd itx) = Inr a then 1 else 0) = (word_of_nat (sent_by a txs) :: u64)"
  by (induction txs arbitrary: k) (auto simp: sent_by_def)

lemma run_all_enum_split:
  "run_all act (enumerate k (pre @ post)) s = (s', Inr ()) \<Longrightarrow>
   \<exists>s1. run_all act (enumerate k pre) s = (s1, Inr ()) \<and>
     run_all act (enumerate (k + length pre) post) s1 = (s', Inr ())"
  by (auto simp: enumerate_append_eq run_all_append split: prod.splits sum.splits)

text \<open>After a block the sender of a transfer has at least its nonce.\<close>

lemma block_nonce_after:
  assumes "applyBlockToState ed p b st = (st', Inr ())" and "tx \<in> set (tl (blk_Transactions b))"
    and "FromAddress tx = Inr a"
  shows "\<exists>c < length (blk_Transactions b). acc_Nonce (acct st' a) = tx_Nonce tx + word_of_nat c"
proof -
  from assms(1) obtain cb rest where b: "blk_Transactions b = cb # rest"
    and run: "run_all (apply_tx ed p (blk_Height b)) (enumerate 1 rest) (credit (tx_ToAddress cb) (tx_Amount cb) st) = (st', Inr ())"
    by (rule applyBlock_ok)
  from assms(2) b obtain pre post where rest: "rest = pre @ tx # post"
    by (auto dest: split_list)
  from run_all_enum_split [OF run [unfolded rest]] obtain s1 where
    "run_all (apply_tx ed p (blk_Height b)) (enumerate (1 + length pre) (tx # post)) s1 = (st', Inr ())" by blast
  then obtain s2 where s2: "apply_tx ed p (blk_Height b) (1 + length pre, tx) s1 = (s2, Inr ())"
      "run_all (apply_tx ed p (blk_Height b)) (enumerate (Suc (1 + length pre)) post) s2 = (st', Inr ())"
    by (auto split: prod.splits sum.splits)
  from s2(1) have n: "acc_Nonce (acct s2 a) = tx_Nonce tx"
    by (cases rule: apply_tx_cases) (use assms(3) in \<open>auto simp: acct_credit debit_def\<close>)
  from nonces.run_all_total [OF _ _ s2(2), of a] n
  have "acc_Nonce (acct st' a) = tx_Nonce tx + word_of_nat (sent_by a post)"
    by (simp add: sent_by_sum)
  moreover have "sent_by a post < length (blk_Transactions b)"
    by (simp add: b rest sent_by_def le_imp_less_Suc trans_le_add2 le_SucI length_filter_le)
  ultimately show ?thesis by blast
qed

text \<open>The nonce of an account over a whole chain of blocks.\<close>

lemma block_nonces:
  assumes "applyBlockToState ed p b st = (st', Inr ())"
  shows "acc_Nonce (acct st' a) = acc_Nonce (acct st a) + word_of_nat (sent_by a (blk_Transactions b))"
proof -
  from assms obtain cb rest where b: "blk_Transactions b = cb # rest" "tx_Type cb = TxCoinbase"
    and run: "run_all (apply_tx ed p (blk_Height b)) (enumerate 1 rest) (credit (tx_ToAddress cb) (tx_Amount cb) st) = (st', Inr ())"
    by (rule applyBlock_ok)
  from nonces.run_all_total [OF _ _ run, of a] show ?thesis
    using b by (auto simp: sent_by_sum acct_credit sent_by_def FromAddress_def [of cb])
qed

interpretation chain_nonces: accounting "\<lambda>_. True" "\<lambda>_. True" "\<lambda>st. acc_Nonce (acct st a)"
  "\<lambda>b. word_of_nat (sent_by a (blk_Transactions b))" "applyBlockToState ed p"
  for a :: string and ed :: ed25519 and p :: consensus_params
  by unfold_locales (simp add: block_nonces)

interpretation chain_coins: accounting gmap_ok "\<lambda>_. True" TotalSupply
  "\<lambda>b. tx_Amount (hd (blk_Transactions b)) - block_fees b" "applyBlockToState ed p"
  for ed :: ed25519 and p :: consensus_params
  by unfold_locales (simp add: block_supply)

lemma nonce_gone:
  assumes "c + 1 < 2 ^ 64" and "FromAddress tx = Inr a"
    and "acc_Nonce (acct st a) = tx_Nonce tx + word_of_nat c"
  shows "snd (apply_tx ed p h (i, tx) st) \<noteq> Inr ()"
proof
  assume "snd (apply_tx ed p h (i, tx) st) = Inr ()"
  then obtain st' where "apply_tx ed p h (i, tx) st = (st', Inr ())" by (cases "apply_tx ed p h (i, tx) st") auto
  then have "tx_Nonce tx = acc_Nonce (acct st a) + 1"
    by (cases rule: apply_tx_cases) (use assms(2) in \<open>auto simp: FromAddress_def\<close>)
  with assms(3) have "word_of_nat (c + 1) = (0 :: u64)" by (simp add: add.commute)
  then have "2 ^ 64 dvd c + 1" by (simp only: word_of_nat_eq_0_iff) simp
  with assms(1) show False by (auto dest: dvd_imp_le)
qed

subsection \<open>Accounts a block may change\<close>

definition collectAccountsForBlock :: "block \<Rightarrow> string list" where
  "collectAccountsForBlock b = map fst (fold (\<lambda>tx (m :: (string, unit) gomap).
     let m1 = gput (tx_ToAddress tx) () m in
     if tx_Type tx = TxTransfer then
       (case FromAddress tx of Inr src \<Rightarrow> gput src () m1 | Inl _ \<Rightarrow> m1)
     else m1) (blk_Transactions b) [])"

definition tx_accounts :: "transaction \<Rightarrow> string set" where
  "tx_accounts tx = insert (tx_ToAddress tx) (case FromAddress tx of Inr a \<Rightarrow> {a} | Inl _ \<Rightarrow> {})"

lemma set_collectAccountsForBlock:
  "set (collectAccountsForBlock b) = (\<Union>tx \<in> set (blk_Transactions b). tx_accounts tx)"
proof -
  have "fst ` set (fold (\<lambda>tx (m :: (string, unit) gomap).
     let m1 = gput (tx_ToAddress tx) () m in
     if tx_Type tx = TxTransfer then
       (case FromAddress tx of Inr src \<Rightarrow> gput src () m1 | Inl _ \<Rightarrow> m1)
     else m1) txs m0) = (\<Union>tx \<in> set txs. tx_accounts tx) \<union> fst ` set m0" for txs m0
    by (induction txs arbitrary: m0)
      (auto simp: Let_def keys_gput tx_accounts_def FromAddress_def split: sum.splits if_splits)
  from this [of "blk_Transactions b" "[]"] show ?thesis by (simp add: collectAccountsForBlock_def)
qed

lemma apply_tx_frame:
  "a \<notin> tx_accounts (snd itx) \<Longrightarrow> acct (fst (apply_tx ed p h itx st)) a = acct st a"
  by (auto simp: apply_tx_def Let_def acct_credit tx_accounts_def split: sum.splits)

lemma run_all_frame:
  assumes "\<And>x s. x \<in> set xs \<Longrightarrow> f (fst (act x s)) = f s"
  shows "f (fst (run_all act xs s)) = f s"
  using assms
proof (induction xs arbitrary: s)
  case (Cons x xs)
  have "f (fst (act x s)) = f s" by (rule Cons.prems) simp
  moreover have "f (fst (run_all act xs s')) = f s'" for s' by (rule Cons.IH) (simp add: Cons.prems)
  ultimately show ?case by (cases "act x s") (auto split: sum.splits)
qed simp

subsection \<open>Selection\<close>

text \<open>The transactions kept for a sender can be applied one after the other.\<close>

lemma validate_loop_applies:
  assumes "\<forall>e \<in> set txs. tx_ChainID (sel_tx e) \<noteq> 0 \<and> tx_Type (sel_tx e) = TxTransfer \<and>
      FromAddress (sel_tx e) = Inr addr"
    and "nonce = acc_Nonce (acct st addr)"
  shows "snd (run_all (apply_tx ed p h)
    (enumerate k (map sel_tx (validate_loop ed chainID p h addr nonce st txs))) st) = Inr ()"
  using assms
proof (induction txs arbitrary: nonce st k)
  case (Cons e txs)
  let ?tx = "sel_tx e"
  have e: "tx_ChainID ?tx \<noteq> 0" "tx_Type ?tx = TxTransfer" "FromAddress ?tx = Inr addr"
    using Cons.prems by auto
  show ?case
  proof (cases "VerifyForConsensus ed ?tx p h = Inr () \<and> tx_Nonce ?tx = nonce + 1 \<and>
      tx_Amount ?tx + tx_Fee ?tx \<le> acc_Balance (acct st addr)")
    case True
    let ?st = "credit (tx_ToAddress ?tx) (tx_Amount ?tx) (debit ?tx addr st)"
    have step: "apply_tx ed p h (k, ?tx) st = (?st, Inr ())"
      using True e Cons.prems(2) by (subst apply_tx_transfer) auto
    have "snd (run_all (apply_tx ed p h)
        (enumerate (Suc k) (map sel_tx (validate_loop ed chainID p h addr (tx_Nonce ?tx) ?st txs))) ?st) = Inr ()"
      using Cons.prems(1) by (intro Cons.IH) (auto simp: debit_def acct_credit)
    moreover have "\<not> acc_Balance (acct st addr) < tx_Amount ?tx + tx_Fee ?tx"
      using True by (simp add: not_less)
    ultimately show ?thesis
      using True e step by (simp add: Let_def debit_def)
  next
    case False
    then have "validate_loop ed chainID p h addr nonce st (e # txs) = validate_loop ed chainID p h addr nonce st txs"
      using e by (auto simp: Let_def not_le split: sum.splits)
    with Cons show ?thesis by simp
  qed
qed simp

subsection \<open>Properties\<close>

text \<open>C6. Conservation of supply: a block that applies changes the 64-bit total of all balances by
  exactly the coinbase amount minus the fees of its transfers, whatever wraps around on the
  way; above the genesis block the coinbase is the block reward plus the miner's share.\<close>

theorem block_conserves_supply:
  assumes "applyBlockToState ed p b st = (st', Inr ())" and "gmap_ok st" and "0 < blk_Height b"
  shows "TotalSupply st' = TotalSupply st + BlockReward (cp_MonetaryPolicy p) (blk_Height b)
      - (block_fees b - MinerFeeAmount (cp_MonetaryPolicy p) (block_fees b))"
proof -
  from assms(1) obtain cb rest where "blk_Transactions b = cb # rest"
    "tx_Amount cb = BlockReward (cp_MonetaryPolicy p) (blk_Height b) + MinerFeeAmount (cp_MonetaryPolicy p) (block_fees b)"
    using assms(3) by (auto elim!: applyBlock_ok)
  then show ?thesis
    using block_supply [OF assms(1,2)] by (simp add: algebra_simps)
qed

text \<open>A block with a reward only, mined on an empty ledger.\<close>

definition reward_block :: block where
  "reward_block = demo_block\<lparr>blk_Transactions := [
     \<lparr>tx_Type = TxCoinbase, tx_ChainID = 3, tx_FromPubKey = None,
      tx_ToAddress = GenerateAddress (replicate 32 3), tx_Amount = 50, tx_Fee = 0, tx_Nonce = 0,
      tx_Data = [], tx_Signature = None\<rparr>]\<rparr>"

definition roomy_params :: consensus_params where
  "roomy_params = smoke_params\<lparr>cp_MaxBlockSize := 0\<rparr>"

lemma reward_block_applies:
  "applyBlockToState (\<lambda>_ _ _. True) roomy_params reward_block [] =
     ([(GenerateAddress (replicate 32 3), \<lparr>acc_Balance = 50, acc_Nonce = 0\<rparr>)], Inr ())"
  by (simp add: applyBlockToState_def reward_block_def demo_block_def roomy_params_def smoke_params_def
      block_fees_def BlockReward_def MinerFeeAmount_def apply_tx_def VerifyForConsensus_def Verify_def
      verify_coinbase_def credit_def gput_def zero_account_def Let_def)

theorem block_conserves_supply_witness:
  "TotalSupply [(GenerateAddress (replicate 32 3), \<lparr>acc_Balance = 50, acc_Nonce = 0\<rparr>)] =
   TotalSupply [] + BlockReward (cp_MonetaryPolicy roomy_params) 7
     - (block_fees reward_block - MinerFeeAmount (cp_MonetaryPolicy roomy_params) (block_fees reward_block))"
  using block_conserves_supply [OF reward_block_applies] by (simp add: reward_block_def demo_block_def)

text \<open>Conservation of coins: if the coins fit in 64 bits together with the coinbase and no
  transfer has a debit that wraps around, then the sum of all balances, as a number, changes
  by the coinbase minus the fees; it stays below 2 to the 64.\<close>

theorem block_conserves_coins:
  assumes "applyBlockToState ed p b st = (st', Inr ())" and "gmap_ok st"
    and "coins st + unat (tx_Amount (hd (blk_Transactions b))) < 2 ^ 64"
    and "\<forall>tx \<in> set (tl (blk_Transactions b)). no_wrap tx"
  shows "int (coins st') = int (coins st) + int (unat (tx_Amount (hd (blk_Transactions b))))
      - (\<Sum>tx \<leftarrow> tl (blk_Transactions b). int (unat (tx_Fee tx))) \<and> coins st' < 2 ^ 64"
  using assms by (rule block_coins)

theorem block_conserves_coins_witness:
  "int (coins [(GenerateAddress (replicate 32 3), \<lparr>acc_Balance = 50, acc_Nonce = 0\<rparr>)]) = int (coins []) + 50"
  using block_conserves_coins [OF reward_block_applies]
  by (simp add: reward_block_def coins_def)

text \<open>C38. The no-wrap condition is needed: a transfer whose amount plus fee is 0 modulo 2 to the 64
  passes the balance check of an account with any balance, even 0, and creates its whole amount
  out of nothing.\<close>

theorem wraparound_mints:
  assumes "tx_Type tx = TxTransfer" and "VerifyForConsensus ed tx p h = Inr ()" and "FromAddress tx = Inr a"
    and "tx_Nonce tx = acc_Nonce (acct st a) + 1" and "tx_Amount tx + tx_Fee tx = 0"
    and "gmap_ok st" and "coins st + unat (tx_Amount tx) < 2 ^ 64"
  shows "\<exists>st'. apply_tx ed p h (i, tx) st = (st', Inr ()) \<and> coins st' = coins st + unat (tx_Amount tx)"
proof -
  let ?st = "debit tx a st"
  have "coins ?st = coins st"
    using coins_gput [OF assms(6), of a "(acct st a)\<lparr>acc_Balance := acc_Balance (acct st a) - (tx_Amount tx + tx_Fee tx),
        acc_Nonce := tx_Nonce tx\<rparr>"] assms(5) by (simp add: debit_def)
  then have "coins (credit (tx_ToAddress tx) (tx_Amount tx) ?st) = coins st + unat (tx_Amount tx)"
    using coins_credit [of ?st "tx_Amount tx" "tx_ToAddress tx"] assms(6,7) by simp
  moreover have "apply_tx ed p h (i, tx) st = (credit (tx_ToAddress tx) (tx_Amount tx) ?st, Inr ())"
    using assms by (subst apply_tx_transfer) auto
  ultimately show ?thesis by blast
qed

definition minting_tx :: transaction where
  "minting_tx = demo_tx\<lparr>tx_Amount := 18446744073709551615, tx_Fee := 1\<rparr>"

lemma demo_tx_verifies:
  "a \<noteq> 0 \<Longrightarrow> n \<noteq> 0 \<Longrightarrow>
   VerifyForConsensus (\<lambda>_ _ _. True) (demo_tx\<lparr>tx_Amount := a, tx_Fee := f, tx_Nonce := n\<rparr>) smoke_params h = Inr ()"
  by (simp add: VerifyForConsensus_def verify_transfer_def demo_tx_def txSigningHashForConsensus_def
      BinaryEncodingActive_def smoke_params_def signingHashLegacyJSON_def FromAddress_def
      verifyWithSigningHash_def crypto_Verify_def)

theorem wraparound_mints_witness:
  "\<exists>st'. apply_tx (\<lambda>_ _ _. True) smoke_params 1 (1, minting_tx) [] = (st', Inr ()) \<and>
     coins st' = 18446744073709551615"
proof -
  have t: "minting_tx = demo_tx\<lparr>tx_Amount := 18446744073709551615, tx_Fee := 1, tx_Nonce := 1\<rparr>"
    by (simp add: minting_tx_def demo_tx_def)
  have "VerifyForConsensus (\<lambda>_ _ _. True) minting_tx smoke_params 1 = Inr ()"
    unfolding t by (rule demo_tx_verifies) simp_all
  then show ?thesis
    using wraparound_mints [of minting_tx "\<lambda>_ _ _. True" smoke_params 1 _ "[]" 1]
    by (simp add: minting_tx_def demo_tx_def FromAddress_def coins_def)
qed

lemma run_all_split:
  "run_all act (xs @ x # ys) s = (s', Inr ()) \<Longrightarrow>
   \<exists>s1 s2. act x s1 = (s2, Inr ()) \<and> run_all act ys s2 = (s', Inr ())"
  by (auto simp: run_all_append split: prod.splits sum.splits)

lemma sent_by_chain: "(\<Sum>b \<leftarrow> bs. word_of_nat (sent_by a (blk_Transactions b))) =
    (word_of_nat (\<Sum>b \<leftarrow> bs. sent_by a (blk_Transactions b)) :: u64)"
  by (induction bs) auto

lemma sent_by_le: "(\<Sum>b \<leftarrow> bs. sent_by a (blk_Transactions b)) \<le> (\<Sum>b \<leftarrow> bs. length (blk_Transactions b))"
  by (intro sum_list_mono) (simp add: sent_by_def)

lemma spent_for_ever:
  assumes "run_all (applyBlockToState ed p) blocks st = (st', Inr ())"
    and "b \<in> set blocks" and "tx \<in> set (tl (blk_Transactions b))"
    and "(\<Sum>b \<leftarrow> blocks. length (blk_Transactions b)) < 2 ^ 64"
  shows "snd (apply_tx ed' p' h (i, tx) st') \<noteq> Inr ()"
proof -
  from assms(2) obtain pre post where bs: "blocks = pre @ b # post" by (auto dest: split_list)
  from run_all_split [OF assms(1) [unfolded bs]] obtain s1 s2 where
    s: "applyBlockToState ed p b s1 = (s2, Inr ())" "run_all (applyBlockToState ed p) post s2 = (st', Inr ())"
    by blast
  from s(1) obtain cb rest where "blk_Transactions b = cb # rest"
    and run: "run_all (apply_tx ed p (blk_Height b)) (enumerate 1 rest) (credit (tx_ToAddress cb) (tx_Amount cb) s1) = (s2, Inr ())"
    by (rule applyBlock_ok)
  with assms(3) rest_transfers [OF run] have "tx_Type tx = TxTransfer" "VerifyForConsensus ed tx p (blk_Height b) = Inr ()"
    by auto
  then obtain a where a: "FromAddress tx = Inr a"
    by (auto simp: VerifyForConsensus_def verify_transfer_def FromAddress_def rbind_Inr_iff split: if_splits)
  obtain c where c: "c < length (blk_Transactions b)" "acc_Nonce (acct s2 a) = tx_Nonce tx + word_of_nat c"
    using block_nonce_after [OF s(1) assms(3) a] by blast
  let ?d = "\<Sum>b \<leftarrow> post. sent_by a (blk_Transactions b)"
  have "acc_Nonce (acct st' a) = tx_Nonce tx + word_of_nat (c + ?d)"
    using chain_nonces.run_all_total [OF _ _ s(2), of a] c(2) by (simp add: sent_by_chain add.assoc)
  moreover have "c + ?d + 1 < 2 ^ 64"
    using assms(4) c(1) sent_by_le [of a post] by (simp add: bs)
  ultimately show ?thesis by (intro nonce_gone [OF _ a])
qed

text \<open>C1. No double spending: once a transfer is in a chain of blocks that applies, the resulting
  state rejects it for ever, under any parameters and at any position (the chain having fewer
  than 2 to the 64 transactions).\<close>

theorem chain_no_replay:
  assumes "run_all (applyBlockToState ed p) blocks st = (st', Inr ())"
    and "b \<in> set blocks" and "tx \<in> set (tl (blk_Transactions b))"
    and "(\<Sum>b \<leftarrow> blocks. length (blk_Transactions b)) < 2 ^ 64"
  shows "snd (apply_tx ed' p' h (i, tx) st') \<noteq> Inr ()"
  using assms by (rule spent_for_ever)

definition self_tx :: transaction where
  "self_tx = demo_tx\<lparr>tx_ToAddress := GenerateAddress (replicate 32 1)\<rparr>"

definition transfer_block :: block where
  "transfer_block = demo_block\<lparr>blk_MinerAddress := GenerateAddress (replicate 32 1), blk_Transactions := [
     \<lparr>tx_Type = TxCoinbase, tx_ChainID = 3, tx_FromPubKey = None,
      tx_ToAddress = GenerateAddress (replicate 32 1), tx_Amount = 51, tx_Fee = 0, tx_Nonce = 0,
      tx_Data = [], tx_Signature = None\<rparr>, self_tx]\<rparr>"

lemma self_tx_verifies: "VerifyForConsensus (\<lambda>_ _ _. True) self_tx roomy_params h = Inr ()"
  by (simp add: VerifyForConsensus_def verify_transfer_def self_tx_def demo_tx_def txSigningHashForConsensus_def
      BinaryEncodingActive_def roomy_params_def smoke_params_def signingHashLegacyJSON_def FromAddress_def
      verifyWithSigningHash_def crypto_Verify_def)

lemma transfer_block_applies:
  "applyBlockToState (\<lambda>_ _ _. True) roomy_params transfer_block [] =
     ([(GenerateAddress (replicate 32 1), \<lparr>acc_Balance = 50, acc_Nonce = 1\<rparr>)], Inr ())"
proof -
  have "block_fees transfer_block = 1"
    by (simp add: block_fees_def transfer_block_def self_tx_def demo_tx_def)
  moreover have "BlockReward (cp_MonetaryPolicy roomy_params) 7 + MinerFeeAmount (cp_MonetaryPolicy roomy_params) 1 = 51"
    by (simp add: roomy_params_def smoke_params_def BlockReward_def MinerFeeAmount_def)
  moreover have "apply_tx (\<lambda>_ _ _. True) roomy_params 7 (1, self_tx)
      [(GenerateAddress (replicate 32 1), \<lparr>acc_Balance = 51, acc_Nonce = 0\<rparr>)] =
      ([(GenerateAddress (replicate 32 1), \<lparr>acc_Balance = 50, acc_Nonce = 1\<rparr>)], Inr ())"
    by (simp add: apply_tx_def self_tx_verifies)
      (simp add: self_tx_def demo_tx_def FromAddress_def acct_def gget_def credit_def gput_def Let_def)
  ultimately show ?thesis
    by (simp add: applyBlockToState_def transfer_block_def demo_block_def)
      (simp add: roomy_params_def smoke_params_def apply_tx_def [of _ _ _ "(0, _)"] VerifyForConsensus_def Verify_def
      verify_coinbase_def credit_def gput_def zero_account_def Let_def)
qed

theorem chain_no_replay_witness:
  "snd (apply_tx (\<lambda>_ _ _. True) roomy_params 8 (1, self_tx)
     [(GenerateAddress (replicate 32 1), \<lparr>acc_Balance = 50, acc_Nonce = 1\<rparr>)]) \<noteq> Inr ()"
  using chain_no_replay [of "\<lambda>_ _ _. True" roomy_params "[transfer_block]" "[]" _ transfer_block self_tx]
  by (simp add: transfer_block_applies) (simp add: transfer_block_def)

text \<open>What acceptance means: the block fits the size limit, its first transaction is its only
  coinbase and verifies, above genesis it pays exactly reward plus miner fees to the miner's
  address, and every other transaction is a transfer whose signature verifies.\<close>

theorem accepted_block_shape:
  assumes "applyBlockToState ed p b st = (st', Inr ())"
  shows "(cp_MaxBlockSize p = 0 \<or> length (block_json b) \<le> unat (cp_MaxBlockSize p)) \<and>
    (\<exists>cb rest. blk_Transactions b = cb # rest \<and> tx_Type cb = TxCoinbase \<and>
      VerifyForConsensus ed cb p (blk_Height b) = Inr () \<and>
      (blk_Height b = 0 \<or> tx_ToAddress cb = blk_MinerAddress b \<and>
        tx_Amount cb = BlockReward (cp_MonetaryPolicy p) (blk_Height b)
          + MinerFeeAmount (cp_MonetaryPolicy p) (fee_sum rest)) \<and>
      (\<forall>tx \<in> set rest. tx_Type tx = TxTransfer \<and> VerifyForConsensus ed tx p (blk_Height b) = Inr ()))"
proof -
  have "cp_MaxBlockSize p = 0 \<or> length (block_json b) \<le> unat (cp_MaxBlockSize p)"
    using assms by (auto simp: applyBlockToState_def word_neq_0_conv [symmetric] not_less split: if_splits)
  moreover from assms obtain cb rest where b: "blk_Transactions b = cb # rest" "tx_Type cb = TxCoinbase"
    "VerifyForConsensus ed cb p (blk_Height b) = Inr ()"
    "0 < blk_Height b \<Longrightarrow> tx_ToAddress cb = blk_MinerAddress b"
    "0 < blk_Height b \<Longrightarrow> tx_Amount cb = BlockReward (cp_MonetaryPolicy p) (blk_Height b)
       + MinerFeeAmount (cp_MonetaryPolicy p) (block_fees b)"
    and run: "run_all (apply_tx ed p (blk_Height b)) (enumerate 1 rest) (credit (tx_ToAddress cb) (tx_Amount cb) st) = (st', Inr ())"
    by (rule applyBlock_ok) blast
  note tr = rest_transfers [OF run]
  have "block_fees b = fee_sum rest" by (rule block_fees_eq [OF b(1)]) (use tr in simp)
  with b tr show ?thesis
    using calculation by (auto simp: word_neq_0_conv)
qed

theorem accepted_block_shape_witness:
  "\<exists>cb rest. blk_Transactions transfer_block = cb # rest \<and> tx_Type cb = TxCoinbase"
  using accepted_block_shape [OF transfer_block_applies] by blast

text \<open>A block changes only accounts that \<^verbatim>\<open>collectAccountsForBlock\<close> lists, even when it is
  rejected half way: the locks taken for a block cover everything it writes.\<close>

theorem block_writes_collected:
  assumes "a \<notin> set (collectAccountsForBlock b)"
  shows "acct (fst (applyBlockToState ed p b st)) a = acct st a"
proof -
  have "acct (fst (run_all (apply_tx ed p (blk_Height b)) (enumerate 0 (blk_Transactions b)) st)) a = acct st a"
    using assms by (intro run_all_frame [of _ "\<lambda>st. acct st a"] apply_tx_frame)
      (force simp: set_collectAccountsForBlock in_set_enumerate_eq)
  then show ?thesis
    by (auto simp: applyBlockToState_def Let_def split: sum.splits)
qed

theorem block_writes_collected_witness:
  "acct (fst (applyBlockToState (\<lambda>_ _ _. True) roomy_params transfer_block [])) ''NEO'' = acct [] ''NEO''"
proof (rule block_writes_collected)
  have "GenerateAddress (replicate 32 1) \<noteq> ''NEO''"
    using length_GenerateAddress [of "replicate 32 1"] by (auto simp del: length_GenerateAddress)
  then show "''NEO'' \<notin> set (collectAccountsForBlock transfer_block)"
    by (auto simp: set_collectAccountsForBlock transfer_block_def self_tx_def demo_tx_def tx_accounts_def
        FromAddress_def)
qed

text \<open>The transactions \<^verbatim>\<open>validateTxsForSender\<close> keeps for a sender apply one after the other, in
  the order returned, to the state they were checked against.\<close>

theorem validated_txs_apply:
  assumes "\<forall>e \<in> set txs. tx_ChainID (sel_tx e) \<noteq> 0 \<and> tx_Type (sel_tx e) = TxTransfer \<and>
      FromAddress (sel_tx e) = Inr addr"
  shows "snd (run_all (apply_tx ed p h)
    (enumerate 1 (map sel_tx (validateTxsForSender ed st addr txs chainID p h))) st) = Inr ()"
  unfolding validateTxsForSender_def using assms by (intro validate_loop_applies) auto

definition queue2 :: "selected_tx list" where
  "queue2 = [\<lparr>sel_tx = self_tx, sel_txIDHex = ''a''\<rparr>,
     \<lparr>sel_tx = self_tx\<lparr>tx_Nonce := 2, tx_Fee := 5\<rparr>, sel_txIDHex = ''b''\<rparr>]"

definition rich :: ledger where
  "rich = [(GenerateAddress (replicate 32 1), \<lparr>acc_Balance = 100, acc_Nonce = 0\<rparr>)]"

lemma self_tx2_verifies:
  "VerifyForConsensus (\<lambda>_ _ _. True) (self_tx\<lparr>tx_Nonce := 2, tx_Fee := 5\<rparr>) roomy_params h = Inr ()"
  by (simp add: VerifyForConsensus_def verify_transfer_def self_tx_def demo_tx_def txSigningHashForConsensus_def
      BinaryEncodingActive_def roomy_params_def smoke_params_def signingHashLegacyJSON_def FromAddress_def
      verifyWithSigningHash_def crypto_Verify_def)

lemma self_tx_fields:
  "tx_Type self_tx = TxTransfer" "tx_ChainID self_tx = 3" "tx_Nonce self_tx = 1" "tx_Fee self_tx = 1"
  "tx_Amount self_tx = 5" "tx_ToAddress self_tx = GenerateAddress (replicate 32 1)"
  "FromAddress self_tx = Inr (GenerateAddress (replicate 32 1))"
  "FromAddress (self_tx\<lparr>tx_Nonce := n, tx_Fee := f\<rparr>) = Inr (GenerateAddress (replicate 32 1))"
  by (simp_all add: self_tx_def demo_tx_def FromAddress_def)

lemma queue2_validated:
  "validateTxsForSender (\<lambda>_ _ _. True) rich (GenerateAddress (replicate 32 1)) queue2 3 roomy_params 8 = queue2"
  by (simp add: validateTxsForSender_def queue2_def rich_def self_tx_fields self_tx_verifies self_tx2_verifies
      acct_def gget_def gput_def credit_def Let_def)

theorem validated_txs_apply_witness:
  "snd (run_all (apply_tx (\<lambda>_ _ _. True) roomy_params 8) (enumerate 1 (map sel_tx queue2)) rich) = Inr ()"
  using validated_txs_apply [of queue2 "GenerateAddress (replicate 32 1)" "\<lambda>_ _ _. True" roomy_params 8 rich 3]
  unfolding queue2_validated by (simp add: queue2_def self_tx_fields)


end
