(* ===== verification/Commitment.thy ===== *)
theory Commitment
  imports Ledger "HOL-Library.List_Lexorder" "HOL-Library.Char_ord"
begin

text \<open>
  State roots: the functions of \<^verbatim>\<open>internal/blockchain/state_commitment.go\<close> that turn the account map into
  a 32-byte root.  The accounts are hashed in the order of their addresses, the list of hashes is
  padded to a power of two and hashed pairwise.  The lemmas show that this never panics, that it is
  the ordinary tree root of the padded list, and that the root binds the whole account map.
\<close>

record StateCommitment =
  cm_BlockHeight :: int
  cm_BlockHash :: string
  cm_StateRoot :: slice
  cm_UTXORoot :: slice
  cm_ReceiptRoot :: slice
  cm_TxCount :: int
  cm_StateHashes :: "(string, bytes) gomap"
  cm_Timestamp :: int

definition CommitmentInterval :: u64 where
  "CommitmentInterval = 100"

definition ShouldCommit :: "u64 \<Rightarrow> bool" where
  "ShouldCommit height \<longleftrightarrow> height = 1 \<or> height mod CommitmentInterval = 0"

definition account_message :: "string \<Rightarrow> u64 \<Rightarrow> u64 \<Rightarrow> bytes" where
  "account_message addr balance nonce = bytes_of_string addr @ le64 balance @ le64 nonce"

definition hashAccountState :: "string \<Rightarrow> u64 \<Rightarrow> u64 \<Rightarrow> bytes" where
  "hashAccountState addr balance nonce = sha256 (account_message addr balance nonce)"

text \<open>\<^verbatim>\<open>for n < len(leaves) { n *= 2 }\<close>, from 1.\<close>

function pow_up :: "nat \<Rightarrow> nat \<Rightarrow> nat" where
  "pow_up len n = (if 0 < n \<and> n < len then pow_up len (n * 2) else n)"
  by pat_completeness auto
termination
  by (relation "measure (\<lambda>(len, n). len - n)") auto

declare pow_up.simps [simp del]

definition emptyHash :: bytes where
  "emptyHash = sha256 (bytes_of_string ''empty'')"

text \<open>One level of the tree: the index \<^verbatim>\<open>i+1\<close> of an odd level is out of range (\<open>None\<close>).\<close>

fun pair_level :: "bytes list \<Rightarrow> bytes list option" where
  "pair_level [] = Some []"
| "pair_level [a] = None"
| "pair_level (a # b # r) = map_option ((#) (sha256 (a @ b))) (pair_level r)"

lemma pair_level_length: "pair_level xs = Some ys \<Longrightarrow> length xs = 2 * length ys"
  by (induction xs arbitrary: ys rule: pair_level.induct) auto

function commit_loop :: "bytes list \<Rightarrow> bytes option" where
  "commit_loop padded =
     (if 1 < length padded then (case pair_level padded of None \<Rightarrow> None | Some nxt \<Rightarrow> commit_loop nxt)
      else if padded = [] then None else Some (hd padded))"
  by pat_completeness auto
termination
  by (relation "measure length") (auto dest!: pair_level_length)

declare commit_loop.simps [simp del]

definition computeMerkleRoot :: "bytes list \<Rightarrow> bytes option" where
  "computeMerkleRoot leaves =
     (if leaves = [] then Some (sha256 [])
      else if length leaves = 1 then Some (hd leaves)
      else commit_loop (leaves @ replicate (pow_up (length leaves) 1 - length leaves) emptyHash))"

text \<open>\<^verbatim>\<open>sort.Strings\<close> sorts by bytes.\<close>

definition computeStateRoot :: "ledger \<Rightarrow> bytes option" where
  "computeStateRoot st =
     (let addrs = sort (map fst st);
          leaves = map (\<lambda>addr. hashAccountState addr (acc_Balance (acct st addr)) (acc_Nonce (acct st addr))) addrs
      in if leaves = [] then Some (sha256 []) else computeMerkleRoot leaves)"

definition computeUTXORoot :: "ledger \<Rightarrow> bytes option" where
  "computeUTXORoot st = computeStateRoot st"

definition bytesEqual :: "bytes \<Rightarrow> bytes \<Rightarrow> bool" where
  "bytesEqual a b \<longleftrightarrow> length a = length b \<and> list_all (\<lambda>i. a ! i = b ! i) [0..<length a]"

subsection \<open>The padded tree\<close>

lemma pow_up_bounds: "0 < n \<Longrightarrow> len \<le> pow_up len n"
  by (induction len n rule: pow_up.induct) (subst pow_up.simps, auto)

lemma pow_up_power: "\<exists>k. pow_up len (2 ^ j) = 2 ^ k"
proof (induction len "2 ^ j :: nat" arbitrary: j rule: pow_up.induct)
  case (1 len)
  from 1(1) [of "Suc j"] show ?case by (subst pow_up.simps) (auto simp: mult.commute)
qed

lemma pair_level_even: "even (length xs) \<Longrightarrow> pair_level xs = Some (level_up (\<lambda>a b. sha256 (a @ b)) xs)"
  by (induction xs rule: pair_level.induct) auto

text \<open>On lists whose length is a power of two the loop is the tree root of the Merkle theory.\<close>

lemma commit_loop_root: "length xs = 2 ^ k \<Longrightarrow> commit_loop xs = root_loop (\<lambda>a b. sha256 (a @ b)) xs"
proof (induction k arbitrary: xs)
  case 0
  then have "length xs = 1" by simp
  then show ?case by (cases xs) (auto simp: commit_loop.simps root_loop.simps)
next
  case (Suc k)
  then have "length (level_up (\<lambda>a b. sha256 (a @ b)) xs) = 2 ^ k" "even (length xs)" by simp_all
  moreover have "1 < length xs" using Suc.prems one_less_power [of "2::nat" "Suc k"] by simp
  ultimately show ?case
    using Suc.IH by (simp add: commit_loop.simps [of xs] root_loop.simps [of _ xs] pair_level_even)
qed

interpretation plain: node_hash sha256 "(@)"
  by unfold_locales auto

text \<open>The messages of the accounts in the order of hashing, filled up with the padding message.\<close>

definition state_leaves :: "ledger \<Rightarrow> bytes list" where
  "state_leaves st =
     map (\<lambda>addr. account_message addr (acc_Balance (acct st addr)) (acc_Nonce (acct st addr))) (sort (map fst st)) @
     replicate (pow_up (length st) 1 - length st) (bytes_of_string ''empty'')"

definition state_messages :: "ledger \<Rightarrow> bytes list" where
  "state_messages st = state_leaves st @ root_inputs (@) sha256 (map sha256 (state_leaves st))"

lemma length_state_leaves: "length (state_leaves st) = pow_up (length st) 1"
  using pow_up_bounds [of 1 "length st"] by (simp add: state_leaves_def)

lemma pow_up_1: "pow_up 1 1 = 1"
  by (subst pow_up.simps) simp

lemma root_loop_single: "root_loop nh [x] = Some x"
  by (subst root_loop.simps) simp

lemma computeStateRoot_tree:
  assumes "st \<noteq> []"
  shows "computeStateRoot st = root_loop (\<lambda>a b. sha256 (a @ b)) (map sha256 (state_leaves st))"
proof -
  let ?leaves = "map (\<lambda>addr. hashAccountState addr (acc_Balance (acct st addr)) (acc_Nonce (acct st addr))) (sort (map fst st))"
  have leaves: "map sha256 (state_leaves st) = ?leaves @ replicate (pow_up (length st) 1 - length st) emptyHash"
    by (simp add: state_leaves_def hashAccountState_def emptyHash_def)
  have len: "length (sort (map fst st)) = length st" by simp
  then have ne: "sort (map fst st) \<noteq> []" using assms by (metis length_0_conv)
  show ?thesis
  proof (cases "length st = 1")
    case True
    then obtain a where "sort (map fst st) = [a]" using len by (metis One_nat_def length_0_conv length_Suc_conv)
    with True show ?thesis
      unfolding leaves by (simp add: computeStateRoot_def computeMerkleRoot_def pow_up_1 [simplified] root_loop_single)
  next
    case False
    obtain k where "pow_up (length st) 1 = 2 ^ k" using pow_up_power [of "length st" 0] by auto
    then have "length (map sha256 (state_leaves st)) = 2 ^ k" by (simp add: length_state_leaves)
    from commit_loop_root [OF this] show ?thesis
      using False ne assms unfolding leaves by (simp add: computeStateRoot_def computeMerkleRoot_def Let_def)
  qed
qed

lemma account_message_inj:
  "account_message a b n = account_message a' b' n' \<Longrightarrow> a = a' \<and> b = b' \<and> n = n'"
  unfolding account_message_def by (auto simp: append_eq_append_conv)

lemma account_message_padding: "account_message a b n \<noteq> bytes_of_string ''empty''"
proof
  assume "account_message a b n = bytes_of_string ''empty''"
  from arg_cong [OF this, of length] show False by (simp add: account_message_def len_simps)
qed

lemma map_eq_inj2: "(\<And>a b. f a = g b \<Longrightarrow> a = b) \<Longrightarrow> map f xs = map g ys \<Longrightarrow> xs = ys"
proof (induction xs arbitrary: ys)
  case (Cons x xs)
  then show ?case by (cases ys) auto
qed simp

lemma gget_acct: "gget st a = (if a \<in> fst ` set st then Some (acct st a) else None)"
proof (cases "gget st a")
  case None
  then show ?thesis by (simp add: gget_None_iff)
next
  case (Some v)
  then have "a \<in> fst ` set st" using gget_None_iff [of st a] by auto
  with Some show ?thesis by (simp add: acct_def)
qed

lemma state_leaves_bind:
  assumes "gmap_ok st" "gmap_ok st'" "state_leaves st = state_leaves st'"
  shows "gget st a = gget st' a"
proof -
  let ?m = "\<lambda>st addr. account_message addr (acc_Balance (acct st addr)) (acc_Nonce (acct st addr))"
  have strip: "filter (\<lambda>m. m \<noteq> bytes_of_string ''empty'') (state_leaves st) = map (?m st) (sort (map fst st))" for st
    by (simp add: state_leaves_def account_message_padding filter_id_conv)
  have eq: "map (?m st) (sort (map fst st)) = map (?m st') (sort (map fst st'))"
    using assms(3) strip [of st] strip [of st'] by simp
  have addrs: "sort (map fst st) = sort (map fst st')"
    by (rule map_eq_inj2 [OF _ eq]) (auto dest: account_message_inj)
  have "acct st a = acct st' a" if "a \<in> fst ` set st"
  proof -
    have "a \<in> set (sort (map fst st))" using that by simp
    then have "?m st a = ?m st' a" using eq unfolding addrs by (meson map_eq_conv)
    from account_message_inj [OF this] show ?thesis by (cases "acct st a"; cases "acct st' a") simp
  qed
  moreover have "fst ` set st = fst ` set st'" using arg_cong [OF addrs, of set] by simp
  ultimately show ?thesis by (simp add: gget_acct)
qed

lemma state_root_bind:
  assumes "gmap_ok st" "gmap_ok st'" "pow_up (length st) 1 = pow_up (length st') 1" "st \<noteq> []" "st' \<noteq> []"
    and "computeStateRoot st = computeStateRoot st'"
  shows "(\<forall>a. gget st a = gget st' a) \<or> collides sha256 (state_messages st) (state_messages st')"
proof -
  let ?x = "map sha256 (state_leaves st)" and ?y = "map sha256 (state_leaves st')"
  have "?x = ?y \<or> collides sha256 (root_inputs (@) sha256 ?x) (root_inputs (@) sha256 ?y)"
    using assms(3,6) computeStateRoot_tree [OF assms(4)] computeStateRoot_tree [OF assms(5)]
    by (intro plain.root_loop_binds) (auto simp: length_state_leaves)
  moreover have "state_leaves st = state_leaves st' \<or> collides sha256 (state_leaves st) (state_leaves st')" if "?x = ?y"
    by (rule plain.map_hash_eq [OF that])
  ultimately show ?thesis
    using state_leaves_bind [OF assms(1,2)] by (auto simp: state_messages_def intro: collides_append)
qed

subsection \<open>Properties\<close>

text \<open>The state root is always defined and 32 bytes long: the pairwise loop never meets a level of odd
  length.  It is the tree root of the account hashes in address order, padded to a power of two.\<close>

theorem state_root_is_tree_root:
  "\<exists>root. computeStateRoot st = Some root \<and> length root = 32 \<and>
     computeStateRoot st = (if st = [] then Some (sha256 [])
       else root_loop (\<lambda>a b. sha256 (a @ b)) (map sha256 (state_leaves st)))"
proof (cases "st = []")
  case True
  then show ?thesis by (simp add: computeStateRoot_def)
next
  case False
  have "0 < length (state_leaves st)"
    using False pow_up_bounds [of 1 "length st"] by (cases st) (auto simp: length_state_leaves)
  then have "\<exists>root. root_loop (\<lambda>a b. sha256 (a @ b)) (map sha256 (state_leaves st)) = Some root \<and> length root = 32"
    using proof_loop_complete [of 0 "map sha256 (state_leaves st)" "\<lambda>a b. sha256 (a @ b)"] by auto
  with False computeStateRoot_tree [OF False] show ?thesis by auto
qed

text \<open>C16. The state root binds the accounts: two non-empty account maps with the same root and the same padded
  size agree on every address, balance and nonce, or hashing them produced a SHA-256 collision among
  the messages listed.\<close>

theorem state_root_binds:
  assumes "gmap_ok st" and "gmap_ok st'" and "st \<noteq> []" and "st' \<noteq> []"
    and "pow_up (length st) 1 = pow_up (length st') 1" and "computeStateRoot st = computeStateRoot st'"
  shows "(\<forall>a. gget st a = gget st' a) \<or> collides sha256 (state_messages st) (state_messages st')"
  using assms by (intro state_root_bind)

theorem state_root_binds_witness:
  "let st = [(''a'', \<lparr>acc_Balance = 5, acc_Nonce = 0\<rparr>), (''b'', \<lparr>acc_Balance = 7, acc_Nonce = 2\<rparr>)]
   in (\<forall>a. gget st a = gget (rev st) a) \<or> collides sha256 (state_messages st) (state_messages (rev st))"
  unfolding Let_def
  by (rule state_root_binds) (simp_all add: gmap_ok_def computeStateRoot_def acct_def gget_def)

end
