(* ===== verification/Pruner.thy ===== *)
theory Pruner
  imports Commitment
begin

text \<open>
  The interface \<^verbatim>\<open>ChainStore\<close> of \<^verbatim>\<open>internal/blockchain/boltstore.go\<close>, as a record of operations on the state
  of a store, and the pruner of \<^verbatim>\<open>pruner.go\<close> that works through it.  A store operation returns the state
  it leaves behind and its error, if any.  The lemmas compare the pruner's own replay of blocks with
  the ledger.
\<close>

subsection \<open>The store interface\<close>

record 's chain_store =
  cs_ReadCanonical :: "'s \<Rightarrow> block list res"
  cs_AppendCanonical :: "block \<Rightarrow> 's \<Rightarrow> 's \<times> unit res"
  cs_RewriteCanonical :: "block list \<Rightarrow> 's \<Rightarrow> 's \<times> unit res"
  cs_PutBlock :: "block \<Rightarrow> 's \<Rightarrow> 's \<times> unit res"
  cs_ReadAllBlocks :: "'s \<Rightarrow> (string, block) gomap res"
  cs_GetRulesHash :: "'s \<Rightarrow> bytes option res"
  cs_PutRulesHash :: "bytes \<Rightarrow> 's \<Rightarrow> 's \<times> unit res"
  cs_GetGenesisHash :: "'s \<Rightarrow> bytes option res"
  cs_PutGenesisHash :: "bytes \<Rightarrow> 's \<Rightarrow> 's \<times> unit res"
  cs_PruneBelow :: "int \<Rightarrow> 's \<Rightarrow> 's \<times> unit res"
  cs_WriteCheckpoint :: "int \<Rightarrow> ledger \<Rightarrow> 's \<Rightarrow> 's \<times> unit res"
  cs_ReadCheckpoint :: "int \<Rightarrow> 's \<Rightarrow> ledger res"
  cs_GetCheckpointHeights :: "'s \<Rightarrow> int list res"
  cs_WriteCommitment :: "StateCommitment \<Rightarrow> 's \<Rightarrow> 's \<times> unit res"
  cs_ReadCommitment :: "int \<Rightarrow> 's \<Rightarrow> StateCommitment res"

text \<open>\<^verbatim>\<open>int64(h)\<close> of an unsigned height.\<close>

definition int64_of :: "u64 \<Rightarrow> int" where
  "int64_of h = i64 (uint h)"

subsection \<open>Replaying blocks\<close>

text \<open>A transfer that cannot be debited is skipped, and so is a transaction of an unknown type.\<close>

definition pruner_tx :: "transaction \<Rightarrow> ledger \<Rightarrow> ledger" where
  "pruner_tx tx st =
     (if tx_Type tx = TxCoinbase then credit (tx_ToAddress tx) (tx_Amount tx) st
      else if tx_Type tx = TxTransfer then
        (case FromAddress tx of
           Inl _ \<Rightarrow> st
         | Inr fromAddr \<Rightarrow>
             let from = acct st fromAddr; totalDebit = tx_Amount tx + tx_Fee tx in
             if acc_Balance from < totalDebit then st
             else credit (tx_ToAddress tx) (tx_Amount tx)
                    (gput fromAddr (from\<lparr>acc_Balance := acc_Balance from - totalDebit\<rparr>) st))
      else st)"

definition applyBlockToStateFromPruner :: "block \<Rightarrow> ledger \<Rightarrow> ledger" where
  "applyBlockToStateFromPruner b st = fold pruner_tx (blk_Transactions b) st"

subsection \<open>The pruner\<close>

record pruner =
  pr_pruneDepth :: int
  pr_lastPrune :: int
  pr_checkpointInterval :: int

record chain_config =
  cfg_StoreMode :: string
  cfg_PruneDepth :: int
  cfg_CheckpointInterval :: int
  cfg_CacheMaxBlocks :: int
  cfg_CacheMaxBalances :: int
  cfg_CacheMaxProofs :: int

definition NewPruner :: "chain_config \<Rightarrow> pruner" where
  "NewPruner cfg =
     \<lparr>pr_pruneDepth = (if cfg_PruneDepth cfg = 0 then 1000 else cfg_PruneDepth cfg), pr_lastPrune = 0,
      pr_checkpointInterval = (if cfg_CheckpointInterval cfg = 0 then 100 else cfg_CheckpointInterval cfg)\<rparr>"

definition getCurrentHeight :: "'s chain_store \<Rightarrow> 's \<Rightarrow> int res" where
  "getCurrentHeight cs s = rbind (cs_GetCheckpointHeights cs s) (\<lambda>heights.
     if heights = [] then Inr 0
     else
       let maxH = last heights in
       case cs_ReadCanonical cs s of
         Inl _ \<Rightarrow> Inr maxH
       | Inr canonical \<Rightarrow>
           if canonical \<noteq> [] \<and> maxH < int64_of (blk_Height (last canonical)) then Inr (int64_of (blk_Height (last canonical)))
           else Inr maxH)"

definition ShouldPrune :: "'s chain_store \<Rightarrow> pruner \<Rightarrow> 's \<Rightarrow> bool" where
  "ShouldPrune cs pr s =
     (case getCurrentHeight cs s of
        Inl _ \<Rightarrow> False
      | Inr h \<Rightarrow> pr_pruneDepth pr < h \<and> pr_pruneDepth pr \<le> i64 (h - pr_lastPrune pr))"

definition PruneToHeight :: "'s chain_store \<Rightarrow> int \<Rightarrow> pruner \<times> 's \<Rightarrow> (pruner \<times> 's) \<times> unit res" where
  "PruneToHeight cs height ps =
     (case cs_PruneBelow cs height (snd ps) of
        (s', Inl e) \<Rightarrow> ((fst ps, s'), Inl (''prune below: '' @ e))
      | (s', Inr _) \<Rightarrow> (((fst ps)\<lparr>pr_lastPrune := height\<rparr>, s'), Inr ()))"

text \<open>The last of the sorted checkpoint heights not above the given one, 0 if there is none.\<close>

definition checkpoint_at_or_below :: "int \<Rightarrow> int list \<Rightarrow> int" where
  "checkpoint_at_or_below height heights = (case find (\<lambda>h. h \<le> height) (rev heights) of None \<Rightarrow> 0 | Some h \<Rightarrow> h)"

text \<open>Replaying the canonical blocks above \<open>lo\<close>, up to the first one above \<open>hi\<close>.\<close>

definition replay_range :: "int \<Rightarrow> int \<Rightarrow> block list \<Rightarrow> ledger \<Rightarrow> ledger" where
  "replay_range lo hi canonical st =
     fold applyBlockToStateFromPruner
       (takeWhile (\<lambda>b. int64_of (blk_Height b) \<le> hi) (filter (\<lambda>b. lo < int64_of (blk_Height b)) canonical)) st"

definition GetStateAt :: "'s chain_store \<Rightarrow> int \<Rightarrow> 's \<Rightarrow> ledger res" where
  "GetStateAt cs height s =
     (case cs_GetCheckpointHeights cs s of
        Inl e \<Rightarrow> Inl (''get checkpoint heights: '' @ e)
      | Inr heights \<Rightarrow>
          if heights = [] then Inl ''no checkpoints available''
          else
            let t0 = checkpoint_at_or_below height heights;
                t1 = (if t0 = 0 then hd heights else t0)
            in if t1 = 0 \<and> hd heights \<noteq> 0 then Inl ''no checkpoint found at or below target height''
               else (case cs_ReadCheckpoint cs t1 s of
                   Inl e \<Rightarrow> Inl (''read checkpoint: '' @ e)
                 | Inr state \<Rightarrow>
                     if t1 < height then rbind (cs_ReadCanonical cs s) (\<lambda>canonical. Inr (replay_range t1 height canonical state))
                     else Inr state))"

definition StateCheckpoint :: "'s chain_store \<Rightarrow> pruner \<Rightarrow> int \<Rightarrow> 's \<Rightarrow> 's \<times> unit res" where
  "StateCheckpoint cs pr height s =
     (if tmod height (pr_checkpointInterval pr) \<noteq> 0 then (s, Inr ())
      else
        (case cs_ReadCanonical cs s of
           Inl e \<Rightarrow> (s, Inl (''read canonical: '' @ e))
         | Inr canonical \<Rightarrow>
             let state = fold applyBlockToStateFromPruner
                   (takeWhile (\<lambda>b. int64_of (blk_Height b) \<le> height) canonical) []
             in (case cs_WriteCheckpoint cs height state s of
                   (s', Inl e) \<Rightarrow> (s', Inl (''write checkpoint: '' @ e))
                 | (s', Inr _) \<Rightarrow> (s', Inr ()))))"

definition FastSyncInit :: "'s chain_store \<Rightarrow> int \<Rightarrow> 's \<Rightarrow> ledger res" where
  "FastSyncInit cs targetHeight s =
     (case cs_GetCheckpointHeights cs s of
        Inl e \<Rightarrow> Inl (''get checkpoint heights: '' @ e)
      | Inr heights \<Rightarrow>
          if heights = [] then Inl ''no checkpoints available for fast sync''
          else
            let t0 = checkpoint_at_or_below targetHeight heights;
                t1 = (if t0 = 0 then hd heights else t0)
            in case cs_ReadCheckpoint cs t1 s of Inl e \<Rightarrow> Inl (''read checkpoint: '' @ e) | Inr state \<Rightarrow> Inr state)"

definition AutoPrune :: "'s chain_store \<Rightarrow> pruner \<times> 's \<Rightarrow> (pruner \<times> 's) \<times> unit res" where
  "AutoPrune cs ps =
     (if \<not> ShouldPrune cs (fst ps) (snd ps) then (ps, Inr ())
      else case cs_ReadCanonical cs (snd ps) of
        Inl e \<Rightarrow> (ps, Inl e)
      | Inr canonical \<Rightarrow>
          if canonical = [] then (ps, Inr ())
          else
            let depth = pr_pruneDepth (fst ps);
                pruneTo = i64 (int64_of (blk_Height (last canonical)) - depth)
            in case cs_GetCheckpointHeights cs (snd ps) of
                 Inl e \<Rightarrow> (ps, Inl e)
               | Inr checkpoints \<Rightarrow>
                   let nearest = fold (\<lambda>h acc. if h < pruneTo then h else acc) checkpoints 0;
                       pruneTo = (if 0 < nearest \<and> depth \<le> nearest then nearest else pruneTo)
                   in PruneToHeight cs pruneTo ps)"

subsection \<open>The pruner's replay and the ledger\<close>

definition agree :: "ledger \<Rightarrow> ledger \<Rightarrow> bool" where
  "agree st cp \<longleftrightarrow> (\<forall>a. acc_Balance (acct cp a) = acc_Balance (acct st a))"

lemma pruner_tx_nonce: "acc_Nonce (acct (pruner_tx tx cp) a) = acc_Nonce (acct cp a)"
  by (auto simp: pruner_tx_def acct_credit Let_def split: sum.splits)

lemma applyBlockToStateFromPruner_nonce:
  "acc_Nonce (acct (applyBlockToStateFromPruner b cp) a) = acc_Nonce (acct cp a)"
proof -
  have "acc_Nonce (acct (fold pruner_tx txs cp) a) = acc_Nonce (acct cp a)" for txs
    by (induction txs arbitrary: cp) (simp_all add: pruner_tx_nonce)
  then show ?thesis by (simp add: applyBlockToStateFromPruner_def)
qed

lemma pruner_tx_agree:
  assumes "apply_tx ed p h itx st = (st', Inr ())" and "agree st cp"
  shows "agree st' (pruner_tx (snd itx) cp)"
  using assms
proof (cases rule: apply_tx_cases)
  case (coinbase tx)
  with assms(2) show ?thesis by (simp add: agree_def pruner_tx_def acct_credit)
next
  case (transfer i tx src)
  with assms(2) show ?thesis
    by (auto simp: agree_def pruner_tx_def acct_credit debit_def Let_def not_less)
qed

lemma pruner_run_agree:
  assumes "run_all (apply_tx ed p h) (enumerate k txs) st = (st', Inr ())" and "agree st cp"
  shows "agree st' (fold pruner_tx txs cp)"
  using assms
proof (induction txs arbitrary: k st cp)
  case (Cons tx txs)
  then obtain s1 where s1: "apply_tx ed p h (k, tx) st = (s1, Inr ())"
    "run_all (apply_tx ed p h) (enumerate (Suc k) txs) s1 = (st', Inr ())"
    by (auto split: prod.splits sum.splits)
  from Cons.IH [OF s1(2)] pruner_tx_agree [OF s1(1) Cons.prems(2)] show ?case by simp
qed simp

lemma pruner_block_agree:
  assumes "applyBlockToState ed p b st = (st', Inr ())" and "agree st cp"
  shows "agree st' (applyBlockToStateFromPruner b cp)"
proof -
  from assms(1) obtain cb rest where b: "blk_Transactions b = cb # rest" "tx_Type cb = TxCoinbase"
    and run: "run_all (apply_tx ed p (blk_Height b)) (enumerate 1 rest) (credit (tx_ToAddress cb) (tx_Amount cb) st) = (st', Inr ())"
    by (rule applyBlock_ok)
  have "agree (credit (tx_ToAddress cb) (tx_Amount cb) st) (pruner_tx cb cp)"
    using assms(2) b(2) by (simp add: agree_def pruner_tx_def acct_credit)
  from pruner_run_agree [OF run this] show ?thesis by (simp add: applyBlockToStateFromPruner_def b(1))
qed

lemma pruner_chain_agree:
  assumes "run_all (applyBlockToState ed p) blocks st = (st', Inr ())" and "agree st cp"
  shows "agree st' (fold applyBlockToStateFromPruner blocks cp)"
  using assms
proof (induction blocks arbitrary: st cp)
  case (Cons b blocks)
  then obtain s1 where s1: "applyBlockToState ed p b st = (s1, Inr ())"
    "run_all (applyBlockToState ed p) blocks s1 = (st', Inr ())"
    by (auto split: prod.splits sum.splits)
  from Cons.IH [OF s1(2)] pruner_block_agree [OF s1(1) Cons.prems(2)] show ?case by simp
qed simp

lemma pruner_chain_nonce:
  "acc_Nonce (acct (fold applyBlockToStateFromPruner blocks cp) a) = acc_Nonce (acct cp a)"
  by (induction blocks arbitrary: cp) (simp_all add: applyBlockToStateFromPruner_nonce)

subsection \<open>Properties\<close>

text \<open>C18. For a chain of blocks that the ledger accepts, the pruner's replay from the empty state yields the
  ledger's balance for every account, and the nonce 0 for every account: a checkpoint written by
  the pruner keeps the balances and forgets the nonces.\<close>

theorem checkpoint_keeps_balances_only:
  assumes "run_all (applyBlockToState ed p) blocks [] = (st, Inr ())"
  shows "let cp = fold applyBlockToStateFromPruner blocks []
    in \<forall>a. acc_Balance (acct cp a) = acc_Balance (acct st a) \<and> acc_Nonce (acct cp a) = 0"
  using pruner_chain_agree [OF assms, of "[]"] pruner_chain_nonce [of blocks "[]"]
  by (simp add: agree_def)

theorem checkpoint_keeps_balances_only_witness:
  "let cp = fold applyBlockToStateFromPruner [transfer_block] []
   in acc_Balance (acct cp (GenerateAddress (replicate 32 1))) = 50 \<and> acc_Nonce (acct cp (GenerateAddress (replicate 32 1))) = 0"
proof -
  have "run_all (applyBlockToState (\<lambda>_ _ _. True) roomy_params) [transfer_block] [] =
      ([(GenerateAddress (replicate 32 1), \<lparr>acc_Balance = 50, acc_Nonce = 1\<rparr>)], Inr ())"
    by (simp add: transfer_block_applies)
  from checkpoint_keeps_balances_only [OF this] show ?thesis by (simp add: Let_def acct_def gget_def)
qed

text \<open>Replay after a restart from a checkpoint: a transfer with nonce 1 that the chain already contains, and
  whose sender can still pay it, is rejected by the ledger's state but accepted by the state a
  checkpoint restores.\<close>

theorem checkpoint_allows_replay:
  assumes "run_all (applyBlockToState ed p) blocks [] = (st, Inr ())"
    and "b \<in> set blocks" and "tx \<in> set (tl (blk_Transactions b))"
    and "(\<Sum>b \<leftarrow> blocks. length (blk_Transactions b)) < 2 ^ 64"
    and "VerifyForConsensus ed tx p h = Inr ()" and "FromAddress tx = Inr a" and "tx_Nonce tx = 1"
    and "tx_Amount tx + tx_Fee tx \<le> acc_Balance (acct st a)"
  shows "snd (apply_tx ed p h (i, tx) st) \<noteq> Inr () \<and>
    snd (apply_tx ed p h (i, tx) (fold applyBlockToStateFromPruner blocks [])) = Inr ()"
proof
  have type: "tx_Type tx = TxTransfer" using assms(6) by (auto simp: FromAddress_def split: if_splits)
  let ?cp = "fold applyBlockToStateFromPruner blocks []"
  have "acc_Balance (acct ?cp a) = acc_Balance (acct st a)" "acc_Nonce (acct ?cp a) = 0"
    using pruner_chain_agree [OF assms(1), of "[]"] pruner_chain_nonce [of blocks "[]" a] by (simp_all add: agree_def)
  then have "apply_tx ed p h (i, tx) ?cp = (credit (tx_ToAddress tx) (tx_Amount tx) (debit tx a ?cp), Inr ())"
    unfolding apply_tx_transfer [OF type] using assms by auto
  then show "snd (apply_tx ed p h (i, tx) ?cp) = Inr ()" by simp
  show "snd (apply_tx ed p h (i, tx) st) \<noteq> Inr ()"
    by (rule spent_for_ever [OF assms(1-4)])
qed

theorem checkpoint_allows_replay_witness:
  "snd (apply_tx (\<lambda>_ _ _. True) roomy_params 8 (1, self_tx) (fold applyBlockToStateFromPruner [transfer_block] [])) = Inr ()"
proof -
  have run: "run_all (applyBlockToState (\<lambda>_ _ _. True) roomy_params) [transfer_block] [] =
      ([(GenerateAddress (replicate 32 1), \<lparr>acc_Balance = 50, acc_Nonce = 1\<rparr>)], Inr ())"
    by (simp add: transfer_block_applies)
  have "self_tx \<in> set (tl (blk_Transactions transfer_block))" by (simp add: transfer_block_def)
  then show ?thesis
    using checkpoint_allows_replay [OF run, of transfer_block self_tx 8 "GenerateAddress (replicate 32 1)" 1] self_tx_verifies
    by (simp add: self_tx_fields transfer_block_def FromAddress_def acct_def gget_def)
      (simp add: self_tx_def demo_tx_def)
qed

end
