(* ===== verification/Orphans.thy ===== *)
theory Orphans
  imports Chain_Types
begin

text \<open>
  The pool of blocks whose parent is unknown, \<^verbatim>\<open>internal/blockchain/orphans.go\<close>: a map by hash and a
  list of hashes in order of arrival.  Removing a block leaves its hash in the list; the lemmas
  show what survives this: every pooled block stays listed, so trimming always ends, but the
  capacity test of \<^verbatim>\<open>AddBlock\<close> may evict nothing.
\<close>

record orphanBlock =
  ob_block :: block
  ob_addedAt :: int

text \<open>The front of \<^verbatim>\<open>heightList\<close> is the head of the list.\<close>

record orphanPool =
  op_blocks :: "(string, orphanBlock) gomap"
  op_heightList :: "string list"
  op_maxOrphans :: int

definition newOrphanPool :: "int \<Rightarrow> orphanPool" where
  "newOrphanPool maxOrphans =
     \<lparr>op_blocks = [], op_heightList = [], op_maxOrphans = (if maxOrphans \<le> 0 then 100 else maxOrphans)\<rparr>"

definition block_hex :: "block \<Rightarrow> string" where
  "block_hex b = hex_encode (sl (blk_Hash b))"

definition removeOldestLocked :: "orphanPool \<Rightarrow> orphanPool" where
  "removeOldestLocked pool =
     (if op_heightList pool = [] then pool
      else pool\<lparr>op_blocks := gdel (last (op_heightList pool)) (op_blocks pool),
                op_heightList := butlast (op_heightList pool)\<rparr>)"

definition orphan_AddBlock :: "int \<Rightarrow> block \<Rightarrow> orphanPool \<Rightarrow> orphanPool" where
  "orphan_AddBlock now b pool =
     (let hashHex = block_hex b in
      if gget (op_blocks pool) hashHex \<noteq> None then pool
      else
        let pool1 = (if op_maxOrphans pool \<le> int (length (op_blocks pool)) then removeOldestLocked pool else pool)
        in pool1\<lparr>op_blocks := gput hashHex \<lparr>ob_block = b, ob_addedAt = now\<rparr> (op_blocks pool1),
                 op_heightList := hashHex # op_heightList pool1\<rparr>)"

definition orphan_GetBlock :: "bytes \<Rightarrow> orphanPool \<Rightarrow> block option" where
  "orphan_GetBlock hash pool = map_option ob_block (gget (op_blocks pool) (hex_encode hash))"

definition orphan_GetBlockByHash :: "string \<Rightarrow> orphanPool \<Rightarrow> block option" where
  "orphan_GetBlockByHash hashHex pool = map_option ob_block (gget (op_blocks pool) hashHex)"

definition GetOrphansByParent :: "bytes \<Rightarrow> orphanPool \<Rightarrow> block list" where
  "GetOrphansByParent prevHash pool =
     filter (\<lambda>b. hex_encode (sl (blk_PrevHash b)) = hex_encode prevHash) (map (ob_block \<circ> snd) (op_blocks pool))"

definition orphan_RemoveBlock :: "bytes \<Rightarrow> orphanPool \<Rightarrow> orphanPool" where
  "orphan_RemoveBlock hash pool = pool\<lparr>op_blocks := gdel (hex_encode hash) (op_blocks pool)\<rparr>"

definition orphan_Size :: "orphanPool \<Rightarrow> nat" where
  "orphan_Size pool = length (op_blocks pool)"

definition GetAllOrphans :: "orphanPool \<Rightarrow> block list" where
  "GetAllOrphans pool = map (ob_block \<circ> snd) (op_blocks pool)"

text \<open>The loop of \<^verbatim>\<open>LimitSize\<close> ends when few enough blocks are left; it has no other exit.\<close>

partial_function (option) LimitSize :: "int \<Rightarrow> orphanPool \<Rightarrow> orphanPool option" where
  "LimitSize maxOrphans pool =
     (if maxOrphans < int (length (op_blocks pool)) then LimitSize maxOrphans (removeOldestLocked pool) else Some pool)"

definition RemoveBlocksBelowHeight :: "u64 \<Rightarrow> orphanPool \<Rightarrow> orphanPool" where
  "RemoveBlocksBelowHeight height pool =
     pool\<lparr>op_blocks := fold gdel (map fst (filter (\<lambda>p. blk_Height (ob_block (snd p)) < height) (op_blocks pool)))
        (op_blocks pool)\<rparr>"

datatype orphan_op =
    OrphAdd int block | OrphRemove bytes | OrphBelow u64 | OrphLimit nat

primrec orphan_step :: "orphan_op \<Rightarrow> orphanPool \<Rightarrow> orphanPool" where
  "orphan_step (OrphAdd now b) pool = orphan_AddBlock now b pool"
| "orphan_step (OrphRemove hash) pool = orphan_RemoveBlock hash pool"
| "orphan_step (OrphBelow h) pool = RemoveBlocksBelowHeight h pool"
| "orphan_step (OrphLimit n) pool = (case LimitSize (int n) pool of Some pool' \<Rightarrow> pool' | None \<Rightarrow> pool)"

subsection \<open>The invariant\<close>

definition orphans_ok :: "orphanPool \<Rightarrow> bool" where
  "orphans_ok pool \<longleftrightarrow> gmap_ok (op_blocks pool) \<and>
     (\<forall>(k, ob) \<in> set (op_blocks pool). k \<in> set (op_heightList pool) \<and> k = block_hex (ob_block ob))"

lemma orphans_ok_removeOldest:
  assumes "orphans_ok pool"
  shows "orphans_ok (removeOldestLocked pool)"
proof (cases "op_heightList pool = []")
  case False
  have "k \<in> set (butlast (op_heightList pool))" if "k \<in> set (op_heightList pool)" "k \<noteq> last (op_heightList pool)" for k
    using that append_butlast_last_id [OF False] by (metis UnE empty_iff insertE list.set(1) list.set(2) set_append)
  then show ?thesis
    using assms False by (auto simp: orphans_ok_def removeOldestLocked_def set_gdel)
qed (simp add: removeOldestLocked_def assms)

lemma orphans_ok_Add:
  assumes "orphans_ok pool"
  shows "orphans_ok (orphan_AddBlock now b pool)"
proof -
  have insert: "orphans_ok (p\<lparr>op_blocks := gput (block_hex b) \<lparr>ob_block = b, ob_addedAt = now\<rparr> (op_blocks p),
      op_heightList := block_hex b # op_heightList p\<rparr>)" if "orphans_ok p" for p
    using that by (auto simp: orphans_ok_def set_gput)
  show ?thesis
    using assms insert [OF assms] insert [OF orphans_ok_removeOldest [OF assms]]
    by (auto simp: orphan_AddBlock_def Let_def)
qed

lemma fold_gdel: "set (fold gdel ks m) = {p \<in> set m. fst p \<notin> set ks}"
  by (induction ks arbitrary: m) (auto simp: set_gdel)

lemma gmap_ok_fold_gdel: "gmap_ok m \<Longrightarrow> gmap_ok (fold gdel ks m)"
  by (induction ks arbitrary: m) auto

text \<open>Trimming returns, keeps the invariant and leaves at most the given number of blocks.\<close>

lemma LimitSize_returns:
  assumes "orphans_ok pool" and "0 \<le> n"
  shows "\<exists>pool'. LimitSize n pool = Some pool' \<and> orphans_ok pool' \<and> int (length (op_blocks pool')) \<le> n \<and>
    set (op_blocks pool') \<subseteq> set (op_blocks pool)"
  using assms
proof (induction "length (op_heightList pool)" arbitrary: pool)
  case 0
  then have "op_blocks pool = []" by (cases "op_blocks pool") (auto simp: orphans_ok_def)
  with 0 show ?case by (subst LimitSize.simps) simp
next
  case (Suc k)
  show ?case
  proof (cases "n < int (length (op_blocks pool))")
    case True
    have "k = length (op_heightList (removeOldestLocked pool))" using Suc.hyps(2) by (auto simp: removeOldestLocked_def)
    moreover have "set (op_blocks (removeOldestLocked pool)) \<subseteq> set (op_blocks pool)"
      by (auto simp: removeOldestLocked_def set_gdel)
    ultimately show ?thesis
      using Suc.hyps(1) [of "removeOldestLocked pool"] orphans_ok_removeOldest [OF Suc.prems(1)] Suc.prems(2) True
      by (subst LimitSize.simps) fastforce
  next
    case False
    with Suc.prems show ?thesis by (subst LimitSize.simps) auto
  qed
qed

interpretation orphans: kept orphans_ok orphan_step
proof
  fix pool x assume ok: "orphans_ok pool"
  show "orphans_ok (orphan_step x pool)"
  proof (cases x)
    case (OrphLimit n)
    with LimitSize_returns [OF ok, of "int n"] show ?thesis by auto
  next
    case (OrphAdd now b)
    then show ?thesis using orphans_ok_Add [OF ok] by simp
  qed (use ok in \<open>auto simp: orphan_RemoveBlock_def RemoveBlocksBelowHeight_def orphans_ok_def
        set_gdel fold_gdel gmap_ok_fold_gdel\<close>)
qed

lemma orphans_ok_new: "orphans_ok (newOrphanPool n)"
  by (simp add: orphans_ok_def newOrphanPool_def)

subsection \<open>Properties\<close>

definition orphan :: "byte \<Rightarrow> block" where
  "orphan n = \<lparr>blk_Version = 1, blk_Height = 7, blk_TimestampUnix = 0, blk_PrevHash = Some [9],
     blk_Nonce = 0, blk_DifficultyBits = 1, blk_MinerAddress = [],
     blk_Transactions = [], blk_Hash = Some [n], blk_StateRoot = None, blk_UTXORoot = None\<rparr>"

text \<open>After any use of the orphan pool every pooled block is filed under its own hash and listed for
  eviction, so trimming to any size ends, leaves at most that many blocks and adds none.\<close>

theorem orphan_trim_returns:
  "let pool = fold orphan_step ops (newOrphanPool m)
   in orphans_ok pool \<and>
      (\<exists>pool'. LimitSize (int n) pool = Some pool' \<and> orphans_ok pool' \<and> length (op_blocks pool') \<le> n \<and>
        set (op_blocks pool') \<subseteq> set (op_blocks pool))"
  using orphans.run_kept [OF orphans_ok_new, of ops m] LimitSize_returns [of _ "int n"] by (fastforce simp: Let_def)

text \<open>The capacity is not enforced by adding: the hash of a removed block stays in the list, and evicting
  it frees no room.  With a capacity of two, adding two blocks, removing the first and adding two
  more leaves three.\<close>

theorem orphan_capacity_exceeded:
  "let pool = fold orphan_step [OrphAdd 0 (orphan 1), OrphAdd 0 (orphan 2), OrphRemove [1], OrphAdd 0 (orphan 3),
       OrphAdd 0 (orphan 4)] (newOrphanPool 2)
   in op_maxOrphans pool = 2 \<and> orphan_Size pool = 3"
  by (simp add: orphan_def newOrphanPool_def orphan_AddBlock_def orphan_RemoveBlock_def removeOldestLocked_def
      block_hex_def hexdigit_def gput_def gdel_def gget_def orphan_Size_def Let_def)

end
