(* ===== verification/Cache.thy ===== *)
theory Cache
  imports Prelude "HOL-Library.Multiset"
begin

text \<open>
  The caches of \<^verbatim>\<open>internal/cache\<close>: the LRU map of \<^verbatim>\<open>lru.go\<close> with its list of elements and its map from
  keys to elements, the byte-limited cache of \<^verbatim>\<open>cache_size.go\<close> and the node's cache of \<^verbatim>\<open>cache.go\<close>.
  The lemmas show that the pointer structure implements a bounded list of pairs in order of use,
  and that a cache only ever answers with the value stored last.
\<close>

subsection \<open>The LRU structure\<close>

text \<open>A list element is known by an address; the map sends a key to the address of its element.
  Addresses are allocated by counting.\<close>

record ('k, 'v) lru =
  lru_maxItems :: int
  lru_items :: "('k, nat) gomap"
  lru_list :: "(nat \<times> 'k \<times> 'v) list"
  lru_next :: nat
  lru_hits :: int
  lru_misses :: int

definition NewLRU :: "int \<Rightarrow> ('k, 'v) lru" where
  "NewLRU maxItems =
     \<lparr>lru_maxItems = (if maxItems \<le> 0 then 1024 else maxItems), lru_items = [], lru_list = [], lru_next = 0,
      lru_hits = 0, lru_misses = 0\<rparr>"

text \<open>\<^verbatim>\<open>list.MoveToFront\<close> and \<^verbatim>\<open>list.Remove\<close> on the element at an address.\<close>

definition moveToFront :: "nat \<Rightarrow> (nat \<times> 'a) list \<Rightarrow> (nat \<times> 'a) list" where
  "moveToFront el l = filter (\<lambda>x. fst x = el) l @ filter (\<lambda>x. fst x \<noteq> el) l"

definition list_Remove :: "nat \<Rightarrow> (nat \<times> 'a) list \<Rightarrow> (nat \<times> 'a) list" where
  "list_Remove el l = filter (\<lambda>x. fst x \<noteq> el) l"

text \<open>\<^verbatim>\<open>evictOldest\<close> returns the pair it hands to the \<^verbatim>\<open>onEvict\<close> callback.\<close>

definition evictOldest :: "('k, 'v) lru \<Rightarrow> ('k, 'v) lru \<times> ('k \<times> 'v) list" where
  "evictOldest c =
     (if lru_list c = [] then (c, [])
      else let (el, k, v) = last (lru_list c) in
        (c\<lparr>lru_list := list_Remove el (lru_list c), lru_items := gdel k (lru_items c)\<rparr>, [(k, v)]))"

definition lru_Set :: "'k \<Rightarrow> 'v \<Rightarrow> ('k, 'v) lru \<Rightarrow> ('k, 'v) lru \<times> ('k \<times> 'v) list" where
  "lru_Set key val c =
     (case gget (lru_items c) key of
        Some el \<Rightarrow>
          (c\<lparr>lru_list := map (\<lambda>(a, k, v). if a = el then (a, k, val) else (a, k, v)) (moveToFront el (lru_list c))\<rparr>, [])
      | None \<Rightarrow>
          let (c1, out) = (if lru_maxItems c \<le> int (length (lru_list c)) then evictOldest c else (c, []));
              el = lru_next c1
          in (c1\<lparr>lru_list := (el, key, val) # lru_list c1, lru_items := gput key el (lru_items c1), lru_next := Suc el\<rparr>, out))"

definition lru_Get :: "'k \<Rightarrow> ('k, 'v) lru \<Rightarrow> ('k, 'v) lru \<times> 'v option" where
  "lru_Get key c =
     (case gget (lru_items c) key of
        None \<Rightarrow> (c\<lparr>lru_misses := lru_misses c + 1\<rparr>, None)
      | Some el \<Rightarrow>
          (c\<lparr>lru_list := moveToFront el (lru_list c), lru_hits := lru_hits c + 1\<rparr>,
           map_option snd (map_of (lru_list c) el)))"

definition lru_Delete :: "'k \<Rightarrow> ('k, 'v) lru \<Rightarrow> ('k, 'v) lru" where
  "lru_Delete key c =
     (case gget (lru_items c) key of
        None \<Rightarrow> c
      | Some el \<Rightarrow> c\<lparr>lru_list := list_Remove el (lru_list c), lru_items := gdel key (lru_items c)\<rparr>)"

definition lru_Clear :: "('k, 'v) lru \<Rightarrow> ('k, 'v) lru \<times> ('k \<times> 'v) list" where
  "lru_Clear c = (c\<lparr>lru_items := [], lru_list := []\<rparr>, map snd (lru_list c))"

definition lru_Len :: "('k, 'v) lru \<Rightarrow> int" where
  "lru_Len c = int (length (lru_list c))"

subsection \<open>The node cache\<close>

record 'b node_cache =
  nc_blocks :: "(string, 'b) lru"
  nc_balances :: "(string, int) lru"
  nc_merkleProofs :: "(string, string list) lru"
  nc_BlockHits :: int
  nc_BlockMisses :: int
  nc_BalanceHits :: int
  nc_BalanceMisses :: int
  nc_ProofHits :: int
  nc_ProofMisses :: int

definition NewCache :: "int \<Rightarrow> int \<Rightarrow> int \<Rightarrow> 'b node_cache" where
  "NewCache maxBlocks maxBalances maxProofs =
     \<lparr>nc_blocks = NewLRU maxBlocks, nc_balances = NewLRU maxBalances, nc_merkleProofs = NewLRU maxProofs,
      nc_BlockHits = 0, nc_BlockMisses = 0, nc_BalanceHits = 0, nc_BalanceMisses = 0, nc_ProofHits = 0, nc_ProofMisses = 0\<rparr>"

definition CacheBlock :: "string \<Rightarrow> 'b \<Rightarrow> 'b node_cache \<Rightarrow> 'b node_cache" where
  "CacheBlock hash b c = c\<lparr>nc_blocks := fst (lru_Set hash b (nc_blocks c))\<rparr>"

definition GetCachedBlock :: "string \<Rightarrow> 'b node_cache \<Rightarrow> 'b node_cache \<times> 'b option" where
  "GetCachedBlock hash c =
     (let (l, r) = lru_Get hash (nc_blocks c); c1 = c\<lparr>nc_blocks := l\<rparr>
      in (if r \<noteq> None then c1\<lparr>nc_BlockHits := nc_BlockHits c + 1\<rparr> else c1\<lparr>nc_BlockMisses := nc_BlockMisses c + 1\<rparr>, r))"

definition CacheBalance :: "string \<Rightarrow> int \<Rightarrow> 'b node_cache \<Rightarrow> 'b node_cache" where
  "CacheBalance addr balance c = c\<lparr>nc_balances := fst (lru_Set addr balance (nc_balances c))\<rparr>"

definition GetCachedBalance :: "string \<Rightarrow> 'b node_cache \<Rightarrow> 'b node_cache \<times> int option" where
  "GetCachedBalance addr c =
     (let (l, r) = lru_Get addr (nc_balances c); c1 = c\<lparr>nc_balances := l\<rparr>
      in (if r \<noteq> None then c1\<lparr>nc_BalanceHits := nc_BalanceHits c + 1\<rparr> else c1\<lparr>nc_BalanceMisses := nc_BalanceMisses c + 1\<rparr>, r))"

definition CacheMerkleProof :: "string \<Rightarrow> string list \<Rightarrow> 'b node_cache \<Rightarrow> 'b node_cache" where
  "CacheMerkleProof txid proof c = c\<lparr>nc_merkleProofs := fst (lru_Set txid proof (nc_merkleProofs c))\<rparr>"

definition GetCachedMerkleProof :: "string \<Rightarrow> 'b node_cache \<Rightarrow> 'b node_cache \<times> string list option" where
  "GetCachedMerkleProof txid c =
     (let (l, r) = lru_Get txid (nc_merkleProofs c); c1 = c\<lparr>nc_merkleProofs := l\<rparr>
      in (if r \<noteq> None then c1\<lparr>nc_ProofHits := nc_ProofHits c + 1\<rparr> else c1\<lparr>nc_ProofMisses := nc_ProofMisses c + 1\<rparr>, r))"

definition DeleteBlock :: "string \<Rightarrow> 'b node_cache \<Rightarrow> 'b node_cache" where
  "DeleteBlock hash c = c\<lparr>nc_blocks := lru_Delete hash (nc_blocks c)\<rparr>"

definition DeleteBalance :: "string \<Rightarrow> 'b node_cache \<Rightarrow> 'b node_cache" where
  "DeleteBalance addr c = c\<lparr>nc_balances := lru_Delete addr (nc_balances c)\<rparr>"

subsection \<open>The byte-limited cache\<close>

record ('k, 'v) size_cache =
  sc_lru :: "('k, 'v) lru"
  sc_maxBytes :: int
  sc_currentBytes :: int

definition NewSizeLimitedCache :: "int \<Rightarrow> ('k, 'v) size_cache" where
  "NewSizeLimitedCache maxBytes =
     (let items = tdiv maxBytes 1024
      in \<lparr>sc_lru = NewLRU (if items < 100 then 100 else items), sc_maxBytes = maxBytes, sc_currentBytes = 0\<rparr>)"

text \<open>The callback subtracts the size of each evicted value.\<close>

definition onEvict :: "('v \<Rightarrow> int) \<Rightarrow> ('k \<times> 'v) list \<Rightarrow> int \<Rightarrow> int" where
  "onEvict valueSize out cur = fold (\<lambda>(k, v) cur. i64 (cur - valueSize v)) out cur"

text \<open>\<^verbatim>\<open>Clear\<close> leaves no element, so the loop of \<^verbatim>\<open>Set\<close> runs at most once; the byte count it stores
  afterwards is 0 whatever the callbacks subtracted.\<close>

definition size_Set :: "('v \<Rightarrow> int) \<Rightarrow> 'k \<Rightarrow> 'v \<Rightarrow> ('k, 'v) size_cache \<Rightarrow> ('k, 'v) size_cache" where
  "size_Set valueSize key val c =
     (let sz = valueSize val;
          c1 = (if sc_maxBytes c < i64 (sc_currentBytes c + sz) \<and> 0 < lru_Len (sc_lru c)
                then c\<lparr>sc_lru := fst (lru_Clear (sc_lru c)), sc_currentBytes := 0\<rparr> else c);
          (l, out) = lru_Set key val (sc_lru c1)
      in c1\<lparr>sc_lru := l, sc_currentBytes := onEvict valueSize out (i64 (sc_currentBytes c1 + sz))\<rparr>)"

definition size_Get :: "'k \<Rightarrow> ('k, 'v) size_cache \<Rightarrow> ('k, 'v) size_cache \<times> 'v option" where
  "size_Get key c = (let (l, r) = lru_Get key (sc_lru c) in (c\<lparr>sc_lru := l\<rparr>, r))"

subsection \<open>The invariant\<close>

definition lru_ok :: "('k, 'v) lru \<Rightarrow> bool" where
  "lru_ok c \<longleftrightarrow> 0 < lru_maxItems c \<and> int (length (lru_list c)) \<le> lru_maxItems c \<and>
     distinct (map fst (lru_list c)) \<and> distinct (map (fst \<circ> snd) (lru_list c)) \<and>
     (\<forall>x \<in> set (lru_list c). fst x < lru_next c) \<and> gmap_ok (lru_items c) \<and>
     set (lru_items c) = (\<lambda>x. (fst (snd x), fst x)) ` set (lru_list c)"

text \<open>What the structure stands for: the pairs in order of use, the latest first.\<close>

definition lru_abs :: "('k, 'v) lru \<Rightarrow> ('k \<times> 'v) list" where
  "lru_abs c = map snd (lru_list c)"

definition spec_Set :: "int \<Rightarrow> 'k \<Rightarrow> 'v \<Rightarrow> ('k \<times> 'v) list \<Rightarrow> ('k \<times> 'v) list" where
  "spec_Set n k v xs = take (nat n) ((k, v) # filter (\<lambda>p. fst p \<noteq> k) xs)"

definition spec_touch :: "'k \<Rightarrow> ('k \<times> 'v) list \<Rightarrow> ('k \<times> 'v) list" where
  "spec_touch k xs = (case map_of xs k of None \<Rightarrow> xs | Some v \<Rightarrow> (k, v) # filter (\<lambda>p. fst p \<noteq> k) xs)"

lemma filter_single: "distinct (map f xs) \<Longrightarrow> y \<in> set xs \<Longrightarrow> filter (\<lambda>x. f x = f y) xs = [y]"
proof (induction xs)
  case (Cons x xs)
  then show ?case by (cases "x = y") (auto simp: filter_empty_conv image_iff)
qed simp

lemma filter_neq_last: "distinct (map f l) \<Longrightarrow> l \<noteq> [] \<Longrightarrow> filter (\<lambda>x. f x \<noteq> f (last l)) l = butlast l"
  by (cases l rule: rev_cases) (auto simp: filter_id_conv, metis imageI)

lemma lru_ok_item:
  assumes "lru_ok c"
  shows "gget (lru_items c) k = Some el \<longleftrightarrow> (\<exists>v. (el, k, v) \<in> set (lru_list c))"
proof -
  have "gget (lru_items c) k = Some el \<longleftrightarrow> (k, el) \<in> (\<lambda>x. (fst (snd x), fst x)) ` set (lru_list c)"
    using assms by (simp add: lru_ok_def gget_Some_iff)
  then show ?thesis by (auto simp: image_iff) force
qed

lemma lru_ok_split:
  assumes "lru_ok c" and "(el, k, v) \<in> set (lru_list c)"
  shows "filter (\<lambda>x. fst x = el) (lru_list c) = [(el, k, v)]"
    and "filter (\<lambda>x. fst x \<noteq> el) (lru_list c) = filter (\<lambda>x. fst (snd x) \<noteq> k) (lru_list c)"
proof -
  have d: "distinct (map fst (lru_list c))" "distinct (map (fst \<circ> snd) (lru_list c))"
    using assms(1) by (simp_all add: lru_ok_def)
  show "filter (\<lambda>x. fst x = el) (lru_list c) = [(el, k, v)]"
    using filter_single [OF d(1) assms(2)] by simp
  have "fst x = el \<longleftrightarrow> fst (snd x) = k" if "x \<in> set (lru_list c)" for x
    using inj_onD [OF d(1) [THEN distinct_map [THEN iffD1], THEN conjunct2], of x "(el, k, v)"]
      inj_onD [OF d(2) [THEN distinct_map [THEN iffD1], THEN conjunct2], of x "(el, k, v)"] that assms(2) by (cases x) auto
  then show "filter (\<lambda>x. fst x \<noteq> el) (lru_list c) = filter (\<lambda>x. fst (snd x) \<noteq> k) (lru_list c)"
    by (intro filter_cong) auto
qed

lemma map_of_abs:
  assumes "lru_ok c"
  shows "map_of (lru_abs c) k = (case gget (lru_items c) k of None \<Rightarrow> None | Some el \<Rightarrow> map_option snd (map_of (lru_list c) el))"
proof (cases "gget (lru_items c) k")
  case None
  then have "k \<notin> fst ` set (lru_abs c)"
    using lru_ok_item [OF assms, of k] by (auto simp: lru_abs_def)
  with None show ?thesis by (simp add: map_of_eq_None_iff)
next
  case (Some el)
  then obtain v where v: "(el, k, v) \<in> set (lru_list c)" using lru_ok_item [OF assms] by blast
  then have "(k, v) \<in> set (lru_abs c)" using imageI [OF v, of snd] by (simp add: lru_abs_def)
  moreover have "distinct (map fst (lru_abs c))" "distinct (map fst (lru_list c))"
    using assms by (simp_all add: lru_ok_def lru_abs_def comp_def)
  ultimately show ?thesis using Some v by simp
qed

lemma abs_evictOldest:
  assumes "lru_ok c" and "lru_list c \<noteq> []"
  shows "lru_abs (fst (evictOldest c)) = butlast (lru_abs c)" and "lru_ok (fst (evictOldest c))"
    and "snd (evictOldest c) = [last (lru_abs c)]"
proof -
  obtain el k v where l: "last (lru_list c) = (el, k, v)" by (cases "last (lru_list c)")
  then have mem: "(el, k, v) \<in> set (lru_list c)" using assms(2) by (metis last_in_set)
  have rem: "list_Remove el (lru_list c) = butlast (lru_list c)"
    using filter_neq_last [of fst "lru_list c"] assms l by (simp add: list_Remove_def lru_ok_def)
  have ev: "evictOldest c = (c\<lparr>lru_list := butlast (lru_list c), lru_items := gdel k (lru_items c)\<rparr>, [(k, v)])"
    using assms(2) l by (simp add: evictOldest_def rem)
  show "lru_abs (fst (evictOldest c)) = butlast (lru_abs c)" by (simp add: ev lru_abs_def map_butlast)
  show "snd (evictOldest c) = [last (lru_abs c)]" using assms(2) l by (simp add: ev lru_abs_def last_map)
  have "butlast (lru_list c) = filter (\<lambda>x. fst (snd x) \<noteq> k) (lru_list c)"
    using lru_ok_split(2) [OF assms(1) mem] rem by (simp add: list_Remove_def)
  then have sub: "set (butlast (lru_list c)) = {x \<in> set (lru_list c). fst (snd x) \<noteq> k}" by simp
  have "set (gdel k (lru_items c)) = (\<lambda>x. (fst (snd x), fst x)) ` set (butlast (lru_list c))"
  proof -
    have "set (lru_items c) = (\<lambda>x. (fst (snd x), fst x)) ` set (lru_list c)"
      using assms(1) by (simp add: lru_ok_def)
    then show ?thesis unfolding set_gdel sub by auto
  qed
  moreover have "\<forall>x \<in> set (butlast (lru_list c)). fst x < lru_next c"
    using assms(1) in_set_butlastD by (fastforce simp: lru_ok_def)
  ultimately show "lru_ok (fst (evictOldest c))"
    using assms(1) by (auto simp: ev lru_ok_def map_butlast distinct_butlast)
qed

lemma abs_Set:
  assumes "lru_ok c"
  shows "lru_abs (fst (lru_Set k v c)) = spec_Set (lru_maxItems c) k v (lru_abs c)"
proof (cases "gget (lru_items c) k")
  case (Some el)
  then obtain w where w: "(el, k, w) \<in> set (lru_list c)" using lru_ok_item [OF assms] by blast
  note split = lru_ok_split [OF assms w]
  have "map snd (map (\<lambda>(a, k, v'). if a = el then (a, k, v) else (a, k, v')) (moveToFront el (lru_list c))) =
      (k, v) # filter (\<lambda>p. fst p \<noteq> k) (lru_abs c)"
  proof -
    have "map (\<lambda>(a, k, v'). if a = el then (a, k, v) else (a, k, v')) (filter (\<lambda>x. fst x \<noteq> el) (lru_list c)) =
        filter (\<lambda>x. fst x \<noteq> el) (lru_list c)"
      by (rule map_idI) auto
    then show ?thesis
      by (simp add: moveToFront_def split lru_abs_def filter_map comp_def)
  qed
  moreover have "length (filter (\<lambda>p. fst p \<noteq> k) (lru_abs c)) < length (lru_list c)"
    using length_filter_less [of "(k, w)" "lru_abs c" "\<lambda>p. fst p \<noteq> k"] imageI [OF w, of snd] by (simp add: lru_abs_def)
  then have "Suc (length (filter (\<lambda>p. fst p \<noteq> k) (lru_abs c))) \<le> nat (lru_maxItems c)"
    using assms unfolding lru_ok_def by linarith
  then have "take (nat (lru_maxItems c)) ((k, v) # filter (\<lambda>p. fst p \<noteq> k) (lru_abs c)) =
      (k, v) # filter (\<lambda>p. fst p \<noteq> k) (lru_abs c)"
    by simp
  ultimately show ?thesis
    using Some by (simp add: lru_Set_def spec_Set_def) (simp add: lru_abs_def)
next
  case None
  then have fresh: "filter (\<lambda>p. fst p \<noteq> k) (lru_abs c) = lru_abs c"
    using lru_ok_item [OF assms, of k] by (auto simp: lru_abs_def filter_id_conv)
  have bound: "int (length (lru_list c)) \<le> lru_maxItems c" "0 < lru_maxItems c" using assms by (simp_all add: lru_ok_def)
  show ?thesis
  proof (cases "lru_maxItems c \<le> int (length (lru_list c))")
    case True
    then have len: "length (lru_abs c) = nat (lru_maxItems c)" "lru_list c \<noteq> []" using bound by (auto simp: lru_abs_def)
    then have "take (nat (lru_maxItems c)) ((k, v) # lru_abs c) = (k, v) # butlast (lru_abs c)"
      using bound by (cases "nat (lru_maxItems c)") (auto simp: butlast_conv_take)
    with None True abs_evictOldest(1) [OF assms len(2)] show ?thesis
      by (simp add: lru_Set_def spec_Set_def fresh Let_def split_def) (simp add: lru_abs_def)
  next
    case False
    then have "Suc (length (lru_abs c)) \<le> nat (lru_maxItems c)" by (simp add: lru_abs_def)
    with None False show ?thesis
      by (simp add: lru_Set_def spec_Set_def fresh Let_def) (simp add: lru_abs_def)
  qed
qed

lemma abs_Get:
  assumes "lru_ok c"
  shows "lru_abs (fst (lru_Get k c)) = spec_touch k (lru_abs c)" and "snd (lru_Get k c) = map_of (lru_abs c) k"
proof -
  show "snd (lru_Get k c) = map_of (lru_abs c) k"
    by (simp add: lru_Get_def map_of_abs [OF assms] split: option.splits)
  show "lru_abs (fst (lru_Get k c)) = spec_touch k (lru_abs c)"
  proof (cases "gget (lru_items c) k")
    case None
    then show ?thesis by (simp add: lru_Get_def spec_touch_def map_of_abs [OF assms]) (simp add: lru_abs_def)
  next
    case (Some el)
    then obtain w where w: "(el, k, w) \<in> set (lru_list c)" using lru_ok_item [OF assms] by blast
    have "map_of (lru_list c) el = Some (k, w)" using w assms by (simp add: lru_ok_def)
    then show ?thesis
      using Some lru_ok_split [OF assms w]
      by (simp add: lru_Get_def spec_touch_def map_of_abs [OF assms])
        (simp add: lru_abs_def moveToFront_def filter_map comp_def)
  qed
qed

lemma abs_Delete:
  assumes "lru_ok c"
  shows "lru_abs (lru_Delete k c) = filter (\<lambda>p. fst p \<noteq> k) (lru_abs c)"
proof (cases "gget (lru_items c) k")
  case None
  have "filter (\<lambda>p. fst p \<noteq> k) (lru_abs c) = lru_abs c"
    using None lru_ok_item [OF assms, of k] by (auto simp: lru_abs_def filter_id_conv)
  with None show ?thesis by (simp add: lru_Delete_def)
next
  case (Some el)
  then obtain w where w: "(el, k, w) \<in> set (lru_list c)" using lru_ok_item [OF assms] by blast
  with Some lru_ok_split(2) [OF assms w] show ?thesis
    by (simp add: lru_Delete_def lru_abs_def list_Remove_def filter_map comp_def)
qed

text \<open>The invariant is kept.\<close>

definition lru_keys :: "('k, 'v) lru \<Rightarrow> (nat \<times> 'k) list" where
  "lru_keys c = map (\<lambda>x. (fst x, fst (snd x))) (lru_list c)"

lemma lru_ok_keys:
  "lru_ok c \<longleftrightarrow> 0 < lru_maxItems c \<and> int (length (lru_keys c)) \<le> lru_maxItems c \<and>
     distinct (map fst (lru_keys c)) \<and> distinct (map snd (lru_keys c)) \<and>
     (\<forall>y \<in> set (lru_keys c). fst y < lru_next c) \<and> gmap_ok (lru_items c) \<and>
     set (lru_items c) = prod.swap ` set (lru_keys c)"
  by (simp add: lru_ok_def lru_keys_def comp_def image_image)

lemma lru_ok_mset:
  assumes "lru_ok c" and eq: "mset (lru_keys c') = mset (lru_keys c)"
    and "lru_maxItems c' = lru_maxItems c" "lru_items c' = lru_items c" "lru_next c' = lru_next c"
  shows "lru_ok c'"
proof -
  have "set (lru_keys c') = set (lru_keys c)" by (rule mset_eq_setD [OF eq])
  moreover have "length (lru_keys c') = length (lru_keys c)" by (rule mset_eq_length [OF eq])
  moreover have "distinct (map fst (lru_keys c')) = distinct (map fst (lru_keys c))"
    by (rule mset_eq_imp_distinct_iff) (simp only: mset_map eq)
  moreover have "distinct (map snd (lru_keys c')) = distinct (map snd (lru_keys c))"
    by (rule mset_eq_imp_distinct_iff) (simp only: mset_map eq)
  ultimately show ?thesis
    using assms(1) unfolding lru_ok_keys assms(3-5) by simp
qed

lemma mset_moveToFront: "mset (moveToFront el l) = mset l"
  by (simp add: moveToFront_def multiset_partition [symmetric])

lemma lru_ok_Get: "lru_ok c \<Longrightarrow> lru_ok (fst (lru_Get k c))"
  by (rule lru_ok_mset [of c]) (auto simp: lru_Get_def lru_keys_def mset_moveToFront split: option.splits)

lemma lru_ok_Set: 
  assumes "lru_ok c"
  shows "lru_ok (fst (lru_Set k v c))"
proof (cases "gget (lru_items c) k")
  case (Some el)
  have "map (\<lambda>x. (fst x, fst (snd x))) (map (\<lambda>(a, k, v'). if a = el then (a, k, v) else (a, k, v')) l) =
      map (\<lambda>x. (fst x, fst (snd x))) l" for l :: "(nat \<times> 'a \<times> 'b) list"
    by (induction l) auto
  then have "mset (lru_keys (fst (lru_Set k v c))) = mset (lru_keys c)"
    using Some by (simp add: lru_Set_def lru_keys_def mset_moveToFront del: map_map)
  then show ?thesis
    by (rule lru_ok_mset [OF assms]) (simp_all add: lru_Set_def Some)
next
  case None
  define c1 where "c1 = fst (if lru_maxItems c \<le> int (length (lru_list c)) then evictOldest c else (c, []))"
  have pos: "0 < lru_maxItems c" "int (length (lru_list c)) \<le> lru_maxItems c" using assms by (simp_all add: lru_ok_def)
  have c1: "lru_ok c1 \<and> int (length (lru_list c1)) < lru_maxItems c1 \<and> gget (lru_items c1) k = None"
  proof (cases "lru_maxItems c \<le> int (length (lru_list c))")
    case True
    then have ne: "lru_list c \<noteq> []" using pos by auto
    then have "length (lru_list c1) < length (lru_list c)"
      using arg_cong [OF abs_evictOldest(1) [OF assms ne], of length] True by (simp add: c1_def lru_abs_def)
    moreover have "lru_maxItems c1 = lru_maxItems c" "gget (lru_items c1) k = None"
      using True None ne by (auto simp: c1_def evictOldest_def split_def Let_def)
    ultimately show ?thesis using abs_evictOldest(2) [OF assms ne] True pos by (simp add: c1_def)
  qed (use assms None in \<open>simp add: c1_def\<close>)
  have new: "fst (lru_Set k v c) =
      c1\<lparr>lru_list := (lru_next c1, k, v) # lru_list c1, lru_items := gput k (lru_next c1) (lru_items c1), lru_next := Suc (lru_next c1)\<rparr>"
    using None by (simp add: lru_Set_def c1_def split_def Let_def)
  have notin: "k \<notin> fst ` set (lru_items c1)" using c1 by (simp add: gget_None_iff)
  have items: "gmap_ok (lru_items c1)" "set (lru_items c1) = (\<lambda>x. (fst (snd x), fst x)) ` set (lru_list c1)"
    using c1 by (simp_all add: lru_ok_def)
  have keys: "k \<notin> (fst \<circ> snd) ` set (lru_list c1)" using notin by (simp add: items(2) image_image comp_def)
  have sets: "set (gput k (lru_next c1) (lru_items c1)) = insert (k, lru_next c1) (set (lru_items c1))"
  proof -
    have "{p \<in> set (lru_items c1). fst p \<noteq> k} = set (lru_items c1)" using notin by blast
    then show ?thesis by (simp only: set_gput [OF items(1)])
  qed
  have next_fresh: "lru_next c1 \<notin> fst ` set (lru_list c1)" using c1 by (auto simp: lru_ok_def)
  have le: "\<forall>x \<in> set (lru_list c1). fst x < Suc (lru_next c1)" using c1 by (auto simp: lru_ok_def)
  have parts: "0 < lru_maxItems c1" "distinct (map fst (lru_list c1))" "distinct (map (fst \<circ> snd) (lru_list c1))"
    "int (length (lru_list c1)) < lru_maxItems c1"
    using c1 by (simp_all add: lru_ok_def)
  show ?thesis
    unfolding new lru_ok_def
    using parts keys next_fresh le sets items by (simp only: lru.simps gmap_ok_gput) simp
qed

lemma lru_ok_Delete:
  assumes "lru_ok c"
  shows "lru_ok (lru_Delete k c)"
proof (cases "gget (lru_items c) k")
  case (Some el)
  then obtain w where w: "(el, k, w) \<in> set (lru_list c)" using lru_ok_item [OF assms] by blast
  have eq: "list_Remove el (lru_list c) = filter (\<lambda>x. fst (snd x) \<noteq> k) (lru_list c)"
    using lru_ok_split(2) [OF assms w] by (simp add: list_Remove_def)
  have sets: "set (gdel k (lru_items c)) = (\<lambda>x. (fst (snd x), fst x)) ` {x \<in> set (lru_list c). fst (snd x) \<noteq> k}"
    using assms unfolding lru_ok_def set_gdel by auto
  have "int (length (filter (\<lambda>x. fst (snd x) \<noteq> k) (lru_list c))) \<le> lru_maxItems c"
    using assms length_filter_le [of "\<lambda>x. fst (snd x) \<noteq> k" "lru_list c"] unfolding lru_ok_def by linarith
  then show ?thesis
    using assms Some sets by (simp add: lru_Delete_def eq lru_ok_def distinct_map_filter)
qed (simp add: lru_Delete_def assms)

datatype ('k, 'v) lru_op = LSet 'k 'v | LGet 'k | LDelete 'k | LClear

primrec lru_step :: "('k, 'v) lru_op \<Rightarrow> ('k, 'v) lru \<Rightarrow> ('k, 'v) lru" where
  "lru_step (LSet k v) c = fst (lru_Set k v c)"
| "lru_step (LGet k) c = fst (lru_Get k c)"
| "lru_step (LDelete k) c = lru_Delete k c"
| "lru_step LClear c = fst (lru_Clear c)"

text \<open>The abstract machine: a list of at most \<open>n\<close> pairs with distinct keys.\<close>

primrec spec_step :: "int \<Rightarrow> ('k, 'v) lru_op \<Rightarrow> ('k \<times> 'v) list \<Rightarrow> ('k \<times> 'v) list" where
  "spec_step n (LSet k v) xs = spec_Set n k v xs"
| "spec_step n (LGet k) xs = spec_touch k xs"
| "spec_step n (LDelete k) xs = filter (\<lambda>p. fst p \<noteq> k) xs"
| "spec_step n LClear xs = []"

lemma lru_maxItems_step [simp]: "lru_maxItems (lru_step x c) = lru_maxItems c"
  by (cases x) (auto simp: lru_Set_def lru_Get_def lru_Delete_def lru_Clear_def evictOldest_def Let_def split_def
      split: option.splits)

interpretation lru: kept lru_ok lru_step
proof
  fix c :: "('a, 'b) lru" and x assume "lru_ok c"
  then show "lru_ok (lru_step x c)"
    by (cases x) (simp_all add: lru_ok_Set lru_ok_Get lru_ok_Delete, simp add: lru_Clear_def lru_ok_def)
qed

lemma lru_ok_New: "lru_ok (NewLRU n)"
  by (simp add: NewLRU_def lru_ok_def)

lemma abs_step: "lru_ok c \<Longrightarrow> lru_abs (lru_step x c) = spec_step (lru_maxItems c) x (lru_abs c)"
  by (cases x) (simp_all add: abs_Set abs_Get abs_Delete, simp add: lru_Clear_def lru_abs_def)

lemma abs_run: "lru_ok c \<Longrightarrow> lru_abs (fold lru_step ops c) = fold (spec_step (lru_maxItems c)) ops (lru_abs c)"
  by (induction ops arbitrary: c) (simp_all add: lru.step_kept abs_step)

text \<open>
  What a client of a cache relies on: a lookup after a store yields the stored value or what it
  yielded before.  So a cache into which only true facts are stored answers only true facts.
\<close>

locale lossy_cache =
  fixes ok :: "'c \<Rightarrow> bool" and lookup :: "'c \<Rightarrow> 'k \<Rightarrow> 'v option" and store :: "'k \<Rightarrow> 'v \<Rightarrow> 'c \<Rightarrow> 'c"
  assumes store_ok: "ok c \<Longrightarrow> ok (store k v c)"
    and lookup_store: "ok c \<Longrightarrow> lookup (store k v c) k' = Some w \<Longrightarrow>
      (k' = k \<and> w = v) \<or> (k' \<noteq> k \<and> lookup c k' = Some w)"
begin

lemma coherent_store:
  assumes "ok c" and "\<And>k w. lookup c k = Some w \<Longrightarrow> P k w" and "P k v" and "lookup (store k v c) k' = Some w"
  shows "P k' w"
  using lookup_store [OF assms(1,4)] assms(2,3) by blast

end

lemma map_of_take: "map_of (take n xs) k = Some v \<Longrightarrow> map_of xs k = Some v"
proof (induction xs arbitrary: n)
  case (Cons x xs)
  then show ?case by (cases n) (auto split: if_splits)
qed simp

interpretation lru_cache: lossy_cache lru_ok "\<lambda>c. map_of (lru_abs c)" "\<lambda>k v c. fst (lru_Set k v c)"
proof
  fix c :: "('a, 'b) lru" and k v k' w
  assume ok: "lru_ok c"
  show "lru_ok (fst (lru_Set k v c))" by (rule lru_ok_Set [OF ok])
  assume "map_of (lru_abs (fst (lru_Set k v c))) k' = Some w"
  then have "map_of ((k, v) # filter (\<lambda>p. fst p \<noteq> k) (lru_abs c)) k' = Some w"
    unfolding abs_Set [OF ok] spec_Set_def by (rule map_of_take)
  moreover have "map_of (filter (\<lambda>p. fst p \<noteq> k) xs) k' = map_of xs k'" if "k' \<noteq> k" for xs :: "('a \<times> 'b) list"
    using that by (induction xs) auto
  ultimately show "k' = k \<and> w = v \<or> k' \<noteq> k \<and> map_of (lru_abs c) k' = Some w"
    by (auto split: if_splits)
qed

subsection \<open>Byte accounting\<close>

definition total_size :: "('v \<Rightarrow> int) \<Rightarrow> ('k \<times> 'v) list \<Rightarrow> int" where
  "total_size f xs = (\<Sum>p \<leftarrow> xs. f (snd p))"

lemma total_size_simps [simp]:
  "total_size f [] = 0" "total_size f (p # xs) = f (snd p) + total_size f xs"
  "total_size f (xs @ ys) = total_size f xs + total_size f ys"
  by (simp_all add: total_size_def)

lemma total_size_filter:
  "distinct (map fst xs) \<Longrightarrow> total_size f (filter (\<lambda>p. fst p \<noteq> k) xs) =
     total_size f xs - (case map_of xs k of None \<Rightarrow> 0 | Some w \<Rightarrow> f w)"
proof (induction xs)
  case (Cons x xs)
  obtain a b where x: "x = (a, b)" by (cases x)
  show ?case
  proof (cases "a = k")
    case True
    then have "map_of xs k = None" using Cons.prems x by (simp add: map_of_eq_None_iff)
    with True Cons x show ?thesis by simp
  qed (use Cons x in auto)
qed simp

lemma lru_Set_out:
  assumes "lru_ok c"
  shows "snd (lru_Set k v c) = [] \<or> (\<exists>p \<in> set (lru_abs c). snd (lru_Set k v c) = [p])"
proof (cases "lru_list c = []")
  case False
  have "last (lru_abs c) \<in> set (lru_abs c)" using False by (intro last_in_set) (simp add: lru_abs_def)
  then show ?thesis
    using abs_evictOldest(3) [OF assms False] by (auto simp: lru_Set_def Let_def split_def split: option.splits)
qed (auto simp: lru_Set_def evictOldest_def Let_def split: option.splits)

lemma set_balance:
  assumes "lru_ok c"
  shows "total_size f (lru_abs (fst (lru_Set k v c))) + total_size f (snd (lru_Set k v c)) =
    total_size f (lru_abs c) + f v - (case map_of (lru_abs c) k of None \<Rightarrow> 0 | Some w \<Rightarrow> f w)"
proof -
  have d: "distinct (map fst (lru_abs c))" using assms by (simp add: lru_ok_def lru_abs_def comp_def)
  have bound: "int (length (lru_list c)) \<le> lru_maxItems c" "0 < lru_maxItems c" using assms by (simp_all add: lru_ok_def)
  show ?thesis
  proof (cases "gget (lru_items c) k")
    case (Some el)
    then obtain w where "(el, k, w) \<in> set (lru_list c)" using lru_ok_item [OF assms] by blast
    then have "length (filter (\<lambda>p. fst p \<noteq> k) (lru_abs c)) < length (lru_list c)"
      using length_filter_less [of "(k, w)" "lru_abs c" "\<lambda>p. fst p \<noteq> k"] imageI [of "(el, k, w)" "set (lru_list c)" snd]
      by (simp add: lru_abs_def)
    then have "Suc (length (filter (\<lambda>p. fst p \<noteq> k) (lru_abs c))) \<le> nat (lru_maxItems c)" using bound by linarith
    then show ?thesis
      using Some total_size_filter [OF d, of f k] by (simp add: abs_Set [OF assms] spec_Set_def) (simp add: lru_Set_def)
  next
    case None
    then have none: "map_of (lru_abs c) k = None" by (simp add: map_of_abs [OF assms])
    show ?thesis
    proof (cases "lru_maxItems c \<le> int (length (lru_list c))")
      case True
      then have ne: "lru_list c \<noteq> []" using bound by auto
      then have "lru_abs c = butlast (lru_abs c) @ [last (lru_abs c)]" by (simp add: lru_abs_def)
      from arg_cong [OF this, of "total_size f"] have
        "total_size f (lru_abs c) = total_size f (butlast (lru_abs c)) + f (snd (last (lru_abs c)))" by simp
      moreover have "snd (lru_Set k v c) = [last (lru_abs c)]"
        "lru_abs (fst (lru_Set k v c)) = (k, v) # butlast (lru_abs c)"
        using None True abs_evictOldest [OF assms ne]
        by (simp_all add: lru_Set_def Let_def split_def) (simp add: lru_abs_def)
      ultimately show ?thesis by (simp add: none)
    next
      case False
      with None show ?thesis
        by (simp add: none lru_Set_def Let_def) (simp add: lru_abs_def)
    qed
  qed
qed

definition size_ok :: "('v \<Rightarrow> int) \<Rightarrow> ('k, 'v) size_cache \<Rightarrow> bool" where
  "size_ok f c \<longleftrightarrow> lru_ok (sc_lru c) \<and> total_size f (lru_abs (sc_lru c)) \<le> sc_currentBytes c \<and>
     sc_currentBytes c \<le> sc_maxBytes c \<and> (\<forall>p \<in> set (lru_abs (sc_lru c)). 0 \<le> f (snd p)) \<and>
     (lru_list (sc_lru c) = [] \<longrightarrow> sc_currentBytes c = 0)"

lemma total_size_nonneg: "(\<And>p. p \<in> set xs \<Longrightarrow> 0 \<le> f (snd p)) \<Longrightarrow> 0 \<le> total_size f xs"
  by (induction xs) auto

lemma size_ok_Set:
  assumes ok: "size_ok f c" and v: "0 \<le> f v" "f v \<le> sc_maxBytes c" and max: "sc_maxBytes c < 2 ^ 62"
  shows "size_ok f (size_Set f k v c)"
proof -
  define c1 where "c1 = (if sc_maxBytes c < i64 (sc_currentBytes c + f v) \<and> 0 < lru_Len (sc_lru c)
    then c\<lparr>sc_lru := fst (lru_Clear (sc_lru c)), sc_currentBytes := 0\<rparr> else c)"
  define l out where "l = fst (lru_Set k v (sc_lru c1))" and "out = snd (lru_Set k v (sc_lru c1))"
  have cur: "0 \<le> sc_currentBytes c" "sc_currentBytes c \<le> sc_maxBytes c"
    using ok total_size_nonneg [of "lru_abs (sc_lru c)" f] by (auto simp: size_ok_def)
  have wrap: "i64 x = x" if "0 \<le> x" "x \<le> 2 * sc_maxBytes c" for x
    using that max by (intro i64_id) auto
  have c1: "size_ok f c1" "sc_maxBytes c1 = sc_maxBytes c" "sc_currentBytes c1 + f v \<le> sc_maxBytes c"
    using ok v cur wrap [of "sc_currentBytes c + f v"]
    by (auto simp: c1_def size_ok_def lru_Clear_def lru_ok_def lru_abs_def lru_Len_def)
  have lru1: "lru_ok (sc_lru c1)" and nonneg: "\<And>p. p \<in> set (lru_abs (sc_lru c1)) \<Longrightarrow> 0 \<le> f (snd p)"
    using c1(1) by (auto simp: size_ok_def)
  have old: "0 \<le> (case map_of (lru_abs (sc_lru c1)) k of None \<Rightarrow> 0 | Some w \<Rightarrow> f w)"
    using nonneg by (auto split: option.splits dest!: map_of_SomeD)
  have out: "out = [] \<or> (\<exists>p \<in> set (lru_abs (sc_lru c1)). out = [p])" using lru_Set_out [OF lru1] by (simp add: out_def)
  have pos: "0 \<le> total_size f out" using out nonneg by auto
  have bal: "total_size f (lru_abs l) + total_size f out \<le> sc_currentBytes c1 + f v"
    using set_balance [OF lru1, of f k v] old c1(1) unfolding l_def out_def size_ok_def by linarith
  have sub: "set (lru_abs l) \<subseteq> insert (k, v) (set (lru_abs (sc_lru c1)))"
    unfolding l_def abs_Set [OF lru1] spec_Set_def by (auto dest: in_set_takeD)
  have all: "0 \<le> f (snd p)" if "p \<in> set (lru_abs l)" for p
  proof -
    from sub that have "p = (k, v) \<or> p \<in> set (lru_abs (sc_lru c1))" by blast
    then show ?thesis using nonneg [of p] v(1) by auto
  qed
  have "0 \<le> total_size f (lru_abs l)" using all by (rule total_size_nonneg)
  then have cnt: "onEvict f out (i64 (sc_currentBytes c1 + f v)) = sc_currentBytes c1 + f v - total_size f out"
    using out pos bal c1(2,3) wrap by (auto simp: onEvict_def)
  have "lru_list l \<noteq> []"
    using lru_ok_item [OF lru1, of k]
    by (auto simp: l_def lru_Set_def Let_def split_def moveToFront_def filter_empty_conv split: option.splits)
  moreover have "size_Set f k v c = c1\<lparr>sc_lru := l, sc_currentBytes := sc_currentBytes c1 + f v - total_size f out\<rparr>"
    by (simp add: size_Set_def c1_def [symmetric] l_def out_def Let_def split_def cnt [unfolded out_def])
  ultimately show ?thesis
    using lru_ok_Set [OF lru1] bal pos c1 all by (auto simp: size_ok_def l_def)
qed

datatype ('k, 'v) size_op = SSet 'k 'v | SGet 'k

primrec size_step :: "('v \<Rightarrow> int) \<Rightarrow> ('k, 'v) size_op \<Rightarrow> ('k, 'v) size_cache \<Rightarrow> ('k, 'v) size_cache" where
  "size_step f (SSet k v) c = size_Set f k v c"
| "size_step f (SGet k) c = fst (size_Get k c)"

lemma sc_maxBytes_step [simp]: "sc_maxBytes (size_step f x c) = sc_maxBytes c"
  by (cases x) (auto simp: size_Set_def size_Get_def Let_def split_def)

lemma size_ok_Get:
  assumes "size_ok f c"
  shows "size_ok f (fst (size_Get k c))"
proof -
  have ok: "lru_ok (sc_lru c)" using assms by (simp add: size_ok_def)
  have d: "distinct (map fst (lru_abs (sc_lru c)))" using ok by (simp add: lru_ok_def lru_abs_def comp_def)
  have "total_size f (spec_touch k (lru_abs (sc_lru c))) = total_size f (lru_abs (sc_lru c))"
    using total_size_filter [OF d, of f k] by (auto simp: spec_touch_def split: option.splits)
  moreover have "set (spec_touch k (lru_abs (sc_lru c))) \<subseteq> set (lru_abs (sc_lru c))"
    by (auto simp: spec_touch_def dest: map_of_SomeD split: option.splits)
  moreover have "lru_list (fst (lru_Get k (sc_lru c))) = [] \<longleftrightarrow> lru_list (sc_lru c) = []"
    using lru_ok_item [OF ok] by (auto simp: lru_Get_def moveToFront_def filter_empty_conv split: option.splits)
  ultimately show ?thesis
    using assms lru_ok_Get [OF ok] by (auto simp: size_ok_def size_Get_def split_def abs_Get [OF ok])
qed

subsection \<open>Properties\<close>

text \<open>C14. The LRU map with its element list and its map of element addresses behaves, over every sequence
  of operations, as a list of pairs in order of use that drops its last pair when a new key exceeds
  the capacity; a lookup answers with the pair of that list.\<close>

theorem lru_refines:
  "lru_abs (fold lru_step ops (NewLRU n)) = fold (spec_step (if n \<le> 0 then 1024 else n)) ops [] \<and>
   snd (lru_Get k (fold lru_step ops (NewLRU n))) = map_of (fold (spec_step (if n \<le> 0 then 1024 else n)) ops []) k"
proof -
  have "lru_abs (fold lru_step ops (NewLRU n)) = fold (spec_step (if n \<le> 0 then 1024 else n)) ops []"
    using abs_run [OF lru_ok_New, of ops n] by (simp add: NewLRU_def lru_abs_def)
  moreover have "lru_ok (fold lru_step ops (NewLRU n))" by (rule lru.run_kept [OF lru_ok_New])
  ultimately show ?thesis by (simp only: abs_Get(2) simp_thms)
qed

text \<open>The byte-limited cache: if no single value is larger than the limit, then after any sequence of
  stores and lookups the values held occupy at most the bytes counted, and the bytes counted stay
  within the limit.\<close>

theorem size_cache_bounds:
  fixes ops :: "('k, 'v) size_op list"
  assumes "0 \<le> m" and "m < 2 ^ 62" and "\<forall>k v. SSet k v \<in> set ops \<longrightarrow> 0 \<le> f v \<and> f v \<le> m"
  shows "let c = fold (size_step f) ops (NewSizeLimitedCache m)
    in total_size f (lru_abs (sc_lru c)) \<le> sc_currentBytes c \<and> sc_currentBytes c \<le> m"
proof -
  have "size_ok f (fold (size_step f) ops c) \<and> sc_maxBytes (fold (size_step f) ops c) = m"
    if "size_ok f c" "sc_maxBytes c = m" for c :: "('k, 'v) size_cache"
    using assms(3) that
  proof (induction ops arbitrary: c)
    case (Cons x ops)
    have "size_ok f (size_step f x c)"
      using Cons.prems assms(2) by (cases x) (auto intro: size_ok_Set size_ok_Get)
    with Cons show ?case by simp
  qed simp
  moreover have "size_ok f (NewSizeLimitedCache m)" "sc_maxBytes (NewSizeLimitedCache m) = m"
    using assms(1) by (auto simp: NewSizeLimitedCache_def size_ok_def NewLRU_def lru_ok_def lru_abs_def Let_def)
  ultimately have "size_ok f (fold (size_step f) ops (NewSizeLimitedCache m)) \<and>
      sc_maxBytes (fold (size_step f) ops (NewSizeLimitedCache m)) = m" by blast
  then show ?thesis by (simp add: size_ok_def Let_def)
qed

theorem size_cache_bounds_witness:
  "let c = fold (size_step int) [SSet ''a'' 2, SSet ''b'' 3, SGet ''a''] (NewSizeLimitedCache 4)
   in total_size int (lru_abs (sc_lru c)) \<le> sc_currentBytes c \<and> sc_currentBytes c \<le> 4"
  by (rule size_cache_bounds) auto

end
