(* ===== verification/Accounts.thy ===== *)
theory Accounts
  imports Ledger
begin

text \<open>
  The account locks of \<^verbatim>\<open>internal/blockchain/accounts.go\<close> and their use for a block in
  \<^verbatim>\<open>lockAccountsForBlock\<close> of \<^verbatim>\<open>chain.go\<close>.  Accounts share 256 locks by a hash of their address.
  An operation of one goroutine that takes a lock it already holds waits forever: the outcome
  \<open>Blocked\<close>, which also stands for a loop that never ends.  \<open>Panic\<close> is an index out of range.
\<close>

datatype 'a outcome = Ret 'a | Blocked | Panic

primrec obind :: "'a outcome \<Rightarrow> ('a \<Rightarrow> 'b outcome) \<Rightarrow> 'b outcome" where
  "obind (Ret x) f = f x"
| "obind Blocked f = Blocked"
| "obind Panic f = Panic"

lemma obind_Ret_iff: "obind m f = Ret y \<longleftrightarrow> (\<exists>x. m = Ret x \<and> f x = Ret y)"
  by (cases m) auto

text \<open>\<^verbatim>\<open>locks\<close> maps a shard to the state of its mutex, \<open>True\<close> when it is held.\<close>

record account_manager =
  am_locks :: "(u64, bool) gomap"
  am_shardMask :: u64
  am_globalEpoch :: int

definition DefaultShards :: u64 where
  "DefaultShards = 256"

definition NewAccountManager :: "u64 \<Rightarrow> account_manager" where
  "NewAccountManager numShards =
     \<lparr>am_locks = [], am_shardMask = (if numShards = 0 then DefaultShards else numShards) - 1, am_globalEpoch = 0\<rparr>"

definition fnvHash :: "string \<Rightarrow> u32" where
  "fnvHash s = fold (\<lambda>c h. (h XOR of_char c) * 16777619) s 2166136261"

definition hashToShard :: "string \<Rightarrow> u64 \<Rightarrow> u64" where
  "hashToShard addr m = ucast (fnvHash addr) AND m"

text \<open>\<^verbatim>\<open>LoadOrStore\<close>: a shard without a mutex gets a fresh one.\<close>

definition getLock :: "string \<Rightarrow> account_manager \<Rightarrow> account_manager \<times> u64 \<times> bool" where
  "getLock addr am =
     (let shard = hashToShard addr (am_shardMask am) in
      case gget (am_locks am) shard of
        Some held \<Rightarrow> (am, shard, held)
      | None \<Rightarrow> (am\<lparr>am_locks := gput shard False (am_locks am)\<rparr>, shard, False))"

text \<open>\<^verbatim>\<open>LockAccount\<close> returns the shard that its unlock function releases.\<close>

definition LockAccount :: "string \<Rightarrow> account_manager \<Rightarrow> (account_manager \<times> u64) outcome" where
  "LockAccount addr am =
     (let (am1, shard, held) = getLock addr am in
      if held then Blocked else Ret (am1\<lparr>am_locks := gput shard True (am_locks am1)\<rparr>, shard))"

definition RLockAccount :: "string \<Rightarrow> account_manager \<Rightarrow> (account_manager \<times> u64) outcome" where
  "RLockAccount addr am = LockAccount addr am"

definition am_unlock :: "u64 \<Rightarrow> account_manager \<Rightarrow> account_manager" where
  "am_unlock shard am = am\<lparr>am_locks := gput shard False (am_locks am)\<rparr>"

fun LockAccounts :: "string list \<Rightarrow> account_manager \<Rightarrow> (account_manager \<times> u64 list) outcome" where
  "LockAccounts [] am = Ret (am, [])"
| "LockAccounts (addr # addrs) am =
     obind (LockAccount addr am) (\<lambda>(am1, shard).
       obind (LockAccounts addrs am1) (\<lambda>(am2, shards). Ret (am2, shard # shards)))"

definition GlobalWrite :: "account_manager \<Rightarrow> account_manager" where
  "GlobalWrite am = am\<lparr>am_globalEpoch := am_globalEpoch am + 1\<rparr>"

definition lockAccountsForBlock :: "block \<Rightarrow> account_manager \<Rightarrow> (account_manager \<times> u64 list) outcome" where
  "lockAccountsForBlock b am = LockAccounts (collectAccountsForBlock b) am"

subsection \<open>When the locks can be taken\<close>

definition am_held :: "account_manager \<Rightarrow> u64 set" where
  "am_held am = {s. gget (am_locks am) s = Some True}"

definition shard_of :: "account_manager \<Rightarrow> string \<Rightarrow> u64" where
  "shard_of am addr = hashToShard addr (am_shardMask am)"

lemma LockAccount_cases:
  "LockAccount addr am =
     (if shard_of am addr \<in> am_held am then Blocked
      else Ret (am\<lparr>am_locks := gput (shard_of am addr) True
        (if gget (am_locks am) (shard_of am addr) = None then gput (shard_of am addr) False (am_locks am) else am_locks am)\<rparr>,
        shard_of am addr))"
  by (auto simp: LockAccount_def getLock_def shard_of_def am_held_def Let_def split: option.splits)

lemma LockAccount_held:
  assumes "LockAccount addr am = Ret (am1, shard)"
  shows "shard = shard_of am addr" "shard \<notin> am_held am" "am_held am1 = insert shard (am_held am)"
    "shard_of am1 = shard_of am"
  using assms by (auto simp: LockAccount_cases am_held_def shard_of_def split: if_splits)

text \<open>The accounts can be locked exactly if their shards are free and pairwise different.\<close>

lemma LockAccounts_iff:
  "(\<exists>r. LockAccounts addrs am = Ret r) \<longleftrightarrow>
     distinct (map (shard_of am) addrs) \<and> set (map (shard_of am) addrs) \<inter> am_held am = {}"
proof (induction addrs arbitrary: am)
  case (Cons addr addrs)
  show ?case
  proof (cases "LockAccount addr am")
    case (Ret p)
    then obtain am1 shard where p: "LockAccount addr am = Ret (am1, shard)" by (cases p) auto
    have "(\<exists>r. LockAccounts (addr # addrs) am = Ret r) \<longleftrightarrow> (\<exists>r. LockAccounts addrs am1 = Ret r)"
      by (auto simp: p obind_Ret_iff)
    with Cons.IH [of am1] LockAccount_held [OF p] show ?thesis by auto
  next
    case Blocked
    then show ?thesis by (auto simp: LockAccount_cases split: if_splits)
  next
    case Panic
    then show ?thesis by (simp add: LockAccount_cases split: if_splits)
  qed
qed simp

lemma LockAccounts_no_panic: "LockAccounts addrs am \<noteq> Panic"
proof (induction addrs arbitrary: am)
  case (Cons addr addrs)
  show ?case
  proof (cases "LockAccount addr am")
    case (Ret p)
    with Cons.IH [of "fst p"] show ?thesis by (cases p; cases "LockAccounts addrs (fst p)") auto
  qed (simp_all add: LockAccount_cases split: if_splits)
qed simp

lemma LockAccounts_result:
  assumes "LockAccounts addrs am = Ret (am', shards)"
  shows "shards = map (shard_of am) addrs \<and> am_held am' = am_held am \<union> set shards"
  using assms
proof (induction addrs arbitrary: am am' shards)
  case (Cons addr addrs)
  then obtain am1 shard rest where l: "LockAccount addr am = Ret (am1, shard)" "LockAccounts addrs am1 = Ret (am', rest)"
    "shards = shard # rest"
    by (auto simp: obind_Ret_iff)
  from Cons.IH [OF l(2)] LockAccount_held [OF l(1)] l(3) show ?case by auto
qed simp

lemma am_held_unlock [simp]: "am_held (am_unlock s am) = am_held am - {s}"
  by (auto simp: am_held_def am_unlock_def)

lemma shard_small: "am_shardMask am = 255 \<Longrightarrow> unat (shard_of am addr) < 256"
proof -
  assume "am_shardMask am = 255"
  then have "shard_of am addr \<le> 255" by (simp add: shard_of_def hashToShard_def word_and_le1)
  then show ?thesis by (simp add: word_le_nat_alt)
qed

lemma am_held_unlock_all: "am_held (fold am_unlock shards am) = am_held am - set shards"
  by (induction shards arbitrary: am) auto

lemma distinct_collectAccountsForBlock: "distinct (collectAccountsForBlock b)"
proof -
  have "gmap_ok (fold (\<lambda>tx (m :: (string, unit) gomap).
     let m1 = gput (tx_ToAddress tx) () m in
     if tx_Type tx = TxTransfer then
       (case FromAddress tx of Inr src \<Rightarrow> gput src () m1 | Inl _ \<Rightarrow> m1)
     else m1) txs m0)" if "gmap_ok m0" for txs m0
    using that by (induction txs arbitrary: m0) (auto simp: Let_def split: sum.splits)
  from this [OF gmap_ok_Nil] show ?thesis by (simp add: collectAccountsForBlock_def gmap_ok_def)
qed

subsection \<open>Properties\<close>

text \<open>Locking the accounts of a block when no lock is held: either two different accounts of the block
  share a shard, and the operation waits for itself forever, or every account's shard is locked and
  releasing the returned locks frees them all.\<close>

theorem block_locks:
  assumes "am_held am = {}"
  shows "case lockAccountsForBlock b am of
      Blocked \<Rightarrow> \<exists>a1 \<in> set (collectAccountsForBlock b). \<exists>a2 \<in> set (collectAccountsForBlock b).
        a1 \<noteq> a2 \<and> hashToShard a1 (am_shardMask am) = hashToShard a2 (am_shardMask am)
    | Panic \<Rightarrow> False
    | Ret (am', shards) \<Rightarrow> inj_on (shard_of am) (set (collectAccountsForBlock b)) \<and>
        am_held am' = shard_of am ` set (collectAccountsForBlock b) \<and> am_held (fold am_unlock shards am') = {}"
proof (cases "lockAccountsForBlock b am")
  case (Ret r)
  then obtain am' shards where r: "LockAccounts (collectAccountsForBlock b) am = Ret (am', shards)"
    by (cases r) (simp add: lockAccountsForBlock_def)
  then have "distinct (map (shard_of am) (collectAccountsForBlock b))"
    using LockAccounts_iff by blast
  with LockAccounts_result [OF r] r assms show ?thesis
    by (simp add: lockAccountsForBlock_def distinct_map am_held_unlock_all)
next
  case Blocked
  then have "\<not> (\<exists>r. LockAccounts (collectAccountsForBlock b) am = Ret r)" by (simp add: lockAccountsForBlock_def)
  then have "\<not> inj_on (shard_of am) (set (collectAccountsForBlock b))"
    unfolding LockAccounts_iff by (simp add: assms distinct_map distinct_collectAccountsForBlock)
  with Blocked show ?thesis by (auto simp: inj_on_def shard_of_def)
next
  case Panic
  then show ?thesis by (simp add: lockAccountsForBlock_def LockAccounts_no_panic)
qed

theorem block_locks_witness:
  "\<exists>am' shards. lockAccountsForBlock reward_block (NewAccountManager 256) = Ret (am', shards) \<and>
     am_held (fold am_unlock shards am') = {}"
proof -
  have held: "am_held (NewAccountManager 256) = {}" by (simp add: am_held_def NewAccountManager_def)
  have "collectAccountsForBlock reward_block = [GenerateAddress (replicate 32 3)]"
    by (simp add: collectAccountsForBlock_def reward_block_def gput_def Let_def)
  then show ?thesis
    using block_locks [OF held, of reward_block] by (auto split: outcome.splits)
qed

text \<open>There are only 256 locks, so a block that touches more than 256 accounts can never be locked:
  mining such a block waits forever.\<close>

theorem over_256_accounts_block:
  assumes "256 < card (\<Union>tx \<in> set (blk_Transactions b). tx_accounts tx)"
  shows "lockAccountsForBlock b (NewAccountManager 256) = Blocked"
proof (rule ccontr)
  let ?am = "NewAccountManager 256"
  assume "lockAccountsForBlock b ?am \<noteq> Blocked"
  then obtain r where "LockAccounts (collectAccountsForBlock b) ?am = Ret r"
    by (cases "lockAccountsForBlock b ?am") (auto simp: lockAccountsForBlock_def LockAccounts_no_panic)
  then have inj: "inj_on (shard_of ?am) (set (collectAccountsForBlock b))"
    using LockAccounts_iff [of "collectAccountsForBlock b" ?am] by (auto simp: distinct_map)
  have "unat ` shard_of ?am ` set (collectAccountsForBlock b) \<subseteq> {..<256}"
    using shard_small [of ?am] by (auto simp: NewAccountManager_def)
  then have "card (unat ` shard_of ?am ` set (collectAccountsForBlock b)) \<le> 256"
    using card_mono [of "{..<256::nat}"] by force
  moreover have "card (unat ` shard_of ?am ` set (collectAccountsForBlock b)) = card (set (collectAccountsForBlock b))"
  proof -
    have "inj_on unat (shard_of ?am ` set (collectAccountsForBlock b))" by (auto simp: inj_on_def word_unat_eq_iff)
    then show ?thesis by (simp only: card_image inj)
  qed
  ultimately show False using assms by (simp add: set_collectAccountsForBlock)
qed

theorem over_256_accounts_block_witness:
  "lockAccountsForBlock (reward_block\<lparr>blk_Transactions :=
     map (\<lambda>n. demo_tx\<lparr>tx_Type := TxCoinbase, tx_ToAddress := replicate n CHR ''a''\<rparr>) [0..<257]\<rparr>) (NewAccountManager 256) = Blocked"
proof (rule over_256_accounts_block)
  have "tx_accounts (demo_tx\<lparr>tx_Type := TxCoinbase, tx_ToAddress := replicate n CHR ''a''\<rparr>) = {replicate n CHR ''a''}" for n
    by (simp add: tx_accounts_def FromAddress_def)
  then have "(\<Union>tx \<in> set (map (\<lambda>n. demo_tx\<lparr>tx_Type := TxCoinbase, tx_ToAddress := replicate n CHR ''a''\<rparr>) [0..<257]). tx_accounts tx) =
      (\<lambda>n. replicate n CHR ''a'') ` {0..<257}" by auto
  moreover have "card ((\<lambda>n. replicate n CHR ''a'') ` {0..<257}) = 257"
    by (subst card_image) (auto simp: inj_on_def)
  ultimately show "256 < card (\<Union>tx \<in> set (blk_Transactions (reward_block\<lparr>blk_Transactions :=
     map (\<lambda>n. demo_tx\<lparr>tx_Type := TxCoinbase, tx_ToAddress := replicate n CHR ''a''\<rparr>) [0..<257]\<rparr>)). tx_accounts tx)"
    by (simp del: upt_rec_numeral)
qed

end
