(* ===== verification/Chain.thy ===== *)
theory Chain
  imports Pruner Orphans Cache Accounts
begin

text \<open>
  The chain itself: the state of \<^verbatim>\<open>Blockchain\<close> (\<^verbatim>\<open>internal/blockchain/chain.go\<close>), its indexes, the state
  commitments of \<^verbatim>\<open>state_commitment.go\<close>, and the acceptance of blocks with fork choice in
  \<^verbatim>\<open>forks.go\<close>.  The store is any implementation \<open>cs\<close> of the interface; \<open>ed\<close> is the signature check,
  \<open>now\<close> the clock.  \<open>bc_mu\<close> says whether the goroutine holds the chain's mutex; taking it, for reading
  or writing, while it is held is \<open>Blocked\<close>.  Readers that hold it for their whole body are written
  for a caller that does not.  \<open>bc_events\<close> and \<open>bc_onBlockMined\<close> say whether an event sink and a callback
  are set; what is published and called is returned as a list of events.
\<close>

subsection \<open>State\<close>

record 's blockchain =
  bc_ChainID :: u64
  bc_MinerAddress :: string
  bc_consensus :: consensus_params
  bc_rulesHash :: bytes
  bc_events :: bool
  bc_onBlockMined :: bool
  bc_mu :: bool
  bc_accountManager :: account_manager
  bc_blocks :: "block list"
  bc_state :: ledger
  bc_store :: 's
  bc_blocksByHash :: "(string, block) gomap"
  bc_bestTipHash :: string
  bc_canonicalWork :: nat
  bc_txIndex :: "(string, tx_location) gomap"
  bc_addressIndex :: "(string, address_tx_entry list) gomap"
  bc_cache :: "block node_cache"
  bc_cfg :: chain_config
  bc_orphanPool :: orphanPool

definition bc_RLock :: "'s blockchain \<Rightarrow> unit outcome" where
  "bc_RLock bc = (if bc_mu bc then Blocked else Ret ())"

definition bc_Lock :: "'s blockchain \<Rightarrow> 's blockchain outcome" where
  "bc_Lock bc = (if bc_mu bc then Blocked else Ret (bc\<lparr>bc_mu := True\<rparr>))"

definition bc_Unlock :: "'s blockchain \<Rightarrow> 's blockchain" where
  "bc_Unlock bc = bc\<lparr>bc_mu := False\<rparr>"

definition RulesHashHex :: "'s blockchain \<Rightarrow> string" where
  "RulesHashHex bc = (if bc_rulesHash bc = replicate 32 0 then [] else hex_encode (bc_rulesHash bc))"

definition SetEventSink :: "bool \<Rightarrow> 's blockchain \<Rightarrow> 's blockchain outcome" where
  "SetEventSink sink bc = obind (bc_Lock bc) (\<lambda>bc1. Ret (bc_Unlock (bc1\<lparr>bc_events := sink\<rparr>)))"

definition SetBlockMinedCallback :: "bool \<Rightarrow> 's blockchain \<Rightarrow> 's blockchain outcome" where
  "SetBlockMinedCallback fn bc = obind (bc_Lock bc) (\<lambda>bc1. Ret (bc_Unlock (bc1\<lparr>bc_onBlockMined := fn\<rparr>)))"

definition LatestBlock :: "'s blockchain \<Rightarrow> block outcome" where
  "LatestBlock bc = (if bc_blocks bc = [] then Panic else Ret (last (bc_blocks bc)))"

definition CanonicalWork :: "'s blockchain \<Rightarrow> nat" where
  "CanonicalWork bc = bc_canonicalWork bc"

definition BlockByHeight :: "u64 \<Rightarrow> 's blockchain \<Rightarrow> block option" where
  "BlockByHeight height bc =
     (if length (bc_blocks bc) \<le> unat height then None else Some (bc_blocks bc ! unat height))"

definition CanonicalTxCount :: "'s blockchain \<Rightarrow> nat" where
  "CanonicalTxCount bc = fold (\<lambda>b total. total + length (blk_Transactions b)) (bc_blocks bc) 0"

definition NextDifficultyBits :: "'s blockchain \<Rightarrow> u32 option" where
  "NextDifficultyBits bc = nextDifficultyBitsFromPath (bc_consensus bc) (bc_blocks bc)"

text \<open>\<^verbatim>\<open>Balance\<close> answers from the cache first; a cached answer carries no nonce.\<close>

definition Balance :: "string \<Rightarrow> 's blockchain \<Rightarrow> ('s blockchain \<times> account option) outcome" where
  "Balance address bc =
     obind (RLockAccount address (bc_accountManager bc)) (\<lambda>(am, shard).
       let (c1, hit) = GetCachedBalance address (bc_cache bc);
           bc1 = bc\<lparr>bc_accountManager := am_unlock shard am, bc_cache := c1\<rparr>
       in case hit of
            Some bal \<Rightarrow> Ret (bc1, Some \<lparr>acc_Balance = word_of_int bal, acc_Nonce = 0\<rparr>)
          | None \<Rightarrow>
              (case gget (bc_state bc) address of
                 None \<Rightarrow> Ret (bc1, None)
               | Some a \<Rightarrow> Ret (bc1\<lparr>bc_cache := CacheBalance address (int64_of (acc_Balance a)) c1\<rparr>, Some a)))"

subsection \<open>Indexes\<close>

definition addToIndexLocked :: "block \<Rightarrow> 's blockchain \<Rightarrow> 's blockchain" where
  "addToIndexLocked b bc =
     (if sl (blk_Hash b) = [] then bc
      else bc\<lparr>bc_blocksByHash := gput (block_hex b) b (bc_blocksByHash bc)\<rparr>)"

definition index_tx :: "consensus_params \<Rightarrow> block \<Rightarrow> nat \<times> transaction \<Rightarrow> (string, tx_location) gomap \<Rightarrow> (string, tx_location) gomap" where
  "index_tx p b itx m =
     (if tx_Type (snd itx) \<noteq> TxTransfer then m
      else case TxIDHexForConsensus (snd itx) p (blk_Height b) of
        Inl _ \<Rightarrow> m
      | Inr txid \<Rightarrow> gput txid \<lparr>loc_Height = blk_Height b, loc_BlockHashHex = block_hex b, loc_Index = int (fst itx)\<rparr> m)"

definition indexTxsForBlockLocked :: "block \<Rightarrow> 's blockchain \<Rightarrow> 's blockchain" where
  "indexTxsForBlockLocked b bc =
     bc\<lparr>bc_txIndex := fold (index_tx (bc_consensus bc) b) (enumerate 0 (blk_Transactions b)) (bc_txIndex bc)\<rparr>"

definition index_push :: "string \<Rightarrow> 'e \<Rightarrow> (string, 'e list) gomap \<Rightarrow> (string, 'e list) gomap" where
  "index_push a e m = gput a ((case gget m a of None \<Rightarrow> [] | Some l \<Rightarrow> l) @ [e]) m"

definition index_address_tx ::
  "consensus_params \<Rightarrow> block \<Rightarrow> nat \<times> transaction \<Rightarrow> (string, address_tx_entry list) gomap \<Rightarrow> (string, address_tx_entry list) gomap" where
  "index_address_tx p b itx m =
     (let tx = snd itx in
      if tx_Type tx \<noteq> TxTransfer then m
      else case TxIDHexForConsensus tx p (blk_Height b) of
        Inl _ \<Rightarrow> m
      | Inr txid \<Rightarrow>
          (case FromAddress tx of
             Inl _ \<Rightarrow> m
           | Inr from_addr \<Rightarrow>
               let entry = \<lparr>ate_TxID = txid,
                     ate_Location = \<lparr>loc_Height = blk_Height b, loc_BlockHashHex = block_hex b, loc_Index = int (fst itx)\<rparr>,
                     ate_FromAddr = from_addr, ate_ToAddress = tx_ToAddress tx, ate_Amount = tx_Amount tx,
                     ate_Fee = tx_Fee tx, ate_Nonce = tx_Nonce tx\<rparr>;
                   m1 = index_push from_addr entry m
               in if tx_ToAddress tx \<noteq> from_addr then index_push (tx_ToAddress tx) entry m1 else m1))"

definition indexAddressTxsForBlockLocked :: "block \<Rightarrow> 's blockchain \<Rightarrow> 's blockchain" where
  "indexAddressTxsForBlockLocked b bc =
     bc\<lparr>bc_addressIndex := fold (index_address_tx (bc_consensus bc) b) (enumerate 0 (blk_Transactions b)) (bc_addressIndex bc)\<rparr>"

definition reindexAllTxsLocked :: "'s blockchain \<Rightarrow> 's blockchain" where
  "reindexAllTxsLocked bc = fold indexTxsForBlockLocked (bc_blocks bc) (bc\<lparr>bc_txIndex := []\<rparr>)"

definition reindexAllAddressTxsLocked :: "'s blockchain \<Rightarrow> 's blockchain" where
  "reindexAllAddressTxsLocked bc = fold indexAddressTxsForBlockLocked (bc_blocks bc) (bc\<lparr>bc_addressIndex := []\<rparr>)"

definition initCanonicalIndexesLocked :: "'s blockchain \<Rightarrow> 's blockchain outcome" where
  "initCanonicalIndexesLocked bc =
     (let bc1 = fold addToIndexLocked (bc_blocks bc) bc in
      if bc_blocks bc = [] then Panic
      else
        let bc2 = reindexAllAddressTxsLocked (reindexAllTxsLocked (bc1\<lparr>bc_bestTipHash := block_hex (last (bc_blocks bc))\<rparr>))
        in Ret (bc2\<lparr>bc_canonicalWork := fold (\<lambda>b w. w + WorkForDifficultyBits (blk_DifficultyBits b)) (bc_blocks bc) 0\<rparr>))"

definition TxByID :: "string \<Rightarrow> 's blockchain \<Rightarrow> (transaction \<times> tx_location) option" where
  "TxByID txid bc =
     (case gget (bc_txIndex bc) txid of
        None \<Rightarrow> None
      | Some loc \<Rightarrow>
          if length (bc_blocks bc) \<le> unat (loc_Height loc) \<or> loc_Index loc < 0 then None
          else
            let b = bc_blocks bc ! unat (loc_Height loc) in
            if int (length (blk_Transactions b)) \<le> loc_Index loc then None
            else if block_hex b \<noteq> loc_BlockHashHex loc then None
            else Some (blk_Transactions b ! nat (loc_Index loc), loc))"

text \<open>A page of the entries of an address, newest first.\<close>

definition AddressTxs :: "string \<Rightarrow> int \<Rightarrow> int \<Rightarrow> 's blockchain \<Rightarrow> address_tx_entry list \<times> int \<times> bool" where
  "AddressTxs address limit cursor bc =
     (let all = (case gget (bc_addressIndex bc) address of None \<Rightarrow> [] | Some l \<Rightarrow> l) in
      if all = [] then ([], 0, False)
      else
        let limit = (if limit \<le> 0 then 50 else limit);
            limit = (if 200 < limit then 200 else limit);
            cursor = (if cursor < 0 then 0 else cursor);
            start = int (length all) - 1 - cursor
        in if start < 0 then ([], cursor, False)
           else
             let out = take (nat limit) (rev (take (nat (start + 1)) all));
                 nextCursor = cursor + int (length out)
             in (out, nextCursor, 0 \<le> int (length all) - 1 - nextCursor))"

definition addressesForBlock :: "block \<Rightarrow> string list" where
  "addressesForBlock b = sort (remdups (concat (map (\<lambda>tx.
     (if tx_ToAddress tx \<noteq> [] then [ToLower_ascii (tx_ToAddress tx)] else []) @
     (if tx_Type tx = TxTransfer then
        (case FromAddress tx of Inr a \<Rightarrow> if a \<noteq> [] then [ToLower_ascii a] else [] | Inl _ \<Rightarrow> []) else [])) (blk_Transactions b))))"

subsection \<open>State commitments\<close>

text \<open>\<open>None\<close> of the root functions is an index panic.\<close>

definition of_root :: "bytes option \<Rightarrow> bytes outcome" where
  "of_root r = (case r of None \<Rightarrow> Panic | Some root \<Rightarrow> Ret root)"

definition ComputeStateCommitment :: "int \<Rightarrow> 's blockchain \<Rightarrow> StateCommitment res outcome" where
  "ComputeStateCommitment height bc =
     obind (bc_RLock bc) (\<lambda>_.
       if int (length (bc_blocks bc)) \<le> height then Ret (Inl ''height beyond chain length'')
       else if height < 0 then Panic
       else
         let b = bc_blocks bc ! nat height in
         obind (of_root (computeStateRoot (bc_state bc))) (\<lambda>stateRoot.
         obind (of_root (computeUTXORoot (bc_state bc))) (\<lambda>utxoRoot.
           Ret (Inr \<lparr>cm_BlockHeight = height, cm_BlockHash = block_hex b, cm_StateRoot = Some stateRoot,
             cm_UTXORoot = Some utxoRoot, cm_ReceiptRoot = None, cm_TxCount = int (length (blk_Transactions b)),
             cm_StateHashes = [], cm_Timestamp = blk_TimestampUnix b\<rparr>))))"

definition VerifyStateCommitment :: "int \<Rightarrow> StateCommitment \<Rightarrow> 's blockchain \<Rightarrow> bool res outcome" where
  "VerifyStateCommitment height commitment bc =
     obind (ComputeStateCommitment height bc) (\<lambda>r. Ret (rbind r (\<lambda>computed.
       Inr (bytesEqual (sl (cm_StateRoot computed)) (sl (cm_StateRoot commitment))))))"

record CommitmentInfo =
  ci_StateRoot :: slice
  ci_UTXORoot :: slice
  ci_TxCount :: int
  ci_Accounts :: int
  ci_Storage :: int

definition GetCommitmentInfo :: "int \<Rightarrow> 's blockchain \<Rightarrow> CommitmentInfo outcome" where
  "GetCommitmentInfo height bc =
     obind (bc_RLock bc) (\<lambda>_.
       obind (of_root (computeStateRoot (bc_state bc))) (\<lambda>stateRoot.
       obind (of_root (computeUTXORoot (bc_state bc))) (\<lambda>utxoRoot.
         Ret \<lparr>ci_StateRoot = Some stateRoot, ci_UTXORoot = Some utxoRoot, ci_TxCount = int (length (bc_blocks bc)),
           ci_Accounts = int (length (bc_state bc)), ci_Storage = 0\<rparr>)))"

text \<open>The canonical block at a height, the block of the hash index and the cached block are one object,
  so the roots written to it are seen through all three.\<close>

definition with_roots :: "slice \<Rightarrow> slice \<Rightarrow> block \<Rightarrow> block" where
  "with_roots sr ur b = b\<lparr>blk_StateRoot := sr, blk_UTXORoot := ur\<rparr>"

definition set_roots :: "u64 \<Rightarrow> slice \<Rightarrow> slice \<Rightarrow> 's blockchain \<Rightarrow> 's blockchain" where
  "set_roots height sr ur bc =
     (if unat height < length (bc_blocks bc) then
        let b = bc_blocks bc ! unat height; h = block_hex b;
            upd = (\<lambda>x. if x = b then with_roots sr ur x else x)
        in bc\<lparr>bc_blocks := (bc_blocks bc)[unat height := with_roots sr ur b],
              bc_blocksByHash := map (\<lambda>(k, x). (k, if k = h then upd x else x)) (bc_blocksByHash bc),
              bc_cache := (bc_cache bc)\<lparr>nc_blocks := (nc_blocks (bc_cache bc))\<lparr>lru_list :=
                 map (\<lambda>(el, k, x). (el, k, if k = h then upd x else x)) (lru_list (nc_blocks (bc_cache bc)))\<rparr>\<rparr>\<rparr>
      else bc)"

definition ComputeAndStoreCommitment :: "'s chain_store \<Rightarrow> u64 \<Rightarrow> 's blockchain \<Rightarrow> ('s blockchain \<times> unit res) outcome" where
  "ComputeAndStoreCommitment cs height bc =
     (if \<not> ShouldCommit height then Ret (bc, Inr ())
      else obind (ComputeStateCommitment (int64_of height) bc) (\<lambda>r.
        case r of
          Inl e \<Rightarrow> Ret (bc, Inl (''compute commitment: '' @ e))
        | Inr commitment \<Rightarrow>
            (case cs_WriteCommitment cs commitment (bc_store bc) of
               (s', Inl e) \<Rightarrow> Ret (bc\<lparr>bc_store := s'\<rparr>, Inl (''store commitment: '' @ e))
             | (s', Inr _) \<Rightarrow>
                 obind (bc_Lock (bc\<lparr>bc_store := s'\<rparr>)) (\<lambda>bc1.
                   Ret (bc_Unlock (set_roots height (cm_StateRoot commitment) (cm_UTXORoot commitment) bc1), Inr ())))))"

subsection \<open>Validating a path\<close>

text \<open>The walk from a tip to a block without parent.\<close>

function walk_back :: "(string, block) gomap \<Rightarrow> string list \<Rightarrow> string \<Rightarrow> block list res" where
  "walk_back m seen cur =
     (if cur \<in> set seen then Inl ''cycle detected''
      else case gget m cur of
        None \<Rightarrow> Inl ''missing ancestor''
      | Some b \<Rightarrow>
          if blk_Height b = 0 \<or> sl (blk_PrevHash b) = [] then Inr [b]
          else rbind (walk_back m (cur # seen) (hex_encode (sl (blk_PrevHash b)))) (\<lambda>r. Inr (b # r)))"
  by pat_completeness auto
termination
proof (relation "measure (\<lambda>(m, seen, cur). card (fst ` set m - set seen))")
  fix m :: "(string, block) gomap" and seen :: "string list" and cur b
  assume "cur \<notin> set seen" and "gget m cur = Some b"
  then have "cur \<in> fst ` set m - set seen" by (auto dest!: gget_SomeD intro!: image_eqI)
  then have "fst ` set m - set (cur # seen) \<subset> fst ` set m - set seen" by auto
  then show "((m, cur # seen, hex_encode (sl (blk_PrevHash b))), m, seen, cur) \<in> measure (\<lambda>(m, seen, cur). card (fst ` set m - set seen))"
    by (simp add: psubset_card_mono)
qed simp

declare walk_back.simps [simp del]

text \<open>The checks of block \<open>i\<close> of a path, before it is applied.\<close>

definition path_check :: "consensus_params \<Rightarrow> int \<Rightarrow> block list \<Rightarrow> nat \<Rightarrow> unit res outcome" where
  "path_check p now path i =
     (let b = path ! i in
      if i = 0 then
        (if blk_Height b \<noteq> 0 \<or> sl (blk_PrevHash b) \<noteq> [] then Ret (Inl ''bad genesis header'')
         else if blk_Version b \<noteq> blockVersionForHeight p 0 then Ret (Inl ''bad genesis version'')
         else Ret (Inr ()))
      else
        let prev = path ! (i - 1) in
        if blk_Height b \<noteq> blk_Height prev + 1 then Ret (Inl ''bad height linkage'')
        else if hex_encode (sl (blk_PrevHash b)) \<noteq> block_hex prev then Ret (Inl ''bad prevhash linkage'')
        else (case validateBlockTime now p path i of
            Inl e \<Rightarrow> Ret (Inl e)
          | Inr _ \<Rightarrow>
              obind
                (if cp_DifficultyEnable p then
                   (case expectedDifficultyBitsForBlockIndex p path i of
                      None \<Rightarrow> Panic
                    | Some expected \<Rightarrow>
                        if expected = 0 then Ret (Inl ''difficulty calc failed'')
                        else if blk_DifficultyBits b \<noteq> expected then Ret (Inl ''bad difficulty'')
                        else Ret (Inr ()))
                 else Ret (Inr ()))
                (\<lambda>r. case r of
                   Inl e \<Rightarrow> Ret (Inl e)
                 | Inr _ \<Rightarrow>
                     if blk_Version b \<noteq> blockVersionForHeight p (blk_Height b) then Ret (Inl ''bad block version'')
                     else Ret (Inr ()))))"

fun path_loop ::
  "ed25519 \<Rightarrow> consensus_params \<Rightarrow> int \<Rightarrow> block list \<Rightarrow> nat \<Rightarrow> block list \<Rightarrow> ledger \<Rightarrow> nat \<Rightarrow> (ledger \<times> nat) res outcome" where
  "path_loop ed p now path i [] st work = Ret (Inr (st, work))"
| "path_loop ed p now path i (b # rest) st work =
     obind (path_check p now path i) (\<lambda>r.
       case r of
         Inl e \<Rightarrow> Ret (Inl e)
       | Inr _ \<Rightarrow>
           (case applyBlockToState ed p b st of
              (_, Inl e) \<Rightarrow> Ret (Inl e)
            | (st', Inr _) \<Rightarrow>
                path_loop ed p now path (Suc i) rest st' (work + WorkForDifficultyBits (blk_DifficultyBits b))))"

definition computeCanonicalForTipLocked ::
  "ed25519 \<Rightarrow> int \<Rightarrow> string \<Rightarrow> 's blockchain \<Rightarrow> (block list \<times> ledger \<times> nat) res outcome" where
  "computeCanonicalForTipLocked ed now tipHashHex bc =
     (case walk_back (bc_blocksByHash bc) [] tipHashHex of
        Inl e \<Rightarrow> Ret (Inl e)
      | Inr bk \<Rightarrow>
          let path = rev bk in
          obind (path_loop ed (bc_consensus bc) now path 0 path [] 0) (\<lambda>r.
            Ret (rbind r (\<lambda>(st, work). Inr (path, st, work)))))"

subsection \<open>Accepting a block\<close>

datatype ws_event =
    NewBlockEvent u64 string string u32 nat "string list"
  | ReorgEvent string string
  | MinedCallback int

fun tx_checks :: "ed25519 \<Rightarrow> consensus_params \<Rightarrow> u64 \<Rightarrow> u64 \<Rightarrow> transaction list \<Rightarrow> unit res" where
  "tx_checks ed p chainID height [] = Inr ()"
| "tx_checks ed p chainID height (tx0 # txs) =
     (let tx = (if tx_ChainID tx0 = 0 then tx0\<lparr>tx_ChainID := chainID\<rparr> else tx0) in
      if tx_ChainID tx \<noteq> chainID then Inl ''wrong chainId''
      else rbind (VerifyForConsensus ed tx p height) (\<lambda>_. tx_checks ed p chainID height txs))"

text \<open>What \<^verbatim>\<open>AddBlock\<close> checks before it takes the lock.\<close>

definition block_checks :: "ed25519 \<Rightarrow> 's blockchain \<Rightarrow> block \<Rightarrow> unit res" where
  "block_checks ed bc b =
     (if blk_Height b = 0 then Inl ''external genesis blocks not accepted''
      else if blk_Version b \<noteq> blockVersionForHeight (bc_consensus bc) (blk_Height b) then Inl ''bad block version''
      else if sl (blk_Hash b) = [] then Inl ''missing block hash''
      else if blk_DifficultyBits b = 0 then Inl ''missing difficultyBits''
      else if maxDifficultyBits < blk_DifficultyBits b then Inl ''difficultyBits out of range''
      else rbind (pow_Validate (bc_consensus bc) b) (\<lambda>ok.
        if \<not> ok then Inl ''invalid proof-of-work''
        else tx_checks ed (bc_consensus bc) (bc_ChainID bc) (blk_Height b) (blk_Transactions b)))"

definition better_tip :: "nat \<Rightarrow> string \<Rightarrow> nat \<Rightarrow> string \<Rightarrow> bool" where
  "better_tip newWork hashHex currentWork currentTip \<longleftrightarrow>
     currentWork < newWork \<or> newWork = currentWork \<and> hashHex < currentTip"

definition adopt :: "block list \<Rightarrow> ledger \<Rightarrow> nat \<Rightarrow> string \<Rightarrow> 's blockchain \<Rightarrow> 's blockchain" where
  "adopt path st newWork hashHex bc =
     (reindexAllAddressTxsLocked (reindexAllTxsLocked
        (bc\<lparr>bc_blocks := path, bc_state := st, bc_bestTipHash := hashHex\<rparr>)))\<lparr>bc_canonicalWork := newWork\<rparr>"

definition checkpoint_due :: "chain_config \<Rightarrow> u64 \<Rightarrow> bool" where
  "checkpoint_due cfg height \<longleftrightarrow>
     cfg_StoreMode cfg = ''pruned'' \<and>
     tmod (int64_of height) (if cfg_CheckpointInterval cfg = 0 then 100 else cfg_CheckpointInterval cfg) = 0"

definition block_event :: "block \<Rightarrow> ws_event" where
  "block_event b = NewBlockEvent (blk_Height b) (block_hex b) (hex_encode (sl (blk_PrevHash b))) (blk_DifficultyBits b)
     (length (blk_Transactions b)) (addressesForBlock b)"

type_synonym 's add_result = "'s blockchain \<times> (bool \<times> unit res) \<times> ws_event list"

text \<open>Switching to a better tip.  The commitment is computed with the lock still held.\<close>

definition switch_to :: "'s chain_store \<Rightarrow> block \<Rightarrow> block list \<Rightarrow> ledger \<Rightarrow> nat \<Rightarrow> 's blockchain \<Rightarrow> 's add_result outcome" where
  "switch_to cs b path st newWork bc =
     (if bc_blocks bc = [] then Panic
      else
        let currentTip = bc_bestTipHash bc;
            parentHashHex = hex_encode (sl (blk_PrevHash b));
            wasExtension = (parentHashHex = currentTip \<and> blk_Height b = blk_Height (last (bc_blocks bc)) + 1);
            bc1 = adopt path st newWork (block_hex b) bc
        in case cs_RewriteCanonical cs path (bc_store bc1) of
             (s2, Inl e) \<Rightarrow> Ret (bc1\<lparr>bc_store := s2\<rparr>, (\<not> wasExtension, Inl e), [])
           | (s2, Inr _) \<Rightarrow>
               let mined = (if wasExtension \<and> bc_onBlockMined bc then
                     (case gget (bc_blocksByHash bc) parentHashHex of
                        None \<Rightarrow> [] | Some parent \<Rightarrow> [MinedCallback (blk_TimestampUnix parent)]) else []);
                   s3 = (if checkpoint_due (bc_cfg bc) (blk_Height b)
                         then fst (StateCheckpoint cs (NewPruner (bc_cfg bc)) (int64_of (blk_Height b)) s2) else s2);
                   bc3 = bc1\<lparr>bc_store := s3\<rparr>;
                   published = (if bc_events bc then block_event b #
                     (if wasExtension then [] else [ReorgEvent currentTip (block_hex b)]) else [])
               in obind (if ShouldCommit (blk_Height b) then ComputeAndStoreCommitment cs (blk_Height b) bc3 else Ret (bc3, Inr ()))
                    (\<lambda>(bc4, _). Ret (bc4, (\<not> wasExtension, Inr ()), mined @ published)))"

text \<open>What \<^verbatim>\<open>AddBlock\<close> does under the lock.\<close>

definition add_locked :: "ed25519 \<Rightarrow> 's chain_store \<Rightarrow> int \<Rightarrow> block \<Rightarrow> 's blockchain \<Rightarrow> 's add_result outcome" where
  "add_locked ed cs now b bc =
     (if gget (bc_blocksByHash bc) (hex_encode (sl (blk_PrevHash b))) = None then
        Ret (bc\<lparr>bc_orphanPool := orphan_AddBlock now b (bc_orphanPool bc)\<rparr>, (False, Inl ''unknown parent''), [])
      else if gget (bc_blocksByHash bc) (block_hex b) \<noteq> None then Ret (bc, (False, Inl ''duplicate block''), [])
      else
        let bc1 = bc\<lparr>bc_blocksByHash := gput (block_hex b) b (bc_blocksByHash bc)\<rparr>;
            undo = (\<lambda>bc. bc\<lparr>bc_blocksByHash := gdel (block_hex b) (bc_blocksByHash bc)\<rparr>)
        in obind (computeCanonicalForTipLocked ed now (block_hex b) bc1) (\<lambda>r.
          case r of
            Inl e \<Rightarrow> Ret (undo bc1, (False, Inl e), [])
          | Inr (path, st, newWork) \<Rightarrow>
              (case cs_PutBlock cs b (bc_store bc1) of
                 (s', Inl e) \<Rightarrow> Ret (undo (bc1\<lparr>bc_store := s'\<rparr>), (False, Inl e), [])
               | (s', Inr _) \<Rightarrow>
                   if better_tip newWork (block_hex b) (bc_canonicalWork bc1) (bc_bestTipHash bc1)
                   then switch_to cs b path st newWork (bc1\<lparr>bc_store := s'\<rparr>)
                   else Ret (bc1\<lparr>bc_store := s'\<rparr>, (False, Inr ()), []))))"

definition AddBlock_locked :: "ed25519 \<Rightarrow> 's chain_store \<Rightarrow> int \<Rightarrow> block \<Rightarrow> 's blockchain \<Rightarrow> 's add_result outcome" where
  "AddBlock_locked ed cs now b bc =
     obind (bc_Lock bc) (\<lambda>bc1. obind (add_locked ed cs now b bc1) (\<lambda>(bc2, r, events). Ret (bc_Unlock bc2, r, events)))"

definition AddBlock :: "ed25519 \<Rightarrow> 's chain_store \<Rightarrow> int \<Rightarrow> block option \<Rightarrow> 's blockchain \<Rightarrow> 's add_result outcome" where
  "AddBlock ed cs now blk bc =
     (case blk of
        None \<Rightarrow> Ret (bc, (False, Inl ''nil block''), [])
      | Some b \<Rightarrow>
          (case block_checks ed bc b of
             Inl e \<Rightarrow> Ret (bc, (False, Inl e), [])
           | Inr _ \<Rightarrow> AddBlock_locked ed cs now b bc))"

subsection \<open>Recomputing and auditing\<close>

definition replay_block :: "ed25519 \<Rightarrow> consensus_params \<Rightarrow> block \<Rightarrow> ledger \<Rightarrow> ledger \<times> unit res" where
  "replay_block ed p b st =
     (case applyBlockToState ed p b st of
        (st', Inl e) \<Rightarrow> (st', Inl (''apply block '' @ json_u64 (blk_Height b) @ '': '' @ e))
      | (st', Inr _) \<Rightarrow> (st', Inr ()))"

definition recomputeStateLocked :: "ed25519 \<Rightarrow> 's chain_store \<Rightarrow> chain_config \<Rightarrow> 's blockchain \<Rightarrow> 's blockchain \<times> unit res" where
  "recomputeStateLocked ed cs cfg bc =
     (let checkpoints = (if cfg_StoreMode cfg = ''pruned'' \<and> bc_blocks bc \<noteq> []
            then (case cs_GetCheckpointHeights cs (bc_store bc) of Inl _ \<Rightarrow> [] | Inr hs \<Rightarrow> hs) else []);
          (st, r) =
            (if checkpoints = [] then run_all (replay_block ed (bc_consensus bc)) (bc_blocks bc) []
             else
               let latest = last checkpoints;
                   found = (\<exists>b \<in> set (bc_blocks bc). int64_of (blk_Height b) = latest);
                   replayFrom0 = (if found then i64 (latest + 1) else 0);
                   replayFrom = (if replayFrom0 = 0 then int64_of (blk_Height (hd (bc_blocks bc))) else replayFrom0);
                   st0 = (if 0 < replayFrom \<and> found
                          then (case cs_ReadCheckpoint cs latest (bc_store bc) of Inl _ \<Rightarrow> [] | Inr st \<Rightarrow> st) else [])
               in run_all (replay_block ed (bc_consensus bc))
                    (filter (\<lambda>b. replayFrom \<le> int64_of (blk_Height b)) (bc_blocks bc)) st0)
      in (bc\<lparr>bc_state := st\<rparr>, r))"

definition recomputeState :: "ed25519 \<Rightarrow> 's chain_store \<Rightarrow> 's blockchain \<Rightarrow> ('s blockchain \<times> unit res) outcome" where
  "recomputeState ed cs bc = obind (bc_Lock bc) (\<lambda>bc1.
     let (bc2, r) = recomputeStateLocked ed cs (bc_cfg bc1) bc1 in Ret (bc_Unlock bc2, r))"

definition audit_linkage :: "consensus_params \<Rightarrow> int \<Rightarrow> block list \<Rightarrow> nat \<Rightarrow> unit res outcome" where
  "audit_linkage p now blocks i =
     (let b = blocks ! i in
      if i = 0 then
        (if blk_Height b \<noteq> 0 \<or> sl (blk_PrevHash b) \<noteq> [] then Ret (Inl ''invalid genesis header'')
         else if blk_Version b \<noteq> blockVersionForHeight p 0 then Ret (Inl ''bad block version'')
         else Ret (Inr ()))
      else
        let prev = blocks ! (i - 1) in
        if blk_Height b \<noteq> blk_Height prev + 1 then Ret (Inl ''bad height'')
        else if sl (blk_PrevHash b) \<noteq> sl (blk_Hash prev) then Ret (Inl ''bad prev hash'')
        else (case validateBlockTime now p blocks i of
            Inl e \<Rightarrow> Ret (Inl e)
          | Inr _ \<Rightarrow>
              obind
                (if cp_DifficultyEnable p then
                   (case expectedDifficultyBitsForBlockIndex p blocks i of
                      None \<Rightarrow> Panic
                    | Some expected \<Rightarrow> Ret (if blk_DifficultyBits b \<noteq> expected then Inl ''bad difficulty'' else Inr ()))
                 else Ret (Inr ()))
                (\<lambda>r. Ret (rbind r (\<lambda>_.
                   if blk_Version b \<noteq> blockVersionForHeight p (blk_Height b) then Inl ''bad block version'' else Inr ())))))"

fun audit_txs :: "ed25519 \<Rightarrow> consensus_params \<Rightarrow> u64 \<Rightarrow> transaction list \<Rightarrow> unit res" where
  "audit_txs ed p height [] = Inr ()"
| "audit_txs ed p height (tx # txs) =
     (if tx_ChainID tx = 0 then Inl ''missing chainId''
      else case VerifyForConsensus ed tx p height of
        Inl e \<Rightarrow> Inl (''invalid tx: '' @ e)
      | Inr _ \<Rightarrow> audit_txs ed p height txs)"

definition audit_block :: "ed25519 \<Rightarrow> consensus_params \<Rightarrow> block \<Rightarrow> unit res" where
  "audit_block ed p b =
     (if blk_DifficultyBits b = 0 \<or> maxDifficultyBits < blk_DifficultyBits b then Inl ''difficultyBits out of range''
      else rbind (pow_Validate p b) (\<lambda>ok.
        if \<not> ok then Inl ''invalid pow'' else audit_txs ed p (blk_Height b) (blk_Transactions b)))"

fun audit_loop :: "ed25519 \<Rightarrow> consensus_params \<Rightarrow> int \<Rightarrow> block list \<Rightarrow> nat \<Rightarrow> block list \<Rightarrow> unit res outcome" where
  "audit_loop ed p now blocks i [] = Ret (Inr ())"
| "audit_loop ed p now blocks i (b # rest) =
     obind (audit_linkage p now blocks i) (\<lambda>r.
       case rbind r (\<lambda>_. audit_block ed p b) of
         Inl e \<Rightarrow> Ret (Inl e)
       | Inr _ \<Rightarrow> audit_loop ed p now blocks (Suc i) rest)"

definition AuditChain :: "ed25519 \<Rightarrow> 's chain_store \<Rightarrow> int \<Rightarrow> 's blockchain \<Rightarrow> ('s blockchain \<times> unit res) outcome" where
  "AuditChain ed cs now bc =
     obind (bc_RLock bc) (\<lambda>_.
       if bc_blocks bc = [] then Ret (bc, Inl ''empty chain'')
       else obind (audit_loop ed (bc_consensus bc) now (bc_blocks bc) 0 (bc_blocks bc)) (\<lambda>r.
         case r of Inl e \<Rightarrow> Ret (bc, Inl e) | Inr _ \<Rightarrow> recomputeState ed cs bc))"

subsection \<open>Reading the chain\<close>

record BlockHeader =
  bh_Height :: u64
  bh_TimestampUnix :: int
  bh_PrevHashHex :: string
  bh_HashHex :: string
  bh_Nonce :: u64
  bh_DifficultyBits :: u32
  bh_MinerAddress :: string
  bh_TxCount :: nat

definition BlocksFrom :: "u64 \<Rightarrow> int \<Rightarrow> 's blockchain \<Rightarrow> block list outcome" where
  "BlocksFrom height n bc =
     (let n = (if n \<le> 0 then 100 else n) in
      if length (bc_blocks bc) \<le> unat height then Ret []
      else
        let end0 = height + word_of_int n;
            stop = (if length (bc_blocks bc) < unat end0 then length (bc_blocks bc) else unat end0)
        in if stop < unat height then Panic
           else Ret (take (stop - unat height) (drop (unat height) (bc_blocks bc))))"

definition header_of :: "block \<Rightarrow> BlockHeader" where
  "header_of b = \<lparr>bh_Height = blk_Height b, bh_TimestampUnix = blk_TimestampUnix b,
     bh_PrevHashHex = hex_encode (sl (blk_PrevHash b)), bh_HashHex = block_hex b, bh_Nonce = blk_Nonce b,
     bh_DifficultyBits = blk_DifficultyBits b, bh_MinerAddress = blk_MinerAddress b,
     bh_TxCount = length (blk_Transactions b)\<rparr>"

definition HeadersFrom :: "u64 \<Rightarrow> int \<Rightarrow> 's blockchain \<Rightarrow> BlockHeader list outcome" where
  "HeadersFrom height n bc = obind (BlocksFrom height n bc) (\<lambda>blocks. Ret (map header_of blocks))"

definition BlockByHash :: "string \<Rightarrow> 's blockchain \<Rightarrow> 's blockchain \<times> block option" where
  "BlockByHash hashHex bc =
     (case GetCachedBlock hashHex (bc_cache bc) of
        (c1, Some b) \<Rightarrow> (bc\<lparr>bc_cache := c1\<rparr>, Some b)
      | (c1, None) \<Rightarrow>
          (case gget (bc_blocksByHash bc) hashHex of
             None \<Rightarrow> (bc\<lparr>bc_cache := c1\<rparr>, None)
           | Some b \<Rightarrow> (bc\<lparr>bc_cache := CacheBlock hashHex b c1\<rparr>, Some b)))"

definition KnownTips :: "'s blockchain \<Rightarrow> string list" where
  "KnownTips bc =
     (let isParent = map (\<lambda>(_, b). hex_encode (sl (blk_PrevHash b)))
            (filter (\<lambda>(_, b). sl (blk_PrevHash b) \<noteq> []) (bc_blocksByHash bc))
      in sort (filter (\<lambda>h. h \<notin> set isParent) (map fst (bc_blocksByHash bc))))"

subsection \<open>Indexes as functions of the chain\<close>

definition tx_index :: "consensus_params \<Rightarrow> block list \<Rightarrow> (string, tx_location) gomap" where
  "tx_index p blocks = fold (\<lambda>b. fold (index_tx p b) (enumerate 0 (blk_Transactions b))) blocks []"

definition address_index :: "consensus_params \<Rightarrow> block list \<Rightarrow> (string, address_tx_entry list) gomap" where
  "address_index p blocks = fold (\<lambda>b. fold (index_address_tx p b) (enumerate 0 (blk_Transactions b))) blocks []"

definition chain_work :: "block list \<Rightarrow> nat" where
  "chain_work blocks = (\<Sum>b \<leftarrow> blocks. WorkForDifficultyBits (blk_DifficultyBits b))"

lemma reindexAllTxsLocked_eq:
  "reindexAllTxsLocked bc = bc\<lparr>bc_txIndex := tx_index (bc_consensus bc) (bc_blocks bc)\<rparr>"
proof -
  have "fold indexTxsForBlockLocked bs (bc\<lparr>bc_txIndex := m\<rparr>) =
      bc\<lparr>bc_txIndex := fold (\<lambda>b. fold (index_tx (bc_consensus bc) b) (enumerate 0 (blk_Transactions b))) bs m\<rparr>" for bs m
    by (induction bs arbitrary: m) (simp_all add: indexTxsForBlockLocked_def)
  then show ?thesis by (simp add: reindexAllTxsLocked_def tx_index_def)
qed

lemma reindexAllAddressTxsLocked_eq:
  "reindexAllAddressTxsLocked bc = bc\<lparr>bc_addressIndex := address_index (bc_consensus bc) (bc_blocks bc)\<rparr>"
proof -
  have "fold indexAddressTxsForBlockLocked bs (bc\<lparr>bc_addressIndex := m\<rparr>) =
      bc\<lparr>bc_addressIndex := fold (\<lambda>b. fold (index_address_tx (bc_consensus bc) b) (enumerate 0 (blk_Transactions b))) bs m\<rparr>" for bs m
    by (induction bs arbitrary: m) (simp_all add: indexAddressTxsForBlockLocked_def)
  then show ?thesis by (simp add: reindexAllAddressTxsLocked_def address_index_def)
qed

lemma adopt_eq:
  "adopt path st w h bc = bc\<lparr>bc_blocks := path, bc_state := st, bc_bestTipHash := h, bc_canonicalWork := w,
     bc_txIndex := tx_index (bc_consensus bc) path, bc_addressIndex := address_index (bc_consensus bc) path\<rparr>"
  by (simp add: adopt_def reindexAllTxsLocked_eq reindexAllAddressTxsLocked_eq)

subsection \<open>The chain invariant\<close>

definition path_linked :: "block list \<Rightarrow> bool" where
  "path_linked path \<longleftrightarrow> path \<noteq> [] \<and> blk_Height (hd path) = 0 \<and>
     (\<forall>i. Suc i < length path \<longrightarrow> blk_Height (path ! Suc i) = blk_Height (path ! i) + 1 \<and>
        hex_encode (sl (blk_PrevHash (path ! Suc i))) = block_hex (path ! i))"

definition replays :: "ed25519 \<Rightarrow> consensus_params \<Rightarrow> block list \<Rightarrow> ledger \<Rightarrow> bool" where
  "replays ed p blocks st \<longleftrightarrow> run_all (applyBlockToState ed p) blocks [] = (st, Inr ())"

definition indexed_by_hash :: "(string, block) gomap \<Rightarrow> bool" where
  "indexed_by_hash m \<longleftrightarrow> gmap_ok m \<and> (\<forall>(k, b) \<in> set m. k = block_hex b)"

text \<open>The path of known blocks that leads to a hash.\<close>

definition path_to :: "(string, block) gomap \<Rightarrow> string \<Rightarrow> block list option" where
  "path_to m h = (case walk_back m [] h of Inl _ \<Rightarrow> None | Inr bk \<Rightarrow> Some (rev bk))"

definition best_known :: "(string, block) gomap \<Rightarrow> nat \<Rightarrow> string \<Rightarrow> bool" where
  "best_known m w tip \<longleftrightarrow> (\<forall>(k, b) \<in> set m. \<exists>path. path_to m k = Some path \<and> \<not> better_tip (chain_work path) k w tip)"

definition chain_ok :: "ed25519 \<Rightarrow> 's blockchain \<Rightarrow> bool" where
  "chain_ok ed bc \<longleftrightarrow>
     path_linked (bc_blocks bc) \<and> replays ed (bc_consensus bc) (bc_blocks bc) (bc_state bc) \<and>
     bc_canonicalWork bc = chain_work (bc_blocks bc) \<and>
     indexed_by_hash (bc_blocksByHash bc) \<and>
     path_to (bc_blocksByHash bc) (bc_bestTipHash bc) = Some (bc_blocks bc) \<and>
     best_known (bc_blocksByHash bc) (bc_canonicalWork bc) (bc_bestTipHash bc) \<and>
     bc_txIndex bc = tx_index (bc_consensus bc) (bc_blocks bc) \<and>
     bc_addressIndex bc = address_index (bc_consensus bc) (bc_blocks bc)"

lemma indexed_by_hashD: "indexed_by_hash m \<Longrightarrow> gget m k = Some b \<Longrightarrow> k = block_hex b"
  by (auto simp: indexed_by_hash_def dest!: gget_SomeD)

lemma indexed_by_hash_gput: "indexed_by_hash m \<Longrightarrow> indexed_by_hash (gput (block_hex b) b m)"
  by (auto simp: indexed_by_hash_def set_gput)

lemma indexed_by_hash_gdel: "indexed_by_hash m \<Longrightarrow> indexed_by_hash (gdel k m)"
  by (auto simp: indexed_by_hash_def set_gdel)

lemma walk_back_Inr:
  "walk_back m seen cur = Inr bk \<Longrightarrow>
     bk \<noteq> [] \<and> gget m cur = Some (hd bk) \<and> (\<forall>b \<in> set bk. \<exists>k. gget m k = Some b)"
proof (induction m seen cur arbitrary: bk rule: walk_back.induct)
  case (1 m seen cur)
  show ?case
  proof (cases "gget m cur")
    case None
    then show ?thesis using 1(2) by (subst (asm) walk_back.simps) (simp split: if_splits)
  next
    case (Some b)
    show ?thesis
    proof (cases "blk_Height b = 0 \<or> sl (blk_PrevHash b) = []")
      case True
      then show ?thesis using 1(2) Some by (subst (asm) walk_back.simps) (auto split: if_splits)
    next
      case False
      with 1(2) Some obtain r where new: "cur \<notin> set seen"
        and r: "walk_back m (cur # seen) (hex_encode (sl (blk_PrevHash b))) = Inr r" and bk: "bk = b # r"
        by (subst (asm) walk_back.simps) (auto simp: rbind_def split: if_splits sum.splits)
      from 1(1) [OF new Some False r] show ?thesis using bk Some by auto
    qed
  qed
qed

lemma walk_back_mono:
  "walk_back m seen cur = Inr bk \<Longrightarrow> (\<And>k b. gget m k = Some b \<Longrightarrow> gget m' k = Some b) \<Longrightarrow> walk_back m' seen cur = Inr bk"
proof (induction m seen cur arbitrary: bk rule: walk_back.induct)
  case (1 m seen cur)
  obtain b where b: "gget m cur = Some b" and new: "cur \<notin> set seen"
    using 1(2) by (subst (asm) walk_back.simps) (auto split: if_splits option.splits)
  note b' = 1(3) [OF b]
  show ?case
  proof (cases "blk_Height b = 0 \<or> sl (blk_PrevHash b) = []")
    case True
    with b b' new 1(2) show ?thesis by (subst (asm) walk_back.simps, subst walk_back.simps) simp
  next
    case False
    with 1(2) b new obtain r where r: "walk_back m (cur # seen) (hex_encode (sl (blk_PrevHash b))) = Inr r" and bk: "bk = b # r"
      by (subst (asm) walk_back.simps) (auto simp: rbind_Inr_iff)
    from 1(1) [OF new b False r 1(3)] b' new False bk show ?thesis by (subst walk_back.simps) simp
  qed
qed

lemma path_to_mono:
  "path_to m h = Some path \<Longrightarrow> (\<And>k b. gget m k = Some b \<Longrightarrow> gget m' k = Some b) \<Longrightarrow> path_to m' h = Some path"
  using walk_back_mono [of m "[]" h _ m'] by (auto simp: path_to_def split: sum.splits)

lemma path_to_Some:
  assumes "path_to m h = Some path"
  shows "path \<noteq> []" and "gget m h = Some (last path)"
  using assms walk_back_Inr [of m "[]" h] by (auto simp: path_to_def last_rev split: sum.splits)

lemma path_loop_Ret:
  "path_loop ed p now path i rest st w = Ret (Inr (st', w')) \<Longrightarrow>
     run_all (applyBlockToState ed p) rest st = (st', Inr ()) \<and> w' = w + chain_work rest \<and>
     (\<forall>j < length rest. path_check p now path (i + j) = Ret (Inr ()))"
proof (induction rest arbitrary: i st w)
  case (Cons b rest)
  obtain st1 where chk: "path_check p now path i = Ret (Inr ())" and st1: "applyBlockToState ed p b st = (st1, Inr ())"
    and rec: "path_loop ed p now path (Suc i) rest st1 (w + WorkForDifficultyBits (blk_DifficultyBits b)) = Ret (Inr (st', w'))"
  proof -
    obtain r where r: "path_check p now path i = Ret r" using Cons.prems by (auto simp: obind_Ret_iff)
    obtain s a where "applyBlockToState ed p b st = (s, a)" by fastforce
    with r Cons.prems that show thesis by (cases r; cases a) simp_all
  qed
  note ih = Cons.IH [OF rec]
  have "\<forall>j < length (b # rest). path_check p now path (i + j) = Ret (Inr ())"
  proof (intro allI impI)
    fix j assume "j < length (b # rest)"
    then show "path_check p now path (i + j) = Ret (Inr ())" using chk ih by (cases j) simp_all
  qed
  then show ?case using st1 ih by (simp add: chain_work_def)
qed (simp add: chain_work_def)

lemma path_checks_linked:
  assumes "path \<noteq> []" and chk: "\<forall>j < length path. path_check p now path j = Ret (Inr ())"
  shows "path_linked path"
proof -
  have "path_check p now path 0 = Ret (Inr ())" using assms by blast
  then have "blk_Height (hd path) = 0" using assms(1) by (simp add: path_check_def hd_conv_nth Let_def split: if_splits)
  moreover have "blk_Height (path ! Suc i) = blk_Height (path ! i) + 1 \<and>
        hex_encode (sl (blk_PrevHash (path ! Suc i))) = block_hex (path ! i)" if "Suc i < length path" for i
  proof -
    have "path_check p now path (Suc i) = Ret (Inr ())" using chk that by blast
    then show ?thesis by (simp add: path_check_def Let_def split: if_splits)
  qed
  ultimately show ?thesis using assms(1) by (simp add: path_linked_def)
qed

lemma computeCanonical_Ret:
  assumes "computeCanonicalForTipLocked ed now tip bc = Ret (Inr (path, st, w))"
  shows "path_linked path \<and> replays ed (bc_consensus bc) path st \<and> w = chain_work path \<and>
     path_to (bc_blocksByHash bc) tip = Some path"
proof -
  obtain bk where bk: "walk_back (bc_blocksByHash bc) [] tip = Inr bk" and path: "path = rev bk"
    and loop: "path_loop ed (bc_consensus bc) now path 0 path [] 0 = Ret (Inr (st, w))"
    using assms by (auto simp: computeCanonicalForTipLocked_def obind_Ret_iff rbind_Inr_iff Let_def split: sum.splits)
  note wb = walk_back_Inr [OF bk] and pl = path_loop_Ret [OF loop]
  have "path_linked path" using pl wb path by (intro path_checks_linked [of _ "bc_consensus bc" now]) simp_all
  then show ?thesis using bk pl path by (simp add: replays_def path_to_def)
qed
lemma ComputeAndStoreCommitment_held:
  "bc_mu bc \<Longrightarrow> ShouldCommit h \<Longrightarrow> ComputeAndStoreCommitment cs h bc = Blocked"
  by (simp add: ComputeAndStoreCommitment_def ComputeStateCommitment_def bc_RLock_def)

lemma adopt_mu [simp]: "bc_mu (adopt path st w h bc) = bc_mu bc"
  by (simp add: adopt_eq)

text \<open>Under the lock a switch returns only at heights without a commitment, and then it has adopted the path.\<close>

lemma switch_to_Ret:
  assumes "switch_to cs b path st w bc = Ret (bc', r, ev)" and "bc_mu bc"
  shows "\<exists>s. bc' = (adopt path st w (block_hex b) bc)\<lparr>bc_store := s\<rparr>" and "snd r = Inr () \<Longrightarrow> \<not> ShouldCommit (blk_Height b)"
proof -
  obtain s2 q where rw: "cs_RewriteCanonical cs path (bc_store (adopt path st w (block_hex b) bc)) = (s2, q)" by fastforce
  have ne: "bc_blocks bc \<noteq> []" using assms(1) by (auto simp: switch_to_def)
  show "\<exists>s. bc' = (adopt path st w (block_hex b) bc)\<lparr>bc_store := s\<rparr>"
    using assms ne rw by (cases q) (auto simp: switch_to_def Let_def obind_Ret_iff ComputeAndStoreCommitment_held split: if_splits)
  show "\<not> ShouldCommit (blk_Height b)" if "snd r = Inr ()"
    using assms ne rw that by (cases q) (auto simp: switch_to_def Let_def obind_Ret_iff ComputeAndStoreCommitment_held split: if_splits)
qed

lemma better_tip_trans:
  "better_tip w1 h1 w2 h2 \<Longrightarrow> \<not> better_tip w3 h3 w2 h2 \<Longrightarrow> \<not> better_tip w3 h3 w1 h1"
  by (auto simp: better_tip_def)

lemma better_tip_antisym:
  "\<not> better_tip w1 h1 w2 h2 \<Longrightarrow> \<not> better_tip w2 h2 w1 h1 \<Longrightarrow> w1 = w2 \<and> h1 = h2"
  by (auto simp: better_tip_def)

lemma best_known_gput:
  assumes "gmap_ok m" and "best_known m w0 tip0" and new: "gget m k = None"
    and path: "path_to (gput k b m) k = Some path" and "\<not> better_tip (chain_work path) k w tip"
    and "\<And>w' h'. \<not> better_tip w' h' w0 tip0 \<Longrightarrow> \<not> better_tip w' h' w tip"
  shows "best_known (gput k b m) w tip"
  unfolding best_known_def
proof (rule ballI, clarify)
  fix k' b' assume "(k', b') \<in> set (gput k b m)"
  then consider "k' = k" | "(k', b') \<in> set m" using assms(1) by (auto simp: set_gput)
  then show "\<exists>path. path_to (gput k b m) k' = Some path \<and> \<not> better_tip (chain_work path) k' w tip"
  proof cases
    case 2
    then obtain q where q: "path_to m k' = Some q" "\<not> better_tip (chain_work q) k' w0 tip0"
      using assms(2) by (auto simp: best_known_def)
    have "path_to (gput k b m) k' = Some q" by (rule path_to_mono [OF q(1)]) (use new in auto)
    with q assms(6) show ?thesis by blast
  qed (use path assms(5) in blast)
qed

definition same_chain :: "'s blockchain \<Rightarrow> 's blockchain \<Rightarrow> bool" where
  "same_chain bc bc' \<longleftrightarrow> bc_blocks bc' = bc_blocks bc \<and> bc_state bc' = bc_state bc \<and> bc_consensus bc' = bc_consensus bc \<and>
     bc_canonicalWork bc' = bc_canonicalWork bc \<and> bc_bestTipHash bc' = bc_bestTipHash bc \<and>
     bc_txIndex bc' = bc_txIndex bc \<and> bc_addressIndex bc' = bc_addressIndex bc"

lemma chain_ok_same: "chain_ok ed bc \<Longrightarrow> same_chain bc bc' \<Longrightarrow> bc_blocksByHash bc' = bc_blocksByHash bc \<Longrightarrow> chain_ok ed bc'"
  by (auto simp: chain_ok_def same_chain_def)

lemma chain_ok_side:
  assumes ok: "chain_ok ed bc" and new: "gget (bc_blocksByHash bc) (block_hex b) = None"
    and m: "bc_blocksByHash bc' = gput (block_hex b) b (bc_blocksByHash bc)" and same: "same_chain bc bc'"
    and path: "path_to (bc_blocksByHash bc') (block_hex b) = Some path"
    and worse: "\<not> better_tip (chain_work path) (block_hex b) (bc_canonicalWork bc) (bc_bestTipHash bc)"
  shows "chain_ok ed bc'"
proof -
  have "path_to (bc_blocksByHash bc') (bc_bestTipHash bc) = Some (bc_blocks bc)"
    by (rule path_to_mono [of "bc_blocksByHash bc"]) (use ok new m in \<open>auto simp: chain_ok_def\<close>)
  moreover have "best_known (bc_blocksByHash bc') (bc_canonicalWork bc) (bc_bestTipHash bc)"
    unfolding m by (rule best_known_gput) (use ok new m path worse in \<open>auto simp: chain_ok_def indexed_by_hash_def\<close>)
  ultimately show ?thesis using ok same m by (simp add: chain_ok_def same_chain_def indexed_by_hash_gput)
qed

lemma chain_ok_switch:
  assumes ok: "chain_ok ed bc" and new: "gget (bc_blocksByHash bc) (block_hex b) = None"
    and m: "bc_blocksByHash bc1 = gput (block_hex b) b (bc_blocksByHash bc)" and p: "bc_consensus bc1 = bc_consensus bc"
    and path: "path_to (bc_blocksByHash bc1) (block_hex b) = Some path" and "path_linked path"
    and "replays ed (bc_consensus bc) path st"
    and better: "better_tip (chain_work path) (block_hex b) (bc_canonicalWork bc) (bc_bestTipHash bc)"
  shows "chain_ok ed ((adopt path st (chain_work path) (block_hex b) bc1)\<lparr>bc_store := s\<rparr>)"
proof -
  have "best_known (bc_blocksByHash bc1) (chain_work path) (block_hex b)"
    unfolding m
  proof (rule best_known_gput)
    show "best_known (bc_blocksByHash bc) (bc_canonicalWork bc) (bc_bestTipHash bc)" using ok by (auto simp: chain_ok_def)
    show "\<not> better_tip w' h' (chain_work path) (block_hex b)"
      if "\<not> better_tip w' h' (bc_canonicalWork bc) (bc_bestTipHash bc)" for w' h'
      using better_tip_trans [OF better that] .
  qed (use ok new m path in \<open>auto simp: chain_ok_def indexed_by_hash_def better_tip_def\<close>)
  then show ?thesis using assms by (simp add: chain_ok_def adopt_eq indexed_by_hash_gput)
qed

text \<open>What one attempt to add \<open>b\<close> may do to the chain.\<close>

definition add_effect :: "ed25519 \<Rightarrow> block \<Rightarrow> 's blockchain \<Rightarrow> unit res \<Rightarrow> 's blockchain \<Rightarrow> bool" where
  "add_effect ed b bc r bc' \<longleftrightarrow> chain_ok ed bc' \<and> bc_consensus bc' = bc_consensus bc \<and>
     (same_chain bc bc' \<or> bc_bestTipHash bc' = block_hex b \<and>
        better_tip (bc_canonicalWork bc') (bc_bestTipHash bc') (bc_canonicalWork bc) (bc_bestTipHash bc)) \<and>
     (\<forall>k. gget (bc_blocksByHash bc) k \<noteq> None \<or> k \<noteq> block_hex b \<longrightarrow> gget (bc_blocksByHash bc') k = gget (bc_blocksByHash bc) k) \<and>
     (r = Inr () \<longrightarrow> gget (bc_blocksByHash bc') (block_hex b) = Some b)"

lemma add_locked_new:
  assumes ok: "chain_ok ed bc" and mu: "bc_mu bc" and res: "add_locked ed cs now b bc = Ret (bc', r, ev)"
    and new: "gget (bc_blocksByHash bc) (block_hex b) = None" and par: "gget (bc_blocksByHash bc) (hex_encode (sl (blk_PrevHash b))) \<noteq> None"
    and c: "computeCanonicalForTipLocked ed now (block_hex b) (bc\<lparr>bc_blocksByHash := gput (block_hex b) b (bc_blocksByHash bc)\<rparr>) = Ret (Inr (path, st, w))"
  shows "add_effect ed b bc (snd r) bc'"
proof -
  let ?bc1 = "bc\<lparr>bc_blocksByHash := gput (block_hex b) b (bc_blocksByHash bc)\<rparr>"
  note cc = computeCanonical_Ret [OF c]
  obtain s q where put: "cs_PutBlock cs b (bc_store bc) = (s, q)" by fastforce
  show ?thesis
  proof (cases q)
    case (Inl e)
    then have "bc' = bc\<lparr>bc_store := s\<rparr>" "snd r = Inl e"
      using res new par c put by (auto simp: add_locked_def Let_def gdel_gput_new)
    then show ?thesis using ok chain_ok_same [OF ok, of bc'] by (simp add: add_effect_def same_chain_def)
  next
    case (Inr u)
    show ?thesis
    proof (cases "better_tip w (block_hex b) (bc_canonicalWork bc) (bc_bestTipHash bc)")
      case False
      then have bc': "bc' = ?bc1\<lparr>bc_store := s\<rparr>" "snd r = Inr ()"
        using res new par c put Inr by (auto simp: add_locked_def Let_def)
      have "chain_ok ed bc'"
        by (rule chain_ok_side [OF ok new]) (use bc' cc False in \<open>auto simp: same_chain_def\<close>)
      then show ?thesis using bc' new by (auto simp: add_effect_def same_chain_def)
    next
      case True
      then have sw: "switch_to cs b path st w (?bc1\<lparr>bc_store := s\<rparr>) = Ret (bc', r, ev)"
        using res new par c put Inr by (simp add: add_locked_def Let_def)
      obtain s' where bc': "bc' = (adopt path st w (block_hex b) (?bc1\<lparr>bc_store := s\<rparr>))\<lparr>bc_store := s'\<rparr>"
        using switch_to_Ret(1) [OF sw] mu by auto
      have "chain_ok ed bc'"
        unfolding bc' using cc True by (auto intro!: chain_ok_switch [OF ok new])
      then show ?thesis using bc' new True by (auto simp: add_effect_def adopt_eq)
    qed
  qed
qed

lemma add_locked_ok:
  assumes ok: "chain_ok ed bc" and mu: "bc_mu bc" and res: "add_locked ed cs now b bc = Ret (bc', r, ev)"
  shows "add_effect ed b bc (snd r) bc'"
proof -
  let ?m = "bc_blocksByHash bc"
  let ?bc1 = "bc\<lparr>bc_blocksByHash := gput (block_hex b) b ?m\<rparr>"
  have refused: "add_effect ed b bc (snd r) bc'" if "same_chain bc bc'" "bc_blocksByHash bc' = ?m" "snd r \<noteq> Inr ()"
    using that ok chain_ok_same [OF ok that(1,2)] by (simp add: add_effect_def same_chain_def)
  show ?thesis
  proof (cases "gget ?m (hex_encode (sl (blk_PrevHash b))) = None \<or> gget ?m (block_hex b) \<noteq> None")
    case True
    then show ?thesis using res by (intro refused) (auto simp: add_locked_def same_chain_def split: if_splits)
  next
    case False
    then obtain c where c: "computeCanonicalForTipLocked ed now (block_hex b) ?bc1 = Ret c"
      using res by (auto simp: add_locked_def Let_def obind_Ret_iff)
    show ?thesis
    proof (cases c)
      case (Inl e)
      then show ?thesis using False res c
        by (intro refused) (auto simp: add_locked_def Let_def same_chain_def gdel_gput_new)
    next
      case (Inr q)
      then show ?thesis using False c by (cases q) (auto intro!: add_locked_new [OF ok mu res])
    qed
  qed
qed

end
