(* ===== verification/Forks.thy ===== *)
theory Forks
  imports Chain
begin

text \<open>
  Fork choice (\<^verbatim>\<open>internal/blockchain/forks.go\<close>): runs of \<^verbatim>\<open>AddBlock\<close>, the processing of orphans, and what
  they guarantee.  A chain that satisfies the invariant \<open>chain_ok\<close> keeps it, its tip is the best one it
  knows, and two chains that know the same blocks are the same chain.
\<close>

subsection \<open>Runs\<close>

fun receive :: "ed25519 \<Rightarrow> 's chain_store \<Rightarrow> (int \<times> block option) list \<Rightarrow> 's blockchain \<Rightarrow> ('s blockchain \<times> unit res list) outcome" where
  "receive ed cs [] bc = Ret (bc, [])"
| "receive ed cs ((now, b) # xs) bc =
     obind (AddBlock ed cs now b bc) (\<lambda>(bc1, r, _).
     obind (receive ed cs xs bc1) (\<lambda>(bc2, rs). Ret (bc2, snd r # rs)))"

text \<open>The same run from the point where the blocks have passed the checks made without the lock.\<close>

fun deliver :: "ed25519 \<Rightarrow> 's chain_store \<Rightarrow> (int \<times> block) list \<Rightarrow> 's blockchain \<Rightarrow> ('s blockchain \<times> unit res list) outcome" where
  "deliver ed cs [] bc = Ret (bc, [])"
| "deliver ed cs ((now, b) # xs) bc =
     obind (AddBlock_locked ed cs now b bc) (\<lambda>(bc1, r, _).
     obind (deliver ed cs xs bc1) (\<lambda>(bc2, rs). Ret (bc2, snd r # rs)))"

lemma chain_ok_mu [simp]: "chain_ok ed (bc\<lparr>bc_mu := x\<rparr>) = chain_ok ed bc"
  by (simp add: chain_ok_def)

lemma AddBlock_locked_ok:
  assumes "chain_ok ed bc" and "AddBlock_locked ed cs now b bc = Ret (bc', r, ev)"
  shows "add_effect ed b bc (snd r) bc'"
proof -
  obtain bc2 where "add_locked ed cs now b (bc\<lparr>bc_mu := True\<rparr>) = Ret (bc2, r, ev)" and bc': "bc' = bc2\<lparr>bc_mu := False\<rparr>"
    using assms(2) by (auto simp: AddBlock_locked_def bc_Lock_def bc_Unlock_def obind_Ret_iff split: if_splits)
  then have "add_effect ed b (bc\<lparr>bc_mu := True\<rparr>) (snd r) bc2"
    using assms(1) by (intro add_locked_ok [of ed _ cs now b bc2 r ev]) simp_all
  then show ?thesis by (auto simp: add_effect_def same_chain_def bc')
qed

lemma AddBlock_ok:
  assumes "chain_ok ed bc" and "AddBlock ed cs now blk bc = Ret (bc', r, ev)"
  shows "chain_ok ed bc' \<and> (same_chain bc bc' \<or>
    better_tip (bc_canonicalWork bc') (bc_bestTipHash bc') (bc_canonicalWork bc) (bc_bestTipHash bc))"
proof (cases blk)
  case None
  then show ?thesis using assms by (auto simp: AddBlock_def same_chain_def)
next
  case (Some b)
  show ?thesis
  proof (cases "block_checks ed bc b")
    case (Inl e)
    then show ?thesis using assms Some by (auto simp: AddBlock_def same_chain_def)
  next
    case (Inr u)
    then have "add_effect ed b bc (snd r) bc'"
      using assms Some by (intro AddBlock_locked_ok [of ed bc cs now b bc' r ev]) (auto simp: AddBlock_def)
    then show ?thesis by (auto simp: add_effect_def)
  qed
qed

lemma not_better_same: "same_chain bc bc' \<Longrightarrow> \<not> better_tip (bc_canonicalWork bc) (bc_bestTipHash bc) (bc_canonicalWork bc') (bc_bestTipHash bc')"
  by (simp add: same_chain_def better_tip_def)

lemma not_better_trans:
  "\<not> better_tip w1 h1 w2 h2 \<Longrightarrow> \<not> better_tip w2 h2 w3 h3 \<Longrightarrow> \<not> better_tip w1 h1 w3 h3"
  by (auto simp: better_tip_def)

lemma better_tip_asym: "better_tip w1 h1 w2 h2 \<Longrightarrow> \<not> better_tip w2 h2 w1 h1"
  by (auto simp: better_tip_def)

lemma deliver_known:
  "chain_ok ed bc \<Longrightarrow> deliver ed cs xs bc = Ret (bc', rs) \<Longrightarrow> \<forall>r \<in> set rs. r = Inr () \<Longrightarrow>
     chain_ok ed bc' \<and> bc_consensus bc' = bc_consensus bc \<and>
     (\<forall>k. k \<notin> block_hex ` snd ` set xs \<or> gget (bc_blocksByHash bc) k \<noteq> None \<longrightarrow> gget (bc_blocksByHash bc') k = gget (bc_blocksByHash bc) k) \<and>
     (\<forall>x \<in> set xs. gget (bc_blocksByHash bc') (block_hex (snd x)) = Some (snd x))"
proof (induction xs arbitrary: bc rs)
  case (Cons x xs)
  obtain now b where x: "x = (now, b)" by fastforce
  obtain bc1 r ev rs' where step: "AddBlock_locked ed cs now b bc = Ret (bc1, r, ev)"
    and rest: "deliver ed cs xs bc1 = Ret (bc', rs')" and rs: "rs = snd r # rs'"
    using Cons.prems(2) x by (auto simp: obind_Ret_iff)
  have eff: "add_effect ed b bc (snd r) bc1" by (rule AddBlock_locked_ok [OF Cons.prems(1) step])
  then have "chain_ok ed bc1" by (simp add: add_effect_def)
  note ih = Cons.IH [OF this rest]
  have r: "snd r = Inr ()" and "\<forall>r \<in> set rs'. r = Inr ()" using Cons.prems(3) rs by auto
  with ih show ?case using eff x by (auto simp: add_effect_def)
qed simp

lemma same_known_same_chain:
  assumes a: "chain_ok ed a" and b: "chain_ok ed b" and p: "bc_consensus a = bc_consensus b"
    and m: "\<And>k. gget (bc_blocksByHash a) k = gget (bc_blocksByHash b) k"
  shows "same_chain a b"
proof -
  have one: "\<not> better_tip (chain_work (bc_blocks x)) (bc_bestTipHash x) (bc_canonicalWork y) (bc_bestTipHash y)"
    if x: "chain_ok ed x" and y: "chain_ok ed y" and sub: "\<And>k. gget (bc_blocksByHash x) k = gget (bc_blocksByHash y) k" for x y :: "'a blockchain"
  proof -
    have px: "path_to (bc_blocksByHash y) (bc_bestTipHash x) = Some (bc_blocks x)"
      by (rule path_to_mono [of "bc_blocksByHash x"]) (use x sub in \<open>auto simp: chain_ok_def\<close>)
    from path_to_Some(2) [OF this] have "(bc_bestTipHash x, last (bc_blocks x)) \<in> set (bc_blocksByHash y)" by (rule gget_SomeD)
    then show ?thesis using y px by (auto simp: chain_ok_def best_known_def)
  qed
  have work: "bc_canonicalWork x = chain_work (bc_blocks x)" if "chain_ok ed x" for x :: "'a blockchain"
    using that by (simp add: chain_ok_def)
  have tip: "bc_bestTipHash a = bc_bestTipHash b"
    using one [OF a b m] one [OF b a m [symmetric]] work [OF a] work [OF b] by (metis better_tip_antisym)
  have "path_to (bc_blocksByHash b) (bc_bestTipHash a) = Some (bc_blocks a)"
    by (rule path_to_mono [of "bc_blocksByHash a"]) (use a m in \<open>auto simp: chain_ok_def\<close>)
  then have blocks: "bc_blocks a = bc_blocks b" using b tip by (simp add: chain_ok_def)
  moreover have "bc_state a = bc_state b" using a b p blocks by (simp add: chain_ok_def replays_def)
  ultimately show ?thesis using a b p tip by (auto simp: same_chain_def chain_ok_def)
qed

subsection \<open>Processing orphans\<close>

text \<open>One pass over the orphans of the current tip: it stops at the first one that is refused.\<close>

fun orphan_pass ::
  "ed25519 \<Rightarrow> 's chain_store \<Rightarrow> int \<Rightarrow> block list \<Rightarrow> 's blockchain \<Rightarrow> nat \<Rightarrow> ('s blockchain \<times> nat) outcome" where
  "orphan_pass ed cs now [] bc processed = Ret (bc, processed)"
| "orphan_pass ed cs now (ob # os) bc processed =
     obind (AddBlock ed cs now (Some ob) bc) (\<lambda>(bc1, r, _).
       case snd r of
         Inl _ \<Rightarrow> Ret (bc1, processed)
       | Inr _ \<Rightarrow> orphan_pass ed cs now os
           (bc1\<lparr>bc_orphanPool := orphan_RemoveBlock (sl (blk_Hash ob)) (bc_orphanPool bc1)\<rparr>) (Suc processed))"

definition tip_orphans :: "'s blockchain \<Rightarrow> block list" where
  "tip_orphans bc = GetOrphansByParent (fst (hex_decode (bc_bestTipHash bc))) (bc_orphanPool bc)"

text \<open>The outer loop, left only when the tip has no orphans; \<open>None\<close> when it is never left.  The clock is
  taken to stand still meanwhile.\<close>

partial_function (option) orphan_loop ::
  "ed25519 \<Rightarrow> 's chain_store \<Rightarrow> int \<Rightarrow> 's blockchain \<Rightarrow> nat \<Rightarrow> ('s blockchain \<times> nat) outcome option" where
  "orphan_loop ed cs now bc processed =
     (if tip_orphans bc = [] then Some (Ret (bc, processed))
      else case orphan_pass ed cs now (tip_orphans bc) bc processed of
        Ret q \<Rightarrow> orphan_loop ed cs now (fst q) (snd q)
      | Blocked \<Rightarrow> Some Blocked
      | Panic \<Rightarrow> Some Panic)"

definition ProcessOrphans :: "ed25519 \<Rightarrow> 's chain_store \<Rightarrow> int \<Rightarrow> 's blockchain \<Rightarrow> ('s blockchain \<times> nat) outcome" where
  "ProcessOrphans ed cs now bc =
     (case orphan_loop ed cs now bc 0 of
        None \<Rightarrow> Blocked
      | Some res \<Rightarrow> obind res (\<lambda>(bc1, processed).
          case LimitSize 100 (bc_orphanPool bc1) of
            None \<Rightarrow> Blocked
          | Some pool \<Rightarrow> Ret (bc1\<lparr>bc_orphanPool := pool\<rparr>, processed)))"

definition GetOrphanCount :: "'s blockchain \<Rightarrow> nat" where
  "GetOrphanCount bc = orphan_Size (bc_orphanPool bc)"

lemma chain_ok_pool [simp]: "chain_ok ed (bc\<lparr>bc_orphanPool := x\<rparr>) = chain_ok ed bc"
  by (simp add: chain_ok_def)

lemma orphan_pass_ok:
  "chain_ok ed bc \<Longrightarrow> orphan_pass ed cs now os bc n = Ret (bc', n') \<Longrightarrow> chain_ok ed bc'"
proof (induction os arbitrary: bc n)
  case (Cons ob os)
  obtain bc1 r ev where add: "AddBlock ed cs now (Some ob) bc = Ret (bc1, r, ev)"
    using Cons.prems(2) by (auto simp: obind_Ret_iff)
  then have "chain_ok ed bc1" using AddBlock_ok Cons.prems(1) by blast
  moreover have "chain_ok ed bc' \<or> orphan_pass ed cs now os
      (bc1\<lparr>bc_orphanPool := orphan_RemoveBlock (sl (blk_Hash ob)) (bc_orphanPool bc1)\<rparr>) (Suc n) = Ret (bc', n')"
    using Cons.prems(2) add calculation by (auto split: sum.splits)
  ultimately show ?case using Cons.IH [of "bc1\<lparr>bc_orphanPool := _\<rparr>"] by auto
qed simp

lemma orphan_loop_ok:
  "orphan_loop ed cs now bc n = Some q \<Longrightarrow>
     chain_ok ed bc \<longrightarrow> (\<forall>bc' n'. q = Ret (bc', n') \<longrightarrow> chain_ok ed bc' \<and> tip_orphans bc' = [])"
proof (erule orphan_loop.raw_induct [rotated], intro impI allI)
  fix loop ed cs now n q bc' n' and bc :: "'a blockchain"
  assume ih: "\<And>ed cs now bc n q. loop ed cs now bc n = Some q \<Longrightarrow>
      chain_ok ed bc \<longrightarrow> (\<forall>bc' n'. q = Ret (bc', n') \<longrightarrow> chain_ok ed bc' \<and> tip_orphans bc' = [])"
    and body: "(if tip_orphans bc = [] then Some (Ret (bc, n))
      else case orphan_pass ed cs now (tip_orphans bc) bc n of
        Ret q \<Rightarrow> loop ed cs now (fst q) (snd q) | Blocked \<Rightarrow> Some Blocked | Panic \<Rightarrow> Some Panic) = Some q"
    and ok: "chain_ok ed bc" and q: "q = Ret (bc', n')"
  show "chain_ok ed bc' \<and> tip_orphans bc' = []"
  proof (cases "tip_orphans bc = []")
    case True
    then show ?thesis using body q ok by simp
  next
    case False
    then obtain p where p: "orphan_pass ed cs now (tip_orphans bc) bc n = Ret p" and f: "loop ed cs now (fst p) (snd p) = Some q"
      using body q by (auto split: outcome.splits)
    then have "chain_ok ed (fst p)" using orphan_pass_ok [OF ok, of cs now _ n "fst p" "snd p"] by simp
    then show ?thesis using ih [OF f] q by simp
  qed
qed

lemma orphan_loop_stuck:
  assumes "tip_orphans bc = ob # os" and "AddBlock ed cs now (Some ob) bc = Ret (bc, (x, Inl e), ev)"
  shows "orphan_loop ed cs now bc n = None"
proof (rule ccontr)
  assume "orphan_loop ed cs now bc n \<noteq> None"
  then obtain q where "orphan_loop ed cs now bc n = Some q" by auto
  then have "\<not> (tip_orphans bc = ob # os \<and> AddBlock ed cs now (Some ob) bc = Ret (bc, (x, Inl e), ev))"
    by (rule orphan_loop.raw_induct [rotated]) (auto split: if_splits)
  with assms show False by blast
qed

subsection \<open>Properties\<close>

text \<open>A store that keeps nothing, and a chain of one block.\<close>

definition null_store :: "unit chain_store" where
  "null_store = \<lparr>cs_ReadCanonical = (\<lambda>_. Inr []), cs_AppendCanonical = (\<lambda>_ s. (s, Inr ())),
     cs_RewriteCanonical = (\<lambda>_ s. (s, Inr ())), cs_PutBlock = (\<lambda>_ s. (s, Inr ())), cs_ReadAllBlocks = (\<lambda>_. Inr []),
     cs_GetRulesHash = (\<lambda>_. Inr None), cs_PutRulesHash = (\<lambda>_ s. (s, Inr ())), cs_GetGenesisHash = (\<lambda>_. Inr None),
     cs_PutGenesisHash = (\<lambda>_ s. (s, Inr ())), cs_PruneBelow = (\<lambda>_ s. (s, Inr ())), cs_WriteCheckpoint = (\<lambda>_ _ s. (s, Inr ())),
     cs_ReadCheckpoint = (\<lambda>_ _. Inl ''none''), cs_GetCheckpointHeights = (\<lambda>_. Inr []),
     cs_WriteCommitment = (\<lambda>_ s. (s, Inr ())), cs_ReadCommitment = (\<lambda>_ _. Inl ''none'')\<rparr>"

definition reward_at :: "u64 \<Rightarrow> bytes \<Rightarrow> bytes \<Rightarrow> block" where
  "reward_at h prev hash = reward_block\<lparr>blk_Height := h, blk_TimestampUnix := 1700000000 + uint h, blk_DifficultyBits := 1,
     blk_PrevHash := Some prev, blk_Hash := Some hash\<rparr>"

definition demo_chain :: "block list \<Rightarrow> block list \<Rightarrow> ledger \<Rightarrow> unit blockchain" where
  "demo_chain blocks others st = \<lparr>bc_ChainID = 3, bc_MinerAddress = GenerateAddress (replicate 32 3), bc_consensus = roomy_params,
     bc_rulesHash = replicate 32 0, bc_events = False, bc_onBlockMined = False, bc_mu = False,
     bc_accountManager = NewAccountManager 256, bc_blocks = blocks, bc_state = st, bc_store = (),
     bc_blocksByHash = map (\<lambda>b. (block_hex b, b)) (blocks @ others), bc_bestTipHash = block_hex (last blocks),
     bc_canonicalWork = chain_work blocks, bc_txIndex = tx_index roomy_params blocks,
     bc_addressIndex = address_index roomy_params blocks, bc_cache = NewCache 10 10 10,
     bc_cfg = \<lparr>cfg_StoreMode = ''full'', cfg_PruneDepth = 0, cfg_CheckpointInterval = 0, cfg_CacheMaxBlocks = 0,
       cfg_CacheMaxBalances = 0, cfg_CacheMaxProofs = 0\<rparr>, bc_orphanPool = newOrphanPool 100\<rparr>"

lemma reward_at_applies:
  assumes "h \<in> {0, 1, 2}"
  shows "applyBlockToState (\<lambda>_ _ _. True) roomy_params (reward_at h prev hash) st =
     (credit (GenerateAddress (replicate 32 3)) 50 st, Inr ())"
  using assms by (auto simp: applyBlockToState_def reward_at_def reward_block_def demo_block_def roomy_params_def smoke_params_def
      block_fees_def BlockReward_def MinerFeeAmount_def apply_tx_def VerifyForConsensus_def Verify_def
      verify_coinbase_def Let_def)

lemma reward_at_fields [simp]:
  "blk_Height (reward_at h prev hash) = h" "blk_PrevHash (reward_at h prev hash) = Some prev"
  "block_hex (reward_at h prev hash) = hex_encode hash" "blk_TimestampUnix (reward_at h prev hash) = 1700000000 + uint h"
  "blk_Version (reward_at h prev hash) = 1" "blk_DifficultyBits (reward_at h prev hash) = 1"
  by (simp_all add: reward_at_def reward_block_def demo_block_def block_hex_def)

lemma demo_genesis_ok:
  "chain_ok (\<lambda>_ _ _. True) (demo_chain [reward_at 0 [] [9]] [] [(GenerateAddress (replicate 32 3), \<lparr>acc_Balance = 50, acc_Nonce = 0\<rparr>)])"
proof -
  have path: "path_to [(hex_encode [9], reward_at 0 [] [9])] (hex_encode [9]) = Some [reward_at 0 [] [9]]"
    by (simp add: path_to_def walk_back.simps gget_Cons)
  then show ?thesis
    by (simp add: chain_ok_def demo_chain_def path_linked_def replays_def reward_at_applies credit_def gput_def zero_account_def
        indexed_by_hash_def gmap_ok_def best_known_def better_tip_def chain_work_def)
qed



text \<open>C3. The order in which blocks arrive does not matter: two nodes with sound chains under the same rules
  that know the same blocks have the same canonical blocks, account state, tip, work and indexes.  This
  holds in particular after runs that start from one chain and accept the same blocks in different orders.\<close>

theorem delivery_order_irrelevant:
  assumes "chain_ok ed bc" and "deliver ed cs xs bc = Ret (a, ra)" and "deliver ed cs ys bc = Ret (b, rb)"
    and "\<forall>r \<in> set ra. r = Inr ()" and "\<forall>r \<in> set rb. r = Inr ()" and "snd ` set xs = snd ` set ys"
  shows "same_chain a b"
proof -
  note ka = deliver_known [OF assms(1,2,4)] and kb = deliver_known [OF assms(1,3,5)]
  have "gget (bc_blocksByHash a) k = gget (bc_blocksByHash b) k" for k
  proof (cases "k \<in> block_hex ` snd ` set xs")
    case True
    then obtain x where x: "x \<in> set xs" "k = block_hex (snd x)" by auto
    then obtain y where "y \<in> set ys" "snd y = snd x" using assms(6) by (metis (no_types, lifting) image_iff)
    then show ?thesis using ka kb x by (metis (no_types, lifting))
  next
    case False
    then show ?thesis using ka kb assms(6) by metis
  qed
  then show ?thesis using ka kb by (intro same_known_same_chain [of ed]) simp_all
qed

lemma reward_path:
  assumes "gget (bc_blocksByHash bc) (hex_encode [9]) = Some (reward_at 0 [] [9])"
    and "gget (bc_blocksByHash bc) (hex_encode [x]) = Some (reward_at 1 [9] [x])" and "x \<noteq> 9" and "bc_consensus bc = roomy_params"
  shows "computeCanonicalForTipLocked (\<lambda>_ _ _. True) 1700000100 (hex_encode [x]) bc =
    Ret (Inr ([reward_at 0 [] [9], reward_at 1 [9] [x]], [(GenerateAddress (replicate 32 3), \<lparr>acc_Balance = 100, acc_Nonce = 0\<rparr>)], 4))"
proof -
  let ?path = "[reward_at 0 [] [9], reward_at 1 [9] [x]]"
  have "walk_back (bc_blocksByHash bc) [] (hex_encode [x]) = Inr (rev ?path)"
    using assms by (subst walk_back.simps, simp del: hex_encode.simps, subst walk_back.simps, simp del: hex_encode.simps)
  moreover have "path_check roomy_params 1700000100 ?path 0 = Ret (Inr ())"
    by (simp add: path_check_def blockVersionForHeight_def roomy_params_def smoke_params_def)
  moreover have "path_check roomy_params 1700000100 ?path 1 = Ret (Inr ())"
    by (simp add: path_check_def blockVersionForHeight_def validateBlockTime_def medianTimePast_def i64_def roomy_params_def smoke_params_def)
  ultimately show ?thesis
    using assms(4) by (simp add: computeCanonicalForTipLocked_def reward_at_applies WorkForDifficultyBits_def maxDifficultyBits_def
        credit_def gput_def zero_account_def acct_def gget_Cons)
qed

lemma side_block_kept:
  assumes "bc_mu bc = False" "gget (bc_blocksByHash bc) (hex_encode [9]) = Some (reward_at 0 [] [9])" "bc_consensus bc = roomy_params"
    and "gget (bc_blocksByHash bc) (hex_encode [x]) = None" "bc_canonicalWork bc = 4" "bc_bestTipHash bc = hex_encode [1]"
    and "x = 5 \<or> x = 6"
  shows "AddBlock_locked (\<lambda>_ _ _. True) null_store 1700000100 (reward_at 1 [9] [x]) bc =
    Ret (bc\<lparr>bc_blocksByHash := gput (hex_encode [x]) (reward_at 1 [9] [x]) (bc_blocksByHash bc)\<rparr>, (False, Inr ()), [])"
proof -
  let ?bc = "bc\<lparr>bc_mu := True, bc_blocksByHash := gput (hex_encode [x]) (reward_at 1 [9] [x]) (bc_blocksByHash bc)\<rparr>"
  have "computeCanonicalForTipLocked (\<lambda>_ _ _. True) 1700000100 (hex_encode [x]) ?bc =
    Ret (Inr ([reward_at 0 [] [9], reward_at 1 [9] [x]], [(GenerateAddress (replicate 32 3), \<lparr>acc_Balance = 100, acc_Nonce = 0\<rparr>)], 4))"
    using assms by (intro reward_path) auto
  moreover have "\<not> better_tip 4 (hex_encode [x]) 4 (hex_encode [1])"
    using assms(7) by (auto simp: better_tip_def hexdigit_def less_char_def)
  ultimately show ?thesis
    using assms by (simp add: AddBlock_locked_def bc_Lock_def bc_Unlock_def add_locked_def null_store_def Let_def)
qed

definition demo_bc :: "unit blockchain" where
  "demo_bc = demo_chain [reward_at 0 [] [9], reward_at 1 [9] [1]] [] [(GenerateAddress (replicate 32 3), \<lparr>acc_Balance = 100, acc_Nonce = 0\<rparr>)]"

lemma demo_bc_ok: "chain_ok (\<lambda>_ _ _. True) demo_bc"
proof -
  let ?m = "[(hex_encode [9], reward_at 0 [] [9]), (hex_encode [1], reward_at 1 [9] [1])]"
  have "path_to ?m (hex_encode [9]) = Some [reward_at 0 [] [9]]"
    by (simp add: path_to_def walk_back.simps gget_Cons del: hex_encode.simps)
  moreover have "walk_back ?m [] (hex_encode [1]) = Inr [reward_at 1 [9] [1], reward_at 0 [] [9]]"
    by (subst walk_back.simps, simp add: gget_Cons del: hex_encode.simps, subst walk_back.simps, simp add: gget_Cons del: hex_encode.simps)
  then have "path_to ?m (hex_encode [1]) = Some [reward_at 0 [] [9], reward_at 1 [9] [1]]" by (simp add: path_to_def)
  ultimately show ?thesis
    by (simp add: chain_ok_def demo_bc_def demo_chain_def path_linked_def replays_def reward_at_applies credit_def gput_def
        zero_account_def acct_def gget_Cons indexed_by_hash_def gmap_ok_def best_known_def better_tip_def chain_work_def
        WorkForDifficultyBits_def maxDifficultyBits_def nth_Cons' del: hex_encode.simps)
qed

theorem delivery_order_irrelevant_witness:
  "\<exists>a b ra rb. deliver (\<lambda>_ _ _. True) null_store [(1700000100, reward_at 1 [9] [5]), (1700000100, reward_at 1 [9] [6])] demo_bc = Ret (a, ra) \<and>
     deliver (\<lambda>_ _ _. True) null_store [(1700000100, reward_at 1 [9] [6]), (1700000100, reward_at 1 [9] [5])] demo_bc = Ret (b, rb) \<and>
     bc_blocksByHash a \<noteq> bc_blocksByHash b \<and> same_chain a b"
proof -
  let ?x = "reward_at 1 [9] [5]" and ?y = "reward_at 1 [9] [6]"
  let ?add = "\<lambda>x b bc. bc\<lparr>bc_blocksByHash := gput (hex_encode [x]) b (bc_blocksByHash bc)\<rparr>"
  have w: "chain_work [reward_at 0 [] [9], reward_at 1 [9] [1]] = 4"
    by (simp add: chain_work_def WorkForDifficultyBits_def maxDifficultyBits_def)
  have one: "deliver (\<lambda>_ _ _. True) null_store [(1700000100, ?x), (1700000100, ?y)] demo_bc = Ret (?add 6 ?y (?add 5 ?x demo_bc), [Inr (), Inr ()])"
    and two: "deliver (\<lambda>_ _ _. True) null_store [(1700000100, ?y), (1700000100, ?x)] demo_bc = Ret (?add 5 ?x (?add 6 ?y demo_bc), [Inr (), Inr ()])"
    by (simp_all add: side_block_kept demo_bc_def demo_chain_def w gget_Cons del: hex_encode.simps)
  have "same_chain (?add 6 ?y (?add 5 ?x demo_bc)) (?add 5 ?x (?add 6 ?y demo_bc))"
    by (rule delivery_order_irrelevant [OF demo_bc_ok one two]) auto
  with one two show ?thesis
    by (auto simp: demo_bc_def demo_chain_def gput_def simp del: hex_encode.simps)
qed

text \<open>C36. Accepting a better block at a height where a commitment is due never returns.  \<^verbatim>\<open>AddBlock\<close> holds the
  chain's lock and \<^verbatim>\<open>ComputeStateCommitment\<close> waits for it.  This concerns height 1 and every multiple of
  100, whatever the block contains.\<close>

theorem AddBlock_commit_height_blocks:
  assumes "bc_mu bc = False" and "bc_blocks bc \<noteq> []"
    and "gget (bc_blocksByHash bc) (hex_encode (sl (blk_PrevHash b))) \<noteq> None" and "gget (bc_blocksByHash bc) (block_hex b) = None"
    and "computeCanonicalForTipLocked ed now (block_hex b)
      (bc\<lparr>bc_mu := True, bc_blocksByHash := gput (block_hex b) b (bc_blocksByHash bc)\<rparr>) = Ret (Inr (path, st, w))"
    and "better_tip w (block_hex b) (bc_canonicalWork bc) (bc_bestTipHash bc)"
    and "\<And>s. snd (cs_PutBlock cs b s) = Inr ()" and "\<And>s. snd (cs_RewriteCanonical cs path s) = Inr ()"
    and "ShouldCommit (blk_Height b)"
  shows "AddBlock_locked ed cs now b bc = Blocked"
proof -
  obtain s where put: "cs_PutBlock cs b (bc_store bc) = (s, Inr ())" using assms(7) [of "bc_store bc"] by (metis surjective_pairing)
  obtain s' where rw: "cs_RewriteCanonical cs path s = (s', Inr ())" using assms(8) [of s] by (metis surjective_pairing)
  have "add_locked ed cs now b (bc\<lparr>bc_mu := True\<rparr>) = Blocked"
    using assms put rw by (simp add: add_locked_def switch_to_def adopt_eq Let_def ComputeAndStoreCommitment_held)
  then show ?thesis using assms(1) by (simp add: AddBlock_locked_def bc_Lock_def)
qed

theorem AddBlock_commit_height_blocks_witness:
  "AddBlock_locked (\<lambda>_ _ _. True) null_store 1700000100 (reward_at 1 [9] [8])
     (demo_chain [reward_at 0 [] [9]] [] [(GenerateAddress (replicate 32 3), \<lparr>acc_Balance = 50, acc_Nonce = 0\<rparr>)]) = Blocked"
proof (rule AddBlock_commit_height_blocks)
  let ?bc = "demo_chain [reward_at 0 [] [9]] [] [(GenerateAddress (replicate 32 3), \<lparr>acc_Balance = 50, acc_Nonce = 0\<rparr>)]"
  show "computeCanonicalForTipLocked (\<lambda>_ _ _. True) 1700000100 (block_hex (reward_at 1 [9] [8]))
      (?bc\<lparr>bc_mu := True, bc_blocksByHash := gput (block_hex (reward_at 1 [9] [8])) (reward_at 1 [9] [8]) (bc_blocksByHash ?bc)\<rparr>) =
    Ret (Inr ([reward_at 0 [] [9], reward_at 1 [9] [8]], [(GenerateAddress (replicate 32 3), \<lparr>acc_Balance = 100, acc_Nonce = 0\<rparr>)], 4))"
    unfolding reward_at_fields by (rule reward_path) (simp_all add: demo_chain_def gget_Cons del: hex_encode.simps)
qed (simp_all add: demo_chain_def gget_Cons null_store_def better_tip_def chain_work_def WorkForDifficultyBits_def
    maxDifficultyBits_def ShouldCommit_def del: hex_encode.simps)

text \<open>Orphans: if processing them returns, the chain is still sound and the orphans whose parent is the tip
  are all gone.\<close>

theorem ProcessOrphans_done:
  assumes "chain_ok ed bc" and "ProcessOrphans ed cs now bc = Ret (bc', n)"
  shows "chain_ok ed bc' \<and> (\<exists>bc1. orphan_loop ed cs now bc 0 = Some (Ret (bc1, n)) \<and> tip_orphans bc1 = [] \<and> same_chain bc1 bc')"
proof -
  obtain q where q: "orphan_loop ed cs now bc 0 = Some q" using assms(2) by (auto simp: ProcessOrphans_def split: option.splits)
  then obtain bc1 pool where bc1: "q = Ret (bc1, n)" "bc' = bc1\<lparr>bc_orphanPool := pool\<rparr>"
    using assms(2) by (auto simp: ProcessOrphans_def obind_Ret_iff split: option.splits)
  then show ?thesis using orphan_loop_ok [OF q] assms(1) q by (simp add: same_chain_def)
qed



end
