(* ===== verification/ChainIndex.thy ===== *)
theory ChainIndex
  imports Forks
begin

text \<open>
  What the transaction index, the address index and the balance cache of a chain answer
  (\<^verbatim>\<open>TxByID\<close>, \<^verbatim>\<open>AddressTxs\<close>, \<^verbatim>\<open>Balance\<close>, \<^verbatim>\<open>BlockByHash\<close> in \<^verbatim>\<open>internal/blockchain\<close>), compared with the blocks.
\<close>

subsection \<open>The transaction index\<close>

text \<open>A transfer at position \<open>i\<close> of a block and its id.\<close>

definition transfer_at :: "consensus_params \<Rightarrow> block \<Rightarrow> nat \<Rightarrow> transaction \<Rightarrow> string \<Rightarrow> bool" where
  "transfer_at p b i tx txid \<longleftrightarrow> i < length (blk_Transactions b) \<and> blk_Transactions b ! i = tx \<and>
     tx_Type tx = TxTransfer \<and> TxIDHexForConsensus tx p (blk_Height b) = Inr txid"

definition loc_of :: "block \<Rightarrow> nat \<Rightarrow> tx_location" where
  "loc_of b i = \<lparr>loc_Height = blk_Height b, loc_BlockHashHex = block_hex b, loc_Index = int i\<rparr>"

lemma index_tx_cases:
  "gget (index_tx p b (i, tx) m) txid = Some loc \<Longrightarrow>
     tx_Type tx = TxTransfer \<and> TxIDHexForConsensus tx p (blk_Height b) = Inr txid \<and> loc = loc_of b i \<or> gget m txid = Some loc"
  by (auto simp: index_tx_def loc_of_def split: if_splits sum.splits)

lemma index_tx_keeps: "gget m txid \<noteq> None \<Longrightarrow> gget (index_tx p b itx m) txid \<noteq> None"
  by (auto simp: index_tx_def split: if_splits sum.splits)

lemma index_tx_adds:
  "tx_Type tx = TxTransfer \<Longrightarrow> TxIDHexForConsensus tx p (blk_Height b) = Inr txid \<Longrightarrow> gget (index_tx p b (i, tx) m) txid \<noteq> None"
  by (simp add: index_tx_def)

lemma index_block_sound:
  "gget (fold (index_tx p b) itxs m) txid = Some loc \<Longrightarrow>
     (\<exists>(i, tx) \<in> set itxs. tx_Type tx = TxTransfer \<and> TxIDHexForConsensus tx p (blk_Height b) = Inr txid \<and> loc = loc_of b i) \<or>
     gget m txid = Some loc"
proof (induction itxs arbitrary: m)
  case (Cons x itxs)
  obtain i tx where x: "x = (i, tx)" by fastforce
  with Cons.IH [of "index_tx p b x m"] Cons.prems index_tx_cases [of p b i tx m txid loc] show ?case by auto
qed simp

lemma index_block_keeps: "gget m txid \<noteq> None \<Longrightarrow> gget (fold (index_tx p b) itxs m) txid \<noteq> None"
  by (induction itxs arbitrary: m) (simp_all add: index_tx_keeps del: not_None_eq)

lemma index_block_complete:
  "(i, tx) \<in> set itxs \<Longrightarrow> tx_Type tx = TxTransfer \<Longrightarrow> TxIDHexForConsensus tx p (blk_Height b) = Inr txid \<Longrightarrow>
     gget (fold (index_tx p b) itxs m) txid \<noteq> None"
proof (induction itxs arbitrary: m)
  case (Cons x itxs)
  then show ?case
    using index_block_keeps [OF index_tx_adds [OF Cons.prems(2,3), where i = i and m = m], where itxs = itxs] by (auto simp del: not_None_eq)
qed simp

lemma tx_index_sound:
  assumes "gget (tx_index p blocks) txid = Some loc"
  shows "\<exists>b \<in> set blocks. \<exists>i tx. transfer_at p b i tx txid \<and> loc = loc_of b i"
proof -
  have "gget (fold (\<lambda>b. fold (index_tx p b) (enumerate 0 (blk_Transactions b))) bs m) txid = Some loc \<Longrightarrow>
      (\<exists>b \<in> set bs. \<exists>i tx. transfer_at p b i tx txid \<and> loc = loc_of b i) \<or> gget m txid = Some loc" for bs m
  proof (induction bs arbitrary: m)
    case (Cons b bs)
    let ?m = "fold (index_tx p b) (enumerate 0 (blk_Transactions b)) m"
    from Cons consider "\<exists>b \<in> set bs. \<exists>i tx. transfer_at p b i tx txid \<and> loc = loc_of b i" | "gget ?m txid = Some loc" by auto
    then show ?case
    proof cases
      case 2
      from index_block_sound [OF this] show ?thesis by (auto simp: transfer_at_def in_set_enumerate_eq)
    qed auto
  qed simp
  from this [of blocks "[]"] assms show ?thesis by (simp add: tx_index_def)
qed

lemma tx_index_complete:
  assumes "b \<in> set blocks" and "transfer_at p b i tx txid"
  shows "gget (tx_index p blocks) txid \<noteq> None"
proof -
  let ?f = "\<lambda>b. fold (index_tx p b) (enumerate 0 (blk_Transactions b))"
  have keeps: "gget m txid \<noteq> None \<Longrightarrow> gget (fold ?f bs m) txid \<noteq> None" for bs m
    by (induction bs arbitrary: m) (simp_all add: index_block_keeps del: not_None_eq)
  have one: "gget (?f b m) txid \<noteq> None" for m
    using assms(2) by (intro index_block_complete [of i tx]) (auto simp: transfer_at_def in_set_enumerate_eq)
  obtain l r where "blocks = l @ b # r" using assms(1) by (meson split_list)
  then show ?thesis by (auto simp: tx_index_def intro!: keeps one simp del: not_None_eq)
qed

lemma path_linked_height: "path_linked path \<Longrightarrow> i < length path \<Longrightarrow> blk_Height (path ! i) = word_of_nat i"
  by (induction i) (auto simp: path_linked_def hd_conv_nth)

lemma linked_unat:
  assumes "path_linked path" and "length path \<le> 2 ^ 64" and "b \<in> set path"
  shows "unat (blk_Height b) < length path \<and> path ! unat (blk_Height b) = b"
proof -
  obtain i where i: "i < length path" "path ! i = b" using assms(3) by (auto simp: in_set_conv_nth)
  then have "unat (blk_Height b) = i"
    using path_linked_height [OF assms(1) i(1)] assms(2) by (auto simp: unsigned_of_nat take_bit_nat_eq_self)
  with i show ?thesis by simp
qed

text \<open>C25. Lookup by transaction id: what \<^verbatim>\<open>TxByID\<close> finds is a transfer of a canonical block with that id, at the
  reported height and position, and it finds one for the id of every transfer in a canonical block.\<close>

theorem TxByID_correct:
  assumes "chain_ok ed bc" and "length (bc_blocks bc) \<le> 2 ^ 64"
  shows "(\<forall>tx loc. TxByID txid bc = Some (tx, loc) \<longrightarrow>
       (\<exists>b i. b \<in> set (bc_blocks bc) \<and> transfer_at (bc_consensus bc) b i tx txid \<and> loc = loc_of b i)) \<and>
    ((\<exists>b \<in> set (bc_blocks bc). \<exists>i tx. transfer_at (bc_consensus bc) b i tx txid) \<longrightarrow> TxByID txid bc \<noteq> None)"
proof -
  have idx: "bc_txIndex bc = tx_index (bc_consensus bc) (bc_blocks bc)" and lk: "path_linked (bc_blocks bc)"
    using assms(1) by (simp_all add: chain_ok_def)
  have found: "TxByID txid bc = Some (tx, loc_of b i)"
    if "gget (bc_txIndex bc) txid = Some (loc_of b i)" "b \<in> set (bc_blocks bc)" "transfer_at (bc_consensus bc) b i tx txid" for b i tx
    using that linked_unat [OF lk assms(2) that(2)] by (auto simp: TxByID_def loc_of_def transfer_at_def Let_def)
  have "\<exists>b \<in> set (bc_blocks bc). \<exists>i tx. transfer_at (bc_consensus bc) b i tx txid \<and> TxByID txid bc = Some (tx, loc_of b i)"
    if "gget (bc_txIndex bc) txid \<noteq> None"
    using that found tx_index_sound [of "bc_consensus bc" "bc_blocks bc" txid] idx by fastforce
  moreover have "gget (bc_txIndex bc) txid \<noteq> None" if "TxByID txid bc \<noteq> None"
    using that by (auto simp: TxByID_def split: option.splits)
  moreover have "gget (bc_txIndex bc) txid \<noteq> None" if "\<exists>b \<in> set (bc_blocks bc). \<exists>i tx. transfer_at (bc_consensus bc) b i tx txid"
    using that tx_index_complete idx by fastforce
  ultimately show ?thesis by fastforce
qed

definition sent_block :: block where
  "sent_block = transfer_block\<lparr>blk_Height := 0, blk_Hash := Some [4]\<rparr>"

definition sent_chain :: "unit blockchain" where
  "sent_chain = demo_chain [sent_block] [] [(GenerateAddress (replicate 32 1), \<lparr>acc_Balance = 50, acc_Nonce = 1\<rparr>)]"

lemma sent_block_fields [simp]:
  "blk_Height sent_block = 0" "blk_Hash sent_block = Some [4]" "blk_PrevHash sent_block = None"
  by (simp_all add: sent_block_def transfer_block_def demo_block_def)

lemma sent_block_applies:
  "applyBlockToState (\<lambda>_ _ _. True) roomy_params sent_block [] =
     ([(GenerateAddress (replicate 32 1), \<lparr>acc_Balance = 50, acc_Nonce = 1\<rparr>)], Inr ())"
proof -
  have "apply_tx (\<lambda>_ _ _. True) roomy_params 0 (1, self_tx)
      [(GenerateAddress (replicate 32 1), \<lparr>acc_Balance = 51, acc_Nonce = 0\<rparr>)] =
      ([(GenerateAddress (replicate 32 1), \<lparr>acc_Balance = 50, acc_Nonce = 1\<rparr>)], Inr ())"
    by (simp add: apply_tx_def self_tx_verifies)
      (simp add: self_tx_def demo_tx_def FromAddress_def acct_def gget_def credit_def gput_def Let_def)
  then show ?thesis
    by (simp add: applyBlockToState_def sent_block_def transfer_block_def demo_block_def)
      (simp add: roomy_params_def smoke_params_def apply_tx_def [of _ _ _ "(0, _)"] VerifyForConsensus_def Verify_def
      verify_coinbase_def credit_def gput_def zero_account_def Let_def)
qed

lemma sent_chain_ok: "chain_ok (\<lambda>_ _ _. True) sent_chain"
proof -
  have hx: "block_hex sent_block = hex_encode [4]" by (simp add: block_hex_def)
  have "path_to [(hex_encode [4], sent_block)] (hex_encode [4]) = Some [sent_block]"
    by (simp add: path_to_def walk_back.simps gget_Cons)
  then show ?thesis
    by (simp add: chain_ok_def sent_chain_def demo_chain_def hx path_linked_def replays_def sent_block_applies
        indexed_by_hash_def gmap_ok_def best_known_def better_tip_def)
qed

theorem TxByID_correct_witness:
  "\<exists>txid. transfer_at roomy_params sent_block 1 self_tx txid \<and> TxByID txid sent_chain \<noteq> None"
proof -
  obtain txid where "transfer_at roomy_params sent_block 1 self_tx txid"
    by (simp add: transfer_at_def sent_block_def transfer_block_def self_tx_def demo_tx_def TxIDHexForConsensus_def
        txSigningHashForConsensus_def BinaryEncodingActive_def roomy_params_def smoke_params_def signingHashLegacyJSON_def FromAddress_def)
  then show ?thesis using TxByID_correct [OF sent_chain_ok, of txid] by (auto simp: sent_chain_def demo_chain_def)
qed

end
