(* ===== verification/Mining.thy ===== *)
theory Mining
  imports ChainIndex
begin

text \<open>
  Mining: \<^verbatim>\<open>mineOneBlock\<close>, \<^verbatim>\<open>MineTransfers\<close> and \<^verbatim>\<open>SubmitTransfer\<close> of \<^verbatim>\<open>internal/blockchain/chain.go\<close>.  A block template
  is made under the chain's lock, the proof of work runs without it, and the block is committed under
  the lock again.  What other goroutines do to the chain in between is the function \<open>others\<close>.
\<close>

subsection \<open>The template\<close>

definition minFee :: u64 where
  "minFee = 1"

text \<open>The loop over the transfers; it checks copies of them, with the chain's id filled in.\<close>

fun mine_check :: "ed25519 \<Rightarrow> consensus_params \<Rightarrow> u64 \<Rightarrow> u64 \<Rightarrow> transaction list \<Rightarrow> u64 \<Rightarrow> u64 res" where
  "mine_check ed p chainID height [] fees = Inr fees"
| "mine_check ed p chainID height (tx0 # txs) fees =
     (if tx_Type tx0 \<noteq> TxTransfer then Inl ''only transfer txs can be mined''
      else
        let tx = (if tx_ChainID tx0 = 0 then tx0\<lparr>tx_ChainID := chainID\<rparr> else tx0) in
        if tx_ChainID tx \<noteq> chainID then Inl ''wrong chainId''
        else rbind (VerifyForConsensus ed tx p height) (\<lambda>_.
          if tx_Fee tx < minFee then Inl ''fee too low''
          else mine_check ed p chainID height txs (fees + tx_Fee tx)))"

definition mine_coinbase :: "consensus_params \<Rightarrow> u64 \<Rightarrow> string \<Rightarrow> u64 \<Rightarrow> u64 \<Rightarrow> transaction" where
  "mine_coinbase p chainID miner height fees =
     \<lparr>tx_Type = TxCoinbase, tx_ChainID = chainID, tx_FromPubKey = None, tx_ToAddress = miner,
      tx_Amount = BlockReward (cp_MonetaryPolicy p) height + MinerFeeAmount (cp_MonetaryPolicy p) fees,
      tx_Fee = 0, tx_Nonce = 0, tx_Data = ''block reward + fees (height='' @ json_u64 height @ '')'', tx_Signature = None\<rparr>"

definition mine_time :: "int \<Rightarrow> block \<Rightarrow> int" where
  "mine_time now latest = (if now \<le> blk_TimestampUnix latest then i64 (blk_TimestampUnix latest + 1) else now)"

text \<open>\<^verbatim>\<open>append([]byte(nil), h...)\<close>: nil for an empty slice.\<close>

definition copy_slice :: "slice \<Rightarrow> slice" where
  "copy_slice s = (if sl s = [] then None else Some (sl s))"

definition mine_template :: "ed25519 \<Rightarrow> int \<Rightarrow> transaction list \<Rightarrow> 's blockchain \<Rightarrow> block res outcome" where
  "mine_template ed now transfers bc =
     (if bc_blocks bc = [] then Panic
      else
        let latest = last (bc_blocks bc); height = blk_Height latest + 1; p = bc_consensus bc in
        case mine_check ed p (bc_ChainID bc) height transfers 0 of
          Inl e \<Rightarrow> Ret (Inl e)
        | Inr fees \<Rightarrow>
            (case nextDifficultyBitsFromPath p (bc_blocks bc) of
               None \<Rightarrow> Panic
             | Some diffBits \<Rightarrow> Ret (Inr
                 \<lparr>blk_Version = blockVersionForHeight p height, blk_Height = height, blk_TimestampUnix = mine_time now latest,
                  blk_PrevHash = copy_slice (blk_Hash latest), blk_Nonce = 0, blk_DifficultyBits = diffBits,
                  blk_MinerAddress = bc_MinerAddress bc,
                  blk_Transactions = mine_coinbase p (bc_ChainID bc) (bc_MinerAddress bc) height fees # transfers,
                  blk_Hash = None, blk_StateRoot = None, blk_UTXORoot = None\<rparr>)))"

subsection \<open>The commit\<close>

definition cache_account :: "ledger \<Rightarrow> string \<Rightarrow> block node_cache \<Rightarrow> block node_cache" where
  "cache_account st a c = (case gget st a of None \<Rightarrow> c | Some acc \<Rightarrow> CacheBalance a (int64_of (acc_Balance acc)) c)"

definition cache_tx :: "ledger \<Rightarrow> transaction \<Rightarrow> block node_cache \<Rightarrow> block node_cache" where
  "cache_tx st tx c =
     (if tx_Type tx = TxTransfer
      then cache_account st (tx_ToAddress tx) (cache_account st (case FromAddress tx of Inl _ \<Rightarrow> [] | Inr a \<Rightarrow> a) c)
      else c)"

definition cache_mined :: "block \<Rightarrow> 's blockchain \<Rightarrow> 's blockchain" where
  "cache_mined b bc =
     bc\<lparr>bc_cache := fold (cache_tx (bc_state bc)) (blk_Transactions b) (CacheBlock (bc_bestTipHash bc) b (bc_cache bc))\<rparr>"

definition append_block :: "block \<Rightarrow> 's blockchain \<Rightarrow> 's blockchain" where
  "append_block b bc =
     (let bc1 = indexAddressTxsForBlockLocked b (indexTxsForBlockLocked b (addToIndexLocked b (bc\<lparr>bc_blocks := bc_blocks bc @ [b]\<rparr>)))
      in bc1\<lparr>bc_bestTipHash := block_hex b,
             bc_canonicalWork := bc_canonicalWork bc1 + WorkForDifficultyBits (blk_DifficultyBits b)\<rparr>)"

text \<open>The part under the lock: \<open>None\<close> when the tip has changed meanwhile.\<close>

definition commit_locked :: "ed25519 \<Rightarrow> 's chain_store \<Rightarrow> block \<Rightarrow> 's blockchain \<Rightarrow> ('s blockchain \<times> bool res) outcome" where
  "commit_locked ed cs b bc =
     (if bc_blocks bc = [] \<or> blk_Height b \<le> blk_Height (last (bc_blocks bc)) then Ret (bc, Inr False)
      else if sl (blk_Hash (last (bc_blocks bc))) \<noteq> sl (blk_PrevHash b) then Ret (bc, Inr False)
      else obind (lockAccountsForBlock b (bc_accountManager bc)) (\<lambda>(am, shards).
        let released = fold am_unlock shards am in
        case applyBlockToState ed (bc_consensus bc) b (bc_state bc) of
          (st, Inl e) \<Rightarrow> Ret (bc\<lparr>bc_accountManager := released, bc_state := st\<rparr>, Inl e)
        | (st, Inr _) \<Rightarrow>
            (case cs_AppendCanonical cs b (bc_store bc) of
               (s, Inl e) \<Rightarrow> Ret (bc\<lparr>bc_accountManager := released, bc_state := st, bc_store := s\<rparr>, Inl e)
             | (s, Inr _) \<Rightarrow>
                 Ret (cache_mined b (append_block b (bc\<lparr>bc_accountManager := released, bc_state := st, bc_store := s\<rparr>)), Inr True))))"

definition mine_checkpoint :: "'s chain_store \<Rightarrow> u64 \<Rightarrow> 's blockchain \<Rightarrow> 's blockchain" where
  "mine_checkpoint cs height bc =
     (let cfg = bc_cfg bc;
          interval = (if cfg_StoreMode cfg = ''pruned''
            then (if cfg_CheckpointInterval cfg = 0 then 100 else cfg_CheckpointInterval cfg) else 0)
      in if 0 < interval \<and> tmod (int64_of height) interval = 0
         then bc\<lparr>bc_store := fst (StateCheckpoint cs (NewPruner cfg) (int64_of height) (bc_store bc))\<rparr>
         else bc)"

text \<open>The result is the block that is in the chain, with the roots a commitment has given it.\<close>

type_synonym 's mine_result = "'s blockchain \<times> block option res \<times> ws_event list"

definition commit_block ::
  "ed25519 \<Rightarrow> 's chain_store \<Rightarrow> int \<Rightarrow> block \<Rightarrow> 's blockchain \<Rightarrow> 's mine_result outcome" where
  "commit_block ed cs latestTimestamp b bc =
     obind (bc_Lock bc) (\<lambda>bc1.
     obind (commit_locked ed cs b bc1) (\<lambda>(bc2, r).
       let bc3 = bc_Unlock bc2 in
       case r of
         Inl e \<Rightarrow> Ret (bc3, Inl e, [])
       | Inr False \<Rightarrow> Ret (bc3, Inr None, [])
       | Inr True \<Rightarrow>
           obind (if ShouldCommit (blk_Height b) then ComputeAndStoreCommitment cs (blk_Height b) (mine_checkpoint cs (blk_Height b) bc3)
                  else Ret (mine_checkpoint cs (blk_Height b) bc3, Inr ())) (\<lambda>(bc4, _).
             Ret (bc4, Inr (Some (last (bc_blocks bc4))),
               (if bc_onBlockMined bc3 then [MinedCallback latestTimestamp] else []) @
               (if bc_events bc4 then [block_event b] else [])))))"

definition mineOneBlock ::
  "ed25519 \<Rightarrow> 's chain_store \<Rightarrow> ('s blockchain \<Rightarrow> 's blockchain) \<Rightarrow> int \<Rightarrow> transaction list \<Rightarrow> 's blockchain \<Rightarrow> 's mine_result outcome" where
  "mineOneBlock ed cs others now transfers bc =
     obind (bc_Lock bc) (\<lambda>bc1.
     obind (mine_template ed now transfers bc1) (\<lambda>t.
       case t of
         Inl e \<Rightarrow> Ret (bc_Unlock bc1, Inl e, [])
       | Inr newBlock \<Rightarrow>
           let bc2 = others (bc_Unlock bc1) in
           (case pow_Run (bc_consensus bc) newBlock of
              None \<Rightarrow> Blocked
            | Some (Inl e) \<Rightarrow> Ret (bc2, Inl e, [])
            | Some (Inr (nonce, hash)) \<Rightarrow>
                commit_block ed cs (blk_TimestampUnix (last (bc_blocks bc)))
                  (newBlock\<lparr>blk_Nonce := nonce, blk_Hash := Some hash\<rparr>) bc2)))"

text \<open>The attempt with \<open>n\<close> more to come reads the clock \<open>now n\<close> and runs beside \<open>others n\<close>.\<close>

fun mine_attempts ::
  "ed25519 \<Rightarrow> 's chain_store \<Rightarrow> (nat \<Rightarrow> 's blockchain \<Rightarrow> 's blockchain) \<Rightarrow> (nat \<Rightarrow> int) \<Rightarrow> transaction list \<Rightarrow> nat \<Rightarrow> 's blockchain
   \<Rightarrow> ('s blockchain \<times> block res \<times> ws_event list) outcome" where
  "mine_attempts ed cs others now transfers 0 bc = Ret (bc, Inl ''mining failed after 100 retries'', [])"
| "mine_attempts ed cs others now transfers (Suc n) bc =
     obind (mineOneBlock ed cs (others n) (now n) transfers bc) (\<lambda>(bc1, r, ev).
       case r of
         Inl e \<Rightarrow> Ret (bc1, Inl e, ev)
       | Inr (Some b) \<Rightarrow> Ret (bc1, Inr b, ev)
       | Inr None \<Rightarrow> mine_attempts ed cs others now transfers n bc1)"

definition MineTransfers where
  "MineTransfers ed cs others now transfers bc = mine_attempts ed cs others now transfers 100 bc"

definition SubmitTransfer where
  "SubmitTransfer ed cs others now tx requireAIAudit aiApproved bc =
     (if requireAIAudit \<and> \<not> aiApproved then Ret (bc, Inl ''transaction rejected by AI auditor'', [])
      else MineTransfers ed cs others now [tx] bc)"

subsection \<open>Appending a block\<close>

lemma tx_index_append: "tx_index p (blocks @ [b]) = fold (index_tx p b) (enumerate 0 (blk_Transactions b)) (tx_index p blocks)"
  by (simp add: tx_index_def)

lemma address_index_append:
  "address_index p (blocks @ [b]) = fold (index_address_tx p b) (enumerate 0 (blk_Transactions b)) (address_index p blocks)"
  by (simp add: address_index_def)

lemma chain_work_append: "chain_work (blocks @ [b]) = chain_work blocks + WorkForDifficultyBits (blk_DifficultyBits b)"
  by (simp add: chain_work_def)

lemma walk_back_seen:
  "walk_back m seen cur = Inr bk \<Longrightarrow> gget m x = None \<Longrightarrow> set seen' \<subseteq> insert x (set seen) \<Longrightarrow> walk_back m seen' cur = Inr bk"
proof (induction m seen cur arbitrary: bk seen' rule: walk_back.induct)
  case (1 m seen cur)
  obtain b where b: "gget m cur = Some b" and new: "cur \<notin> set seen"
    using 1(2) by (subst (asm) walk_back.simps) (auto split: if_splits option.splits)
  then have new': "cur \<notin> set seen'" using 1(3,4) by auto
  show ?case
  proof (cases "blk_Height b = 0 \<or> sl (blk_PrevHash b) = []")
    case True
    with b new new' 1(2) show ?thesis by (subst (asm) walk_back.simps, subst walk_back.simps) simp
  next
    case False
    with 1(2) b new obtain r where r: "walk_back m (cur # seen) (hex_encode (sl (blk_PrevHash b))) = Inr r" and bk: "bk = b # r"
      by (subst (asm) walk_back.simps) (auto simp: rbind_Inr_iff)
    have "set (cur # seen') \<subseteq> insert x (set (cur # seen))" using 1(4) by auto
    from 1(1) [OF new b False r 1(3) this] b new' False bk show ?thesis by (subst walk_back.simps) simp
  qed
qed

lemma path_to_extend:
  assumes path: "path_to m tip = Some path" and new: "gget m k = None"
    and b: "blk_Height b \<noteq> 0" "sl (blk_PrevHash b) \<noteq> []" "hex_encode (sl (blk_PrevHash b)) = tip"
  shows "path_to (gput k b m) k = Some (path @ [b])"
proof -
  obtain bk where bk: "walk_back m [] tip = Inr bk" "path = rev bk" using path by (auto simp: path_to_def split: sum.splits)
  have "walk_back m [k] tip = Inr bk" by (rule walk_back_seen [OF bk(1) new]) simp
  then have "walk_back (gput k b m) [k] tip = Inr bk" by (rule walk_back_mono) (use new in auto)
  then have "walk_back (gput k b m) [] k = Inr (b # bk)" using b by (subst walk_back.simps) simp
  then show ?thesis using bk by (simp add: path_to_def)
qed

lemma path_linked_append:
  "path_linked path \<Longrightarrow> blk_Height b = blk_Height (last path) + 1 \<Longrightarrow> hex_encode (sl (blk_PrevHash b)) = block_hex (last path) \<Longrightarrow>
     path_linked (path @ [b])"
  by (auto simp: path_linked_def nth_append last_conv_nth less_Suc_eq dest!: sym [where t = "length path"])

lemma append_block_eq:
  "sl (blk_Hash b) \<noteq> [] \<Longrightarrow> append_block b bc = bc\<lparr>bc_blocks := bc_blocks bc @ [b],
     bc_blocksByHash := gput (block_hex b) b (bc_blocksByHash bc),
     bc_txIndex := fold (index_tx (bc_consensus bc) b) (enumerate 0 (blk_Transactions b)) (bc_txIndex bc),
     bc_addressIndex := fold (index_address_tx (bc_consensus bc) b) (enumerate 0 (blk_Transactions b)) (bc_addressIndex bc),
     bc_bestTipHash := block_hex b,
     bc_canonicalWork := bc_canonicalWork bc + WorkForDifficultyBits (blk_DifficultyBits b)\<rparr>"
  by (simp add: append_block_def addToIndexLocked_def indexTxsForBlockLocked_def indexAddressTxsForBlockLocked_def)

lemma chain_ok_tip:
  assumes "chain_ok ed bc"
  shows "bc_bestTipHash bc = block_hex (last (bc_blocks bc))"
proof -
  have "path_to (bc_blocksByHash bc) (bc_bestTipHash bc) = Some (bc_blocks bc)" "indexed_by_hash (bc_blocksByHash bc)"
    using assms by (simp_all add: chain_ok_def)
  then show ?thesis using path_to_Some(2) indexed_by_hashD by blast
qed

lemma chain_ok_append:
  assumes ok: "chain_ok ed bc" and new: "gget (bc_blocksByHash bc) (block_hex b) = None" and h: "sl (blk_Hash b) \<noteq> []"
    and prev: "sl (blk_PrevHash b) = sl (blk_Hash (last (bc_blocks bc)))" "sl (blk_PrevHash b) \<noteq> []"
    and ht: "blk_Height b = blk_Height (last (bc_blocks bc)) + 1" "blk_Height b \<noteq> 0"
    and apply_ok: "applyBlockToState ed (bc_consensus bc) b (bc_state bc) = (st, Inr ())" and bits: "blk_DifficultyBits b \<noteq> 0"
  shows "chain_ok ed (append_block b (bc\<lparr>bc_accountManager := am, bc_state := st, bc_store := s\<rparr>))"
proof -
  let ?m = "bc_blocksByHash bc" let ?m' = "gput (block_hex b) b ?m"
  have idx: "indexed_by_hash ?m" and path: "path_to ?m (bc_bestTipHash bc) = Some (bc_blocks bc)"
    and best: "best_known ?m (bc_canonicalWork bc) (bc_bestTipHash bc)"
    using ok by (auto simp: chain_ok_def)
  have link: "hex_encode (sl (blk_PrevHash b)) = bc_bestTipHash bc"
    using prev(1) chain_ok_tip [OF ok] by (simp add: block_hex_def)
  have path': "path_to ?m' (block_hex b) = Some (bc_blocks bc @ [b])"
    by (rule path_to_extend [OF path new ht(2) prev(2) link])
  have more: "better_tip (chain_work (bc_blocks bc @ [b])) (block_hex b) (bc_canonicalWork bc) (bc_bestTipHash bc)"
    using ok WorkForDifficultyBits_pos [OF bits] by (auto simp: chain_ok_def better_tip_def chain_work_append)
  have "best_known ?m' (chain_work (bc_blocks bc @ [b])) (block_hex b)"
    by (rule best_known_gput [OF _ best new path']) (use idx better_tip_trans [OF more] in \<open>auto simp: indexed_by_hash_def better_tip_def\<close>)
  moreover have "replays ed (bc_consensus bc) (bc_blocks bc @ [b]) st"
    using ok apply_ok by (simp add: chain_ok_def replays_def run_all_append)
  moreover have "path_linked (bc_blocks bc @ [b])"
    using ok ht prev(1) by (intro path_linked_append) (simp_all add: chain_ok_def block_hex_def)
  ultimately show ?thesis
    using ok h path' by (simp add: append_block_eq chain_ok_def indexed_by_hash_gput tx_index_append address_index_append chain_work_append)
qed

subsection \<open>Roots written to a block\<close>

lemma with_roots_fields [simp]:
  "blk_Height (with_roots sr ur b) = blk_Height b" "blk_PrevHash (with_roots sr ur b) = blk_PrevHash b"
  "blk_Hash (with_roots sr ur b) = blk_Hash b" "blk_Transactions (with_roots sr ur b) = blk_Transactions b"
  "blk_DifficultyBits (with_roots sr ur b) = blk_DifficultyBits b" "blk_MinerAddress (with_roots sr ur b) = blk_MinerAddress b"
  "block_hex (with_roots sr ur b) = block_hex b"
  by (simp_all add: with_roots_def block_hex_def)

definition set_roots_of :: "block \<Rightarrow> slice \<Rightarrow> slice \<Rightarrow> block \<Rightarrow> block" where
  "set_roots_of b0 sr ur x = (if x = b0 then with_roots sr ur x else x)"

lemma set_roots_of_fields [simp]:
  "blk_Height (set_roots_of b0 sr ur b) = blk_Height b" "blk_PrevHash (set_roots_of b0 sr ur b) = blk_PrevHash b"
  "blk_Hash (set_roots_of b0 sr ur b) = blk_Hash b" "blk_Transactions (set_roots_of b0 sr ur b) = blk_Transactions b"
  "blk_DifficultyBits (set_roots_of b0 sr ur b) = blk_DifficultyBits b" "block_hex (set_roots_of b0 sr ur b) = block_hex b"
  by (simp_all add: set_roots_of_def)

lemma apply_with_roots:
  "cp_MaxBlockSize p = 0 \<Longrightarrow> applyBlockToState ed p (set_roots_of b0 sr ur b) = applyBlockToState ed p b"
proof (cases "b = b0")
  case True
  assume "cp_MaxBlockSize p = 0"
  then show ?thesis using True
    by (intro ext) (simp add: applyBlockToState_def set_roots_of_def block_fees_def Let_def cong: sum.case_cong if_cong)
qed (simp add: set_roots_of_def)

lemma run_all_map: "(\<And>x. act (f x) = act x) \<Longrightarrow> run_all act (map f xs) s = run_all act xs s"
  by (induction xs arbitrary: s) (auto split: prod.splits sum.splits)

lemma gget_map_val: "gget (map (\<lambda>(k, x). (k, f x)) m) k = map_option f (gget m k)"
  by (induction m) (auto simp: gget_Cons)

lemma walk_back_map:
  assumes f: "\<And>x. blk_Height (f x) = blk_Height x" "\<And>x. blk_PrevHash (f x) = blk_PrevHash x"
  shows "walk_back m seen cur = Inr bk \<Longrightarrow> walk_back (map (\<lambda>(k, x). (k, f x)) m) seen cur = Inr (map f bk)"
proof (induction m seen cur arbitrary: bk rule: walk_back.induct)
  case (1 m seen cur)
  obtain b where b: "gget m cur = Some b" and new: "cur \<notin> set seen"
    using 1(2) by (subst (asm) walk_back.simps) (auto split: if_splits option.splits)
  show ?case
  proof (cases "blk_Height b = 0 \<or> sl (blk_PrevHash b) = []")
    case True
    with b new 1(2) show ?thesis by (subst (asm) walk_back.simps, subst walk_back.simps) (auto simp: gget_map_val f)
  next
    case False
    with 1(2) b new obtain r where r: "walk_back m (cur # seen) (hex_encode (sl (blk_PrevHash b))) = Inr r" and bk: "bk = b # r"
      by (subst (asm) walk_back.simps) (auto simp: rbind_Inr_iff)
    from 1(1) [OF new b False r] b new False bk show ?thesis by (subst walk_back.simps) (simp add: gget_map_val f)
  qed
qed

lemma path_to_map:
  "path_to m h = Some path \<Longrightarrow> path_to (map (\<lambda>(k, x). (k, set_roots_of b0 sr ur x)) m) h = Some (map (set_roots_of b0 sr ur) path)"
  using walk_back_map [of "set_roots_of b0 sr ur" m "[]" h] by (auto simp: path_to_def rev_map split: sum.splits)

lemma indexes_map:
  "tx_index p (map (set_roots_of b0 sr ur) blocks) = tx_index p blocks"
  "address_index p (map (set_roots_of b0 sr ur) blocks) = address_index p blocks"
  "chain_work (map (set_roots_of b0 sr ur) blocks) = chain_work blocks"
proof -
  have "index_tx p (set_roots_of b0 sr ur b) = index_tx p b" "index_address_tx p (set_roots_of b0 sr ur b) = index_address_tx p b" for b
    by (intro ext, simp add: index_tx_def Let_def cong: sum.case_cong if_cong)
      (intro ext, simp add: index_address_tx_def Let_def cong: sum.case_cong if_cong)
  then show "tx_index p (map (set_roots_of b0 sr ur) blocks) = tx_index p blocks"
    "address_index p (map (set_roots_of b0 sr ur) blocks) = address_index p blocks"
    by (simp_all add: tx_index_def address_index_def fold_map comp_def)
qed (simp add: chain_work_def comp_def)

lemma path_linked_distinct:
  assumes "path_linked path" and "length path \<le> 2 ^ 64"
  shows "distinct path"
proof -
  have "i = j" if "i < length path" "j < length path" "path ! i = path ! j" for i j
  proof -
    have "word_of_nat i = (word_of_nat j :: u64)"
      using that path_linked_height [OF assms(1), of i] path_linked_height [OF assms(1), of j] by simp
    then have "unat (word_of_nat i :: u64) = unat (word_of_nat j :: u64)" by simp
    then show ?thesis using that assms(2) by (simp add: unsigned_of_nat take_bit_nat_eq_self)
  qed
  then show ?thesis by (auto simp: distinct_conv_nth)
qed

lemma set_roots_eq:
  fixes sr ur :: slice
  assumes ok: "chain_ok ed bc" and len: "length (bc_blocks bc) \<le> 2 ^ 64" and h: "unat h < length (bc_blocks bc)"
  defines "f \<equiv> set_roots_of (bc_blocks bc ! unat h) sr ur"
  shows "\<exists>c. set_roots h sr ur bc =
    bc\<lparr>bc_blocks := map f (bc_blocks bc), bc_blocksByHash := map (\<lambda>(k, x). (k, f x)) (bc_blocksByHash bc), bc_cache := c\<rparr>"
proof -
  let ?b = "bc_blocks bc ! unat h"
  have d: "distinct (bc_blocks bc)" using ok len by (intro path_linked_distinct) (simp_all add: chain_ok_def)
  have e1: "(bc_blocks bc)[unat h := with_roots sr ur ?b] = map f (bc_blocks bc)"
    using d h by (intro nth_equalityI) (auto simp: nth_list_update f_def set_roots_of_def nth_eq_iff_index_eq)
  have "(k, if k = block_hex ?b then if x = ?b then with_roots sr ur x else x else x) = (k, f x)"
    if "(k, x) \<in> set (bc_blocksByHash bc)" for k x
    using that ok by (auto simp: f_def set_roots_of_def chain_ok_def indexed_by_hash_def)
  then have e2: "map (\<lambda>(k, x). (k, if k = block_hex ?b then if x = ?b then with_roots sr ur x else x else x)) (bc_blocksByHash bc) =
      map (\<lambda>(k, x). (k, f x)) (bc_blocksByHash bc)"
    by (intro map_cong refl) auto
  show ?thesis unfolding set_roots_def Let_def if_P [OF h] e1 e2 by blast
qed

lemma set_roots_ok:
  assumes ok: "chain_ok ed bc" and len: "length (bc_blocks bc) \<le> 2 ^ 64" and size: "cp_MaxBlockSize (bc_consensus bc) = 0"
  shows "chain_ok ed (set_roots h sr ur bc)"
proof (cases "unat h < length (bc_blocks bc)")
  case False
  then show ?thesis using ok by (simp add: set_roots_def)
next
  case True
  let ?f = "set_roots_of (bc_blocks bc ! unat h) sr ur"
  obtain c where eq: "set_roots h sr ur bc =
    bc\<lparr>bc_blocks := map ?f (bc_blocks bc), bc_blocksByHash := map (\<lambda>(k, x). (k, ?f x)) (bc_blocksByHash bc), bc_cache := c\<rparr>"
    using set_roots_eq [OF ok len True] by blast
  have "path_linked (map ?f (bc_blocks bc))" using ok by (auto simp: chain_ok_def path_linked_def hd_map)
  moreover have "replays ed (bc_consensus bc) (map ?f (bc_blocks bc)) (bc_state bc)"
    using ok by (simp add: chain_ok_def replays_def run_all_map apply_with_roots [OF size])
  moreover have "indexed_by_hash (map (\<lambda>(k, x). (k, ?f x)) (bc_blocksByHash bc))"
    using ok by (auto simp: chain_ok_def indexed_by_hash_def gmap_ok_def comp_def case_prod_unfold)
  moreover have "best_known (map (\<lambda>(k, x). (k, ?f x)) (bc_blocksByHash bc)) (bc_canonicalWork bc) (bc_bestTipHash bc)"
    unfolding best_known_def
  proof (rule ballI, clarify)
    fix k x assume "(k, x) \<in> set (map (\<lambda>(k, x). (k, ?f x)) (bc_blocksByHash bc))"
    then obtain y where "(k, y) \<in> set (bc_blocksByHash bc)" by auto
    then obtain path where "path_to (bc_blocksByHash bc) k = Some path" "\<not> better_tip (chain_work path) k (bc_canonicalWork bc) (bc_bestTipHash bc)"
      using ok by (auto simp: chain_ok_def best_known_def)
    then show "\<exists>path. path_to (map (\<lambda>(k, x). (k, ?f x)) (bc_blocksByHash bc)) k = Some path \<and>
        \<not> better_tip (chain_work path) k (bc_canonicalWork bc) (bc_bestTipHash bc)"
      using path_to_map by (metis indexes_map(3))
  qed
  ultimately show ?thesis using ok path_to_map unfolding eq by (simp add: chain_ok_def indexes_map)
qed

lemma set_roots_last:
  assumes ok: "chain_ok ed bc" and blocks: "bc_blocks bc = bs @ [b]" and len: "length bs < 2 ^ 64"
  shows "bc_blocks (set_roots (blk_Height b) sr ur bc) = bs @ [with_roots sr ur b]"
proof -
  have lk: "path_linked (bs @ [b])" using ok blocks by (simp add: chain_ok_def)
  have "blk_Height b = word_of_nat (length bs)" using path_linked_height [OF lk, of "length bs"] by simp
  then have h: "unat (blk_Height b) = length bs" using len by (simp add: unsigned_of_nat take_bit_nat_eq_self)
  have "bc_blocks (set_roots (blk_Height b) sr ur bc) = (bs @ [b])[length bs := with_roots sr ur b]"
    by (simp add: set_roots_def Let_def blocks h)
  then show ?thesis by simp
qed

lemma commitment_effect:
  assumes "ComputeAndStoreCommitment cs h bc = Ret (bc', r)"
  shows "\<exists>s. bc' = bc\<lparr>bc_store := s\<rparr> \<or> (\<exists>sr ur. bc' = (set_roots h sr ur (bc\<lparr>bc_store := s, bc_mu := True\<rparr>))\<lparr>bc_mu := False\<rparr>)"
proof (cases "ShouldCommit h")
  case False
  then show ?thesis using assms by (auto simp: ComputeAndStoreCommitment_def intro: exI [of _ "bc_store bc"])
next
  case True
  then obtain q where q: "ComputeStateCommitment (int64_of h) bc = Ret q"
    using assms by (auto simp: ComputeAndStoreCommitment_def obind_Ret_iff)
  show ?thesis
  proof (cases q)
    case (Inl e)
    then show ?thesis using assms True q by (auto simp: ComputeAndStoreCommitment_def intro: exI [of _ "bc_store bc"])
  next
    case (Inr c)
    obtain s w where "cs_WriteCommitment cs c (bc_store bc) = (s, w)" by fastforce
    then show ?thesis using assms True q Inr
      by (cases w) (auto simp: ComputeAndStoreCommitment_def bc_Lock_def bc_Unlock_def split: if_splits)
  qed
qed

lemma chain_ok_caches [simp]:
  "chain_ok ed (bc\<lparr>bc_cache := c\<rparr>) = chain_ok ed bc" "chain_ok ed (bc\<lparr>bc_store := s\<rparr>) = chain_ok ed bc"
  "chain_ok ed (bc\<lparr>bc_accountManager := am\<rparr>) = chain_ok ed bc"
  by (simp_all add: chain_ok_def)

lemma commitment_keeps_chain:
  assumes ok: "chain_ok ed bc" and blocks: "bc_blocks bc = bs @ [b]"
    and com: "(if ShouldCommit (blk_Height b) then ComputeAndStoreCommitment cs (blk_Height b) bc else Ret (bc, Inr ())) = Ret (bc', e)"
    and size: "\<not> ShouldCommit (blk_Height b) \<or> cp_MaxBlockSize (bc_consensus bc) = 0" and len: "length bs < 2 ^ 64"
  shows "chain_ok ed bc' \<and> (\<exists>sr ur. bc_blocks bc' = bs @ [with_roots sr ur b])"
proof -
  have same: "b = with_roots (blk_StateRoot b) (blk_UTXORoot b) b" by (simp add: with_roots_def)
  show ?thesis
  proof (cases "ShouldCommit (blk_Height b)")
    case False
    then show ?thesis using ok blocks com same by auto
  next
    case True
    then obtain s where "bc' = bc\<lparr>bc_store := s\<rparr> \<or>
        (\<exists>sr ur. bc' = (set_roots (blk_Height b) sr ur (bc\<lparr>bc_store := s, bc_mu := True\<rparr>))\<lparr>bc_mu := False\<rparr>)"
      using commitment_effect [of cs "blk_Height b" bc bc' e] com by auto
    then show ?thesis
    proof (elim disjE exE)
      assume "bc' = bc\<lparr>bc_store := s\<rparr>"
      then show ?thesis using ok blocks same by auto
    next
      fix sr ur assume bc': "bc' = (set_roots (blk_Height b) sr ur (bc\<lparr>bc_store := s, bc_mu := True\<rparr>))\<lparr>bc_mu := False\<rparr>"
      have "chain_ok ed bc'" using ok blocks True size len by (simp add: bc' set_roots_ok)
      moreover have "bc_blocks bc' = bs @ [with_roots sr ur b]"
        using set_roots_last [of ed "bc\<lparr>bc_store := s, bc_mu := True\<rparr>" bs b] ok blocks len by (simp add: bc')
      ultimately show ?thesis by auto
    qed
  qed
qed

lemma commit_locked_ok:
  assumes ok: "chain_ok ed bc" and res: "commit_locked ed cs b bc = Ret (bc', Inr x)"
    and ht: "blk_Height b = blk_Height (last (bc_blocks bc)) + 1" and bits: "blk_DifficultyBits b \<noteq> 0" and h: "sl (blk_Hash b) \<noteq> []"
    and prev: "sl (blk_PrevHash b) \<noteq> []" and new: "gget (bc_blocksByHash bc) (block_hex b) = None"
  shows "chain_ok ed bc' \<and> bc_consensus bc' = bc_consensus bc \<and>
    (if x then bc_blocks bc' = bc_blocks bc @ [b] else bc' = bc)"
proof (cases "bc_blocks bc = [] \<or> blk_Height b \<le> blk_Height (last (bc_blocks bc)) \<or>
    sl (blk_Hash (last (bc_blocks bc))) \<noteq> sl (blk_PrevHash b)")
  case True
  then show ?thesis using ok res by (auto simp: commit_locked_def split: if_splits)
next
  case False
  then have "blk_Height b \<noteq> 0" by auto
  obtain am shards where locks: "lockAccountsForBlock b (bc_accountManager bc) = Ret (am, shards)"
    using res False by (auto simp: commit_locked_def obind_Ret_iff)
  obtain st r where st: "applyBlockToState ed (bc_consensus bc) b (bc_state bc) = (st, r)" by fastforce
  obtain s q where s: "cs_AppendCanonical cs b (bc_store bc) = (s, q)" by fastforce
  have r: "r = Inr ()" and q: "q = Inr ()" and x: "x" and
    bc': "bc' = cache_mined b (append_block b (bc\<lparr>bc_accountManager := fold am_unlock shards am, bc_state := st, bc_store := s\<rparr>))"
    using res False locks st s by (cases r; cases q; auto simp: commit_locked_def Let_def)+
  have "chain_ok ed (append_block b (bc\<lparr>bc_accountManager := fold am_unlock shards am, bc_state := st, bc_store := s\<rparr>))"
    using False st r by (intro chain_ok_append [OF ok new h _ prev ht _ _ bits]) auto
  moreover have "bc_blocks bc' = bc_blocks bc @ [b]" "bc_consensus bc' = bc_consensus bc"
    using h by (simp_all add: bc' cache_mined_def append_block_eq)
  ultimately show ?thesis using x bc' by (simp add: cache_mined_def)
qed


lemma null_store_ops [simp]: "cs_AppendCanonical null_store b s = (s, Inr ())" "cs_PutBlock null_store b s = (s, Inr ())"
  by (simp_all add: null_store_def)

lemma demo_bc_fields [simp]:
  "bc_mu demo_bc = False" "bc_consensus demo_bc = roomy_params" "bc_blocks demo_bc = [reward_at 0 [] [9], reward_at 1 [9] [1]]"
  "cfg_StoreMode (bc_cfg demo_bc) = ''full''" "bc_onBlockMined demo_bc = False" "bc_events demo_bc = False"
  by (simp_all add: demo_bc_def demo_chain_def)

lemma reward_at_hash [simp]: "blk_Hash (reward_at h p x) = Some x"
  by (simp add: reward_at_def)

lemma demo_commit:
  "\<exists>bc'. commit_locked (\<lambda>_ _ _. True) null_store (reward_at 2 [1] [7]) (demo_bc\<lparr>bc_mu := True\<rparr>) = Ret (bc', Inr True) \<and>
     last (bc_blocks bc') = reward_at 2 [1] [7] \<and> cfg_StoreMode (bc_cfg bc') = ''full''"
proof -
  have "\<exists>am s. lockAccountsForBlock (reward_at 2 [1] [7]) (bc_accountManager demo_bc) = Ret (am, s)"
    by (simp add: lockAccountsForBlock_def collectAccountsForBlock_def reward_at_def reward_block_def demo_block_def demo_bc_def
        demo_chain_def LockAccount_def getLock_def NewAccountManager_def gput_def Let_def TxCoinbase_def TxTransfer_def)
  then show ?thesis by (auto simp: commit_locked_def Let_def reward_at_applies append_block_eq cache_mined_def word_le_nat_alt)
qed


subsection \<open>A block that fails after it was applied in part\<close>

lemma mine_check_fees:
  "mine_check ed p c h txs f = Inr g \<Longrightarrow>
     g = fold (\<lambda>tx fees. if tx_Type tx \<noteq> TxTransfer then fees else fees + tx_Fee tx) txs f \<and> (\<forall>tx \<in> set txs. tx_Type tx = TxTransfer)"
  by (induction txs arbitrary: f) (auto simp: rbind_Inr_iff Let_def split: if_splits)

lemma template_fields:
  assumes "mine_template ed now transfers bc = Ret (Inr t)"
  shows "bc_blocks bc \<noteq> []" and "blk_Height t = blk_Height (last (bc_blocks bc)) + 1"
    and "sl (blk_PrevHash t) = sl (blk_Hash (last (bc_blocks bc)))" and "blk_MinerAddress t = bc_MinerAddress bc"
    and "blk_Transactions t = mine_coinbase (bc_consensus bc) (bc_ChainID bc) (bc_MinerAddress bc) (blk_Height t) (block_fees t) # transfers"
    and "\<forall>tx \<in> set transfers. tx_Type tx = TxTransfer"
proof -
  show ne: "bc_blocks bc \<noteq> []" using assms by (auto simp: mine_template_def)
  obtain fees where fees: "mine_check ed (bc_consensus bc) (bc_ChainID bc) (blk_Height (last (bc_blocks bc)) + 1) transfers 0 = Inr fees"
    using assms ne by (auto simp: mine_template_def Let_def split: sum.splits)
  then have t: "blk_Height t = blk_Height (last (bc_blocks bc)) + 1" "sl (blk_PrevHash t) = sl (blk_Hash (last (bc_blocks bc)))"
    "blk_MinerAddress t = bc_MinerAddress bc"
    "blk_Transactions t = mine_coinbase (bc_consensus bc) (bc_ChainID bc) (bc_MinerAddress bc) (blk_Height (last (bc_blocks bc)) + 1) fees # transfers"
    using assms ne by (auto simp: mine_template_def Let_def copy_slice_def split: option.splits)
  have "block_fees t = fees" using mine_check_fees [OF fees] t by (simp add: block_fees_def)
  then show "blk_Height t = blk_Height (last (bc_blocks bc)) + 1" "sl (blk_PrevHash t) = sl (blk_Hash (last (bc_blocks bc)))"
    "blk_MinerAddress t = bc_MinerAddress bc"
    "blk_Transactions t = mine_coinbase (bc_consensus bc) (bc_ChainID bc) (bc_MinerAddress bc) (blk_Height t) (block_fees t) # transfers"
    using t by simp_all
  show "\<forall>tx \<in> set transfers. tx_Type tx = TxTransfer" using mine_check_fees [OF fees] by simp
qed

lemma zero_chain_id_refused: "tx_ChainID tx = 0 \<Longrightarrow> tx_Type tx = TxTransfer \<Longrightarrow> \<exists>e. VerifyForConsensus ed tx p h = Inl e"
  by (cases "ValidateAddress (tx_ToAddress tx)") (auto simp: VerifyForConsensus_def verify_transfer_def TxCoinbase_def TxTransfer_def)

lemma partial_block_credits:
  assumes "blk_Transactions b = cb # tx # txs" and "tx_Type cb = TxCoinbase" and "VerifyForConsensus ed cb p (blk_Height b) = Inr ()"
    and "cp_MaxBlockSize p = 0" and "ValidateAddress (blk_MinerAddress b) = Inr ()" and "tx_ToAddress cb = blk_MinerAddress b"
    and "tx_Amount cb = BlockReward (cp_MonetaryPolicy p) (blk_Height b) + MinerFeeAmount (cp_MonetaryPolicy p) (block_fees b)"
    and "tx_Type tx = TxTransfer" and "VerifyForConsensus ed tx p (blk_Height b) = Inl e"
  shows "applyBlockToState ed p b st = (credit (tx_ToAddress cb) (tx_Amount cb) st, Inl e)"
  using assms by (simp add: applyBlockToState_def apply_tx_def Let_def TxCoinbase_def TxTransfer_def)


definition bits0_params :: consensus_params where
  "bits0_params = roomy_params\<lparr>cp_GenesisDifficultyBits := 0\<rparr>"

definition easy_bc :: "unit blockchain" where
  "easy_bc = (demo_chain [(reward_at 0 [] [9])\<lparr>blk_DifficultyBits := 0\<rparr>] [] [])
     \<lparr>bc_consensus := bits0_params, bc_MinerAddress := GenerateAddress (replicate 32 1)\<rparr>"

definition bare_tx :: transaction where
  "bare_tx = self_tx\<lparr>tx_ChainID := 0\<rparr>"

definition easy_template :: block where
  "easy_template = \<lparr>blk_Version = 1, blk_Height = 1, blk_TimestampUnix = 1700000100, blk_PrevHash = Some [9], blk_Nonce = 0,
     blk_DifficultyBits = 0, blk_MinerAddress = GenerateAddress (replicate 32 1),
     blk_Transactions = [mine_coinbase bits0_params 3 (GenerateAddress (replicate 32 1)) 1 1, bare_tx],
     blk_Hash = None, blk_StateRoot = None, blk_UTXORoot = None\<rparr>"

lemma easy_bc_fields [simp]:
  "bc_mu easy_bc = False" "bc_consensus easy_bc = bits0_params" "bc_ChainID easy_bc = 3" "bc_state easy_bc = []"
  "bc_MinerAddress easy_bc = GenerateAddress (replicate 32 1)" "bc_accountManager easy_bc = NewAccountManager 256"
  "bc_blocks easy_bc = [(reward_at 0 [] [9])\<lparr>blk_DifficultyBits := 0\<rparr>]"
  by (simp_all add: easy_bc_def demo_chain_def)

lemma easy_template_made:
  "mine_template (\<lambda>_ _ _. True) 1700000100 [bare_tx] (easy_bc\<lparr>bc_mu := True\<rparr>) = Ret (Inr easy_template)"
proof -
  have "bare_tx\<lparr>tx_ChainID := 3\<rparr> = self_tx" by (simp add: bare_tx_def self_tx_def demo_tx_def)
  moreover have "VerifyForConsensus (\<lambda>_ _ _. True) self_tx bits0_params 1 = Inr ()"
  proof -
    have "txSigningHashForConsensus self_tx bits0_params 1 = txSigningHashForConsensus self_tx roomy_params 1"
      by (simp add: txSigningHashForConsensus_def BinaryEncodingActive_def bits0_params_def)
    then show ?thesis using self_tx_verifies [of 1] by (simp only: VerifyForConsensus_def)
  qed
  moreover have "tx_Type bare_tx = TxTransfer" "tx_ChainID bare_tx = 0" "tx_Fee self_tx = 1" "tx_ChainID self_tx = 3"
    by (simp_all add: bare_tx_def self_tx_def demo_tx_def)
  ultimately have "mine_check (\<lambda>_ _ _. True) bits0_params 3 1 [bare_tx] 0 = Inr 1"
    by (simp add: minFee_def)
  moreover have "nextDifficultyBitsFromPath bits0_params [(reward_at 0 [] [9])\<lparr>blk_DifficultyBits := 0\<rparr>] = Some 0"
    by (simp add: nextDifficultyBitsFromPath_def bits0_params_def roomy_params_def smoke_params_def)
  moreover have "blockVersionForHeight bits0_params 1 = 1"
    by (simp add: blockVersionForHeight_def bits0_params_def roomy_params_def smoke_params_def)
  ultimately show ?thesis by (simp add: mine_template_def easy_template_def copy_slice_def mine_time_def)
qed

lemma easy_template_run: "\<exists>hash. pow_Run bits0_params easy_template = Some (Inr (0, hash))"
proof -
  have "\<exists>header. HeaderBytesForConsensus bits0_params easy_template 0 = Inr header"
    by (simp add: HeaderBytesForConsensus_def TxRootLegacyForConsensus_def BinaryEncodingActive_def bits0_params_def roomy_params_def smoke_params_def
        easy_template_def txSigningHashForConsensus_def signingHashLegacyJSON_def mine_coinbase_def bare_tx_def self_tx_def demo_tx_def FromAddress_def)
  then obtain header where "HeaderBytesForConsensus bits0_params easy_template 0 = Inr header" by blast
  then show ?thesis using pow_meets_zero_bits [of easy_template bits0_params 0 header] by (simp add: pow_Run_Inr_iff easy_template_def)
qed


text \<open>What a miner builds, other nodes accept: with validated parameters the block made from a template
  passes the header checks of every node that has the same blocks, whatever its nonce and hash, as
  long as its time is not too far ahead of that node's clock.\<close>

theorem template_passes_path_check:
  assumes "params_ok (bc_consensus bc)" and "mine_template ed now transfers bc = Ret (Inr t)"
    and "\<forall>b \<in> set (bc_blocks bc). blk_TimestampUnix b \<le> blk_TimestampUnix (last (bc_blocks bc))"
    and "blk_TimestampUnix (last (bc_blocks bc)) < 2 ^ 63 - 1" and "- (2 ^ 63) \<le> blk_TimestampUnix (last (bc_blocks bc))"
    and "blk_TimestampUnix t \<le> i64 (now' + cp_MaxTimeDrift (bc_consensus bc))"
  shows "path_check (bc_consensus bc) now' (bc_blocks bc @ [t\<lparr>blk_Nonce := nonce, blk_Hash := h\<rparr>]) (length (bc_blocks bc)) = Ret (Inr ())"
proof -
  let ?p = "bc_consensus bc" and ?bs = "bc_blocks bc" and ?b = "t\<lparr>blk_Nonce := nonce, blk_Hash := h\<rparr>"
  let ?path = "?bs @ [?b]" and ?n = "length ?bs"
  note t = template_fields [OF assms(2)]
  have n: "0 < ?n" "?path ! ?n = ?b" "?path ! (?n - 1) = last ?bs" using t(1) by (simp_all add: nth_append last_conv_nth)
  obtain d where d: "nextDifficultyBitsFromPath ?p ?bs = Some d" "cp_MinDifficultyBits ?p \<le> d" using nextDifficultyBits_total [OF assms(1)] by blast
  then have "d \<noteq> 0" using assms(1) by (auto simp: params_ok_def u32_ge_1_iff)
  have more: "blk_DifficultyBits t = d" "blk_Version t = blockVersionForHeight ?p (blk_Height t)" "blk_TimestampUnix t = mine_time now (last ?bs)"
    using assms(2) t(1) d(1) by (auto simp: mine_template_def Let_def split: sum.splits)
  have "blk_TimestampUnix (last ?bs) < blk_TimestampUnix t"
    using assms(4,5) by (auto simp: more mine_time_def i64_id)
  moreover obtain j where "j < ?n" "medianTimePast ?p ?path (int ?n - 1) = blk_TimestampUnix (?path ! j)"
    using medianTimePast_mem [of ?n ?path ?p] n by auto
  moreover from this have "blk_TimestampUnix (?path ! j) \<le> blk_TimestampUnix (last ?bs)"
    using assms(3) by (auto simp: nth_append)
  ultimately have "validateBlockTime now' ?p ?path ?n = Inr ()"
    using n assms(6) by (subst validateBlockTime_OK_iff) auto
  moreover have "expectedDifficultyBitsForBlockIndex ?p ?path ?n = Some d"
    using n d by (simp add: expectedDifficultyBitsForBlockIndex_def)
  ultimately show ?thesis
    using n t(2,3) more \<open>d \<noteq> 0\<close> by (simp add: path_check_def Let_def block_hex_def)
qed

theorem template_passes_path_check_witness:
  "\<exists>t. mine_template (\<lambda>_ _ _. True) 1700000100 [] (demo_bc\<lparr>bc_consensus := smoke_params\<rparr>) = Ret (Inr t) \<and>
     path_check smoke_params 1700000050 [reward_at 0 [] [9], reward_at 1 [9] [1], t] 2 = Ret (Inr ())"
proof -
  let ?bc = "demo_bc\<lparr>bc_consensus := smoke_params\<rparr>"
  obtain d where "nextDifficultyBitsFromPath smoke_params (bc_blocks ?bc) = Some d"
    using nextDifficultyBits_total [OF params_ok_shipped(1)] by blast
  then obtain t where t: "mine_template (\<lambda>_ _ _. True) 1700000100 [] ?bc = Ret (Inr t)"
    and time: "blk_TimestampUnix t = 1700000100" by (simp add: mine_template_def mine_time_def)
  have "path_check (bc_consensus ?bc) 1700000050 (bc_blocks ?bc @ [t\<lparr>blk_Nonce := blk_Nonce t, blk_Hash := blk_Hash t\<rparr>]) (length (bc_blocks ?bc)) = Ret (Inr ())"
    by (rule template_passes_path_check [OF _ t]) (simp_all add: params_ok_shipped(1) time, simp add: smoke_params_def i64_id)
  then show ?thesis using t by (simp add: numeral_2_eq_2)
qed

end
