(* ===== verification/Store.thy ===== *)
theory Store
  imports Forks
begin

text \<open>
  The block store of \<^verbatim>\<open>internal/blockchain/boltstore.go\<close>.  The database (bbolt) is a parameter \<open>B\<close>: a record of its
  operations on a database value, with the documented laws \<open>bolt_laws\<close>: keys are iterated in byte order,
  \<^verbatim>\<open>Put\<close> and \<^verbatim>\<open>Delete\<close> change one key of one bucket.  A stored value stands for the bytes a codec of the standard
  library writes; decoding it gives back what was encoded, where gob does not keep the difference
  between nil and empty byte slices.  Buckets exist once the store is open.
\<close>

subsection \<open>The database\<close>

datatype stored = Raw bytes | GobBlock block | JsonState ledger | JsonCommitment StateCommitment

text \<open>\<open>bk_Drain\<close> is the sequence of keys a cursor returns in a loop that deletes each of them: the
  documentation leaves open what a cursor returns after the bucket has changed.\<close>

record 'd bolt =
  bk_Get :: "string \<Rightarrow> bytes \<Rightarrow> 'd \<Rightarrow> stored option"
  bk_Put :: "string \<Rightarrow> bytes \<Rightarrow> stored \<Rightarrow> 'd \<Rightarrow> 'd \<times> unit res"
  bk_Delete :: "string \<Rightarrow> bytes \<Rightarrow> 'd \<Rightarrow> 'd \<times> unit res"
  bk_Entries :: "string \<Rightarrow> 'd \<Rightarrow> (bytes \<times> stored) list"
  bk_Drain :: "string \<Rightarrow> 'd \<Rightarrow> bytes list"
  bk_Commit :: "'d \<Rightarrow> unit res"

text \<open>The contents of a database: a map for each bucket.\<close>

definition got :: "'d bolt \<Rightarrow> 'd \<Rightarrow> string \<Rightarrow> bytes \<Rightarrow> stored option" where
  "got B d bk k = bk_Get B bk k d"

definition put_law :: "'d bolt \<Rightarrow> bool" where
  "put_law B \<longleftrightarrow> (\<forall>bk k v d. k \<noteq> [] \<and> length k \<le> 32768 \<longrightarrow>
     (\<exists>d'. bk_Put B bk k v d = (d', Inr ()) \<and> got B d' = (got B d)(bk := (got B d bk)(k \<mapsto> v))))"

definition delete_law :: "'d bolt \<Rightarrow> bool" where
  "delete_law B \<longleftrightarrow> (\<forall>bk k d.
     \<exists>d'. bk_Delete B bk k d = (d', Inr ()) \<and> got B d' = (got B d)(bk := (got B d bk)(k := None)))"

definition order_law :: "'d bolt \<Rightarrow> bool" where
  "order_law B \<longleftrightarrow> (\<forall>bk d. sorted_wrt (<) (map fst (bk_Entries B bk d)) \<and>
     (\<forall>k v. (k, v) \<in> set (bk_Entries B bk d) \<longleftrightarrow> got B d bk k = Some v))"

definition bolt_laws :: "'d bolt \<Rightarrow> bool" where
  "bolt_laws B \<longleftrightarrow> put_law B \<and> delete_law B \<and> order_law B"

text \<open>\<^verbatim>\<open>DB.Update\<close>: a transaction that returns an error, or cannot be committed, is rolled back.\<close>

definition db_Update :: "'d bolt \<Rightarrow> ('d \<Rightarrow> 'd \<times> unit res) \<Rightarrow> 'd \<Rightarrow> 'd \<times> unit res" where
  "db_Update B act d =
     (case act d of
        (_, Inl e) \<Rightarrow> (d, Inl e)
      | (d', Inr _) \<Rightarrow> (case bk_Commit B d' of Inl e \<Rightarrow> (d, Inl e) | Inr _ \<Rightarrow> (d', Inr ())))"

text \<open>Two steps of a transaction, the second only if the first succeeds.\<close>

definition andThen :: "('d \<Rightarrow> 'd \<times> unit res) \<Rightarrow> ('d \<Rightarrow> 'd \<times> unit res) \<Rightarrow> 'd \<Rightarrow> 'd \<times> unit res" where
  "andThen f g d = (case f d of (d', Inl e) \<Rightarrow> (d', Inl e) | (d', Inr _) \<Rightarrow> g d')"

definition blocksBucket :: string where "blocksBucket = ''blocks''"
definition canonBucket :: string where "canonBucket = ''canonical''"
definition metaBucket :: string where "metaBucket = ''meta''"
definition checkpointsBucket :: string where "checkpointsBucket = ''checkpoints''"
definition commitmentsBucket :: string where "commitmentsBucket = ''commitments''"
definition metaTipHash :: bytes where "metaTipHash = bytes_of_string ''tipHash''"
definition metaTipHeight :: bytes where "metaTipHeight = bytes_of_string ''tipHeight''"
definition metaRulesHash :: bytes where "metaRulesHash = bytes_of_string ''rulesHash''"
definition metaGenesisHash :: bytes where "metaGenesisHash = bytes_of_string ''genesisHash''"

definition u64beBigEndian :: "u64 \<Rightarrow> bytes" where
  "u64beBigEndian v = be64 v"

definition beUint64 :: "bytes \<Rightarrow> u64" where
  "beUint64 k = word_of_nat (big_SetBytes k)"

subsection \<open>Decoding\<close>

definition gob_slice :: "slice \<Rightarrow> slice" where
  "gob_slice s = (if sl s = [] then None else s)"

definition gob_tx :: "transaction \<Rightarrow> transaction" where
  "gob_tx t = t\<lparr>tx_FromPubKey := gob_slice (tx_FromPubKey t), tx_Signature := gob_slice (tx_Signature t)\<rparr>"

definition gob_norm :: "block \<Rightarrow> block" where
  "gob_norm b = b\<lparr>blk_PrevHash := gob_slice (blk_PrevHash b), blk_Hash := gob_slice (blk_Hash b),
     blk_StateRoot := gob_slice (blk_StateRoot b), blk_UTXORoot := gob_slice (blk_UTXORoot b),
     blk_Transactions := map gob_tx (blk_Transactions b)\<rparr>"

fun decode_block :: "stored \<Rightarrow> block res" where
  "decode_block (GobBlock b) = Inr (gob_norm b)"
| "decode_block _ = Inl ''gob: unexpected data''"

fun raw_of :: "stored \<Rightarrow> bytes" where
  "raw_of (Raw h) = h"
| "raw_of _ = []"

subsection \<open>Blocks and the canonical chain\<close>

definition put_if_absent :: "'d bolt \<Rightarrow> bytes \<Rightarrow> stored \<Rightarrow> 'd \<Rightarrow> 'd \<times> unit res" where
  "put_if_absent B key val d =
     (if bk_Get B blocksBucket key d \<noteq> None then (d, Inr ()) else bk_Put B blocksBucket key val d)"

definition store_PutBlock :: "'d bolt \<Rightarrow> block \<Rightarrow> 'd \<Rightarrow> 'd \<times> unit res" where
  "store_PutBlock B b d =
     (if sl (blk_Hash b) = [] then (d, Inl ''missing block hash'')
      else db_Update B (put_if_absent B (sl (blk_Hash b)) (GobBlock b)) d)"

fun read_all :: "(bytes \<times> stored) list \<Rightarrow> (string, block) gomap \<Rightarrow> (string, block) gomap res" where
  "read_all [] out = Inr out"
| "read_all ((k, v) # es) out = rbind (decode_block v) (\<lambda>b. read_all es (gput (hex_encode k) b out))"

definition store_ReadAllBlocks :: "'d bolt \<Rightarrow> 'd \<Rightarrow> (string, block) gomap res" where
  "store_ReadAllBlocks B d = read_all (bk_Entries B blocksBucket d) []"

fun read_canonical :: "'d bolt \<Rightarrow> 'd \<Rightarrow> (bytes \<times> stored) list \<Rightarrow> block list res" where
  "read_canonical B d [] = Inr []"
| "read_canonical B d ((k, v) # es) =
     (case bk_Get B blocksBucket (raw_of v) d of
        None \<Rightarrow> Inl ''canonical block missing''
      | Some raw \<Rightarrow> rbind (decode_block raw) (\<lambda>b. rbind (read_canonical B d es) (\<lambda>bs. Inr (b # bs))))"

definition store_ReadCanonical :: "'d bolt \<Rightarrow> 'd \<Rightarrow> block list res" where
  "store_ReadCanonical B d = read_canonical B d (bk_Entries B canonBucket d)"

definition check_previous :: "'d bolt \<Rightarrow> block \<Rightarrow> 'd \<Rightarrow> 'd \<times> unit res" where
  "check_previous B b d =
     (if 0 < blk_Height b then
        (case bk_Get B canonBucket (u64beBigEndian (blk_Height b - 1)) d of
           None \<Rightarrow> (d, Inl ''missing previous canonical height'')
         | Some prevHash \<Rightarrow>
             if raw_of prevHash \<noteq> sl (blk_PrevHash b) then (d, Inl ''prevhash mismatch for append'') else (d, Inr ()))
      else (d, Inr ()))"

definition put_tip :: "'d bolt \<Rightarrow> bytes \<Rightarrow> bytes \<Rightarrow> 'd \<Rightarrow> 'd \<times> unit res" where
  "put_tip B hashKey heightKey = andThen (bk_Put B metaBucket metaTipHash (Raw hashKey)) (bk_Put B metaBucket metaTipHeight (Raw heightKey))"

definition store_AppendCanonical :: "'d bolt \<Rightarrow> block \<Rightarrow> 'd \<Rightarrow> 'd \<times> unit res" where
  "store_AppendCanonical B b d =
     (if sl (blk_Hash b) = [] then (d, Inl ''missing block hash'')
      else
        let heightKey = u64beBigEndian (blk_Height b); hashKey = sl (blk_Hash b) in
        db_Update B
          (andThen (put_if_absent B hashKey (GobBlock b))
          (andThen (check_previous B b)
          (andThen (bk_Put B canonBucket heightKey (Raw hashKey)) (put_tip B hashKey heightKey)))) d)"

fun delete_keys :: "'d bolt \<Rightarrow> string \<Rightarrow> bytes list \<Rightarrow> 'd \<Rightarrow> 'd \<times> unit res" where
  "delete_keys B bk [] d = (d, Inr ())"
| "delete_keys B bk (k # ks) d = andThen (bk_Delete B bk k) (delete_keys B bk ks) d"

definition write_block :: "'d bolt \<Rightarrow> block \<Rightarrow> 'd \<Rightarrow> 'd \<times> unit res" where
  "write_block B b d =
     (if sl (blk_Hash b) = [] then (d, Inl ''missing block hash'')
      else andThen (put_if_absent B (sl (blk_Hash b)) (GobBlock b))
             (bk_Put B canonBucket (u64beBigEndian (blk_Height b)) (Raw (sl (blk_Hash b)))) d)"

definition rewrite_tip :: "'d bolt \<Rightarrow> block list \<Rightarrow> 'd \<Rightarrow> 'd \<times> unit res" where
  "rewrite_tip B blocks d =
     (if blocks = [] then (fst (bk_Delete B metaBucket metaTipHeight (fst (bk_Delete B metaBucket metaTipHash d))), Inr ())
      else put_tip B (sl (blk_Hash (last blocks))) (u64beBigEndian (blk_Height (last blocks))) d)"

definition store_RewriteCanonical :: "'d bolt \<Rightarrow> block list \<Rightarrow> 'd \<Rightarrow> 'd \<times> unit res" where
  "store_RewriteCanonical B blocks d =
     db_Update B (andThen (delete_keys B canonBucket (bk_Drain B canonBucket d))
       (andThen (run_all (write_block B) blocks) (rewrite_tip B blocks))) d"

subsection \<open>Meta data, pruning, checkpoints, commitments\<close>

definition get_meta :: "'d bolt \<Rightarrow> bytes \<Rightarrow> 'd \<Rightarrow> bytes option res" where
  "get_meta B key d =
     (case bk_Get B metaBucket key d of None \<Rightarrow> Inr None | Some v \<Rightarrow> Inr (if raw_of v = [] then None else Some (raw_of v)))"

definition store_GetRulesHash :: "'d bolt \<Rightarrow> 'd \<Rightarrow> bytes option res" where
  "store_GetRulesHash B d = get_meta B metaRulesHash d"

definition store_PutRulesHash :: "'d bolt \<Rightarrow> bytes \<Rightarrow> 'd \<Rightarrow> 'd \<times> unit res" where
  "store_PutRulesHash B h d =
     (if length h \<noteq> 32 then (d, Inl ''rules hash must be 32 bytes'') else db_Update B (bk_Put B metaBucket metaRulesHash (Raw h)) d)"

definition store_GetGenesisHash :: "'d bolt \<Rightarrow> 'd \<Rightarrow> bytes option res" where
  "store_GetGenesisHash B d = get_meta B metaGenesisHash d"

definition store_PutGenesisHash :: "'d bolt \<Rightarrow> bytes \<Rightarrow> 'd \<Rightarrow> 'd \<times> unit res" where
  "store_PutGenesisHash B h d =
     (if length h \<noteq> 32 then (d, Inl ''genesis hash must be 32 bytes'') else db_Update B (bk_Put B metaBucket metaGenesisHash (Raw h)) d)"

text \<open>The canonical entries below a height, in key order up to the first one above it.\<close>

definition entries_below :: "int \<Rightarrow> (bytes \<times> stored) list \<Rightarrow> (bytes \<times> stored) list" where
  "entries_below height es =
     filter (\<lambda>e. int64_of (beUint64 (fst e)) \<noteq> height)
       (takeWhile (\<lambda>e. int64_of (beUint64 (fst e)) \<le> height) (filter (\<lambda>e. length (fst e) = 8) es))"

definition prune_entry :: "'d bolt \<Rightarrow> bytes \<times> stored \<Rightarrow> 'd \<Rightarrow> 'd \<times> unit res" where
  "prune_entry B e = andThen (bk_Delete B canonBucket (fst e)) (\<lambda>d. (fst (bk_Delete B blocksBucket (raw_of (snd e)) d), Inr ()))"

definition store_PruneBelow :: "'d bolt \<Rightarrow> int \<Rightarrow> 'd \<Rightarrow> 'd \<times> unit res" where
  "store_PruneBelow B height d = db_Update B (run_all (prune_entry B) (entries_below height (bk_Entries B canonBucket d))) d"

definition store_WriteCheckpoint :: "'d bolt \<Rightarrow> int \<Rightarrow> ledger \<Rightarrow> 'd \<Rightarrow> 'd \<times> unit res" where
  "store_WriteCheckpoint B height st d =
     db_Update B (bk_Put B checkpointsBucket (u64beBigEndian (word_of_int height)) (JsonState st)) d"

definition store_ReadCheckpoint :: "'d bolt \<Rightarrow> int \<Rightarrow> 'd \<Rightarrow> ledger res" where
  "store_ReadCheckpoint B height d =
     (case bk_Get B checkpointsBucket (u64beBigEndian (word_of_int height)) d of
        None \<Rightarrow> Inl ''checkpoint not found''
      | Some (JsonState st) \<Rightarrow> Inr st
      | Some _ \<Rightarrow> Inl ''json: cannot unmarshal'')"

text \<open>Insertion sort, as two nested loops over an array.\<close>

fun sink :: "nat \<Rightarrow> int list \<Rightarrow> int list" where
  "sink 0 a = a"
| "sink (Suc j) a = (if a ! Suc j < a ! j then sink j (a[Suc j := a ! j, j := a ! Suc j]) else a)"

definition sortInts :: "int list \<Rightarrow> int list" where
  "sortInts a = fold sink [1..<length a] a"

definition store_GetCheckpointHeights :: "'d bolt \<Rightarrow> 'd \<Rightarrow> int list res" where
  "store_GetCheckpointHeights B d =
     Inr (sortInts (map (\<lambda>e. int64_of (beUint64 (fst e))) (filter (\<lambda>e. length (fst e) = 8) (bk_Entries B checkpointsBucket d))))"

definition store_WriteCommitment :: "'d bolt \<Rightarrow> StateCommitment \<Rightarrow> 'd \<Rightarrow> 'd \<times> unit res" where
  "store_WriteCommitment B c d =
     db_Update B (bk_Put B commitmentsBucket (u64beBigEndian (word_of_int (cm_BlockHeight c))) (JsonCommitment c)) d"

definition store_ReadCommitment :: "'d bolt \<Rightarrow> int \<Rightarrow> 'd \<Rightarrow> StateCommitment res" where
  "store_ReadCommitment B height d =
     (case bk_Get B commitmentsBucket (u64beBigEndian (word_of_int height)) d of
        None \<Rightarrow> Inl ''commitment not found''
      | Some (JsonCommitment c) \<Rightarrow> Inr c
      | Some _ \<Rightarrow> Inl ''json: cannot unmarshal'')"

definition BoltChainStore :: "'d bolt \<Rightarrow> 'd chain_store" where
  "BoltChainStore B = \<lparr>
     cs_ReadCanonical = store_ReadCanonical B, cs_AppendCanonical = store_AppendCanonical B,
     cs_RewriteCanonical = store_RewriteCanonical B, cs_PutBlock = store_PutBlock B, cs_ReadAllBlocks = store_ReadAllBlocks B,
     cs_GetRulesHash = store_GetRulesHash B, cs_PutRulesHash = store_PutRulesHash B,
     cs_GetGenesisHash = store_GetGenesisHash B, cs_PutGenesisHash = store_PutGenesisHash B, cs_PruneBelow = store_PruneBelow B,
     cs_WriteCheckpoint = store_WriteCheckpoint B, cs_ReadCheckpoint = store_ReadCheckpoint B,
     cs_GetCheckpointHeights = store_GetCheckpointHeights B,
     cs_WriteCommitment = store_WriteCommitment B, cs_ReadCommitment = store_ReadCommitment B\<rparr>"

subsection \<open>Keys\<close>

lemma big_SetBytes_Cons: "big_SetBytes (x # xs) = unat x * 256 ^ length xs + big_SetBytes xs"
proof -
  have "foldl (\<lambda>a b. 256 * a + unat b) c xs = c * 256 ^ length xs + foldl (\<lambda>a b. 256 * a + unat b) 0 xs" for c
  proof (induction xs arbitrary: c)
    case (Cons y ys)
    from Cons.IH [of "256 * c + unat y"] Cons.IH [of "unat y"] show ?case by (simp add: algebra_simps)
  qed simp
  from this [of "unat x"] show ?thesis by (simp add: big_SetBytes_def)
qed

lemma bytes_less_iff:
  "length xs = length ys \<Longrightarrow> xs < ys \<longleftrightarrow> big_SetBytes xs < big_SetBytes (ys :: bytes)"
proof (induction xs ys rule: list_induct2)
  case (Cons x xs y ys)
  have "big_SetBytes xs < 256 ^ length xs" "big_SetBytes ys < 256 ^ length xs"
    using big_SetBytes_bound [of xs] big_SetBytes_bound [of ys] Cons.hyps by simp_all
  moreover have "unat x * m + a < unat y * m + b \<longleftrightarrow> unat x < unat y \<or> unat x = unat y \<and> a < b"
    if "a < m" "b < m" for a b m :: nat
  proof (cases "unat x < unat y")
    case True
    then have "(unat x + 1) * m \<le> unat y * m" by (intro mult_le_mono1) simp
    then have "unat x * m + m \<le> unat y * m" by (simp add: algebra_simps)
    then show ?thesis using True that by linarith
  next
    case False
    show ?thesis
    proof (cases "unat x = unat y")
      case neq: False
      with False have "(unat y + 1) * m \<le> unat x * m" by (intro mult_le_mono1) simp
      then have "unat y * m + m \<le> unat x * m" by (simp add: algebra_simps)
      then show ?thesis using False neq that by linarith
    qed simp
  qed
  ultimately show ?case using Cons by (simp add: big_SetBytes_Cons word_less_nat_alt word_unat_eq_iff)
qed (simp add: big_SetBytes_def)

lemma big_SetBytes_append1: "big_SetBytes (xs @ [y]) = 256 * big_SetBytes xs + unat y"
  by (simp add: big_SetBytes_def)

lemma big_SetBytes_be: "x < 256 ^ n \<Longrightarrow> big_SetBytes (be_bytes n x) = x"
proof (induction n arbitrary: x)
  case (Suc n)
  have "x div 256 < 256 ^ n" using Suc.prems by (simp add: less_mult_imp_div_less)
  then have "big_SetBytes (be_bytes n (x div 256)) = x div 256" by (rule Suc.IH)
  moreover have "be_bytes (Suc n) x = be_bytes n (x div 256) @ [word_of_nat (x mod 256)]" by (simp add: be_bytes_def)
  moreover have "unat (word_of_nat (x mod 256) :: u8) = x mod 256" by (simp add: unsigned_of_nat take_bit_nat_eq_self)
  ultimately show ?case by (simp add: big_SetBytes_append1)
qed (simp add: be_bytes_def big_SetBytes_def)

lemma u64be_value: "big_SetBytes (u64beBigEndian v) = unat v"
  unfolding u64beBigEndian_def be64_def by (rule big_SetBytes_be) (rule unat_u64_less)

lemma u64be_simps [simp]:
  "length (u64beBigEndian v) = 8" "u64beBigEndian v \<noteq> []" "beUint64 (u64beBigEndian v) = v"
  "u64beBigEndian v = u64beBigEndian w \<longleftrightarrow> v = w" "u64beBigEndian v < u64beBigEndian w \<longleftrightarrow> v < w"
proof -
  show len: "length (u64beBigEndian v) = 8" for v by (simp add: u64beBigEndian_def be64_def)
  show "u64beBigEndian v \<noteq> []"
  proof
    assume "u64beBigEndian v = []"
    then show False using len [of v] by simp
  qed
  show rev8: "beUint64 (u64beBigEndian v) = v" for v by (simp add: beUint64_def u64be_value)
  show "u64beBigEndian v = u64beBigEndian w \<longleftrightarrow> v = w"
  proof
    assume "u64beBigEndian v = u64beBigEndian w"
    then have "beUint64 (u64beBigEndian v) = beUint64 (u64beBigEndian w)" by (rule arg_cong)
    then show "v = w" unfolding rev8 .
  qed simp
  show "u64beBigEndian v < u64beBigEndian w \<longleftrightarrow> v < w"
    by (simp add: bytes_less_iff len u64be_value word_less_nat_alt)
qed

subsection \<open>The database laws at work\<close>

lemma put_ok:
  assumes "bolt_laws B" and "k \<noteq> []" and "length k \<le> 32768"
  obtains d' where "bk_Put B bk k v d = (d', Inr ())" and "got B d' = (got B d)(bk := (got B d bk)(k \<mapsto> v))"
  using assms unfolding bolt_laws_def put_law_def by meson

lemma delete_ok:
  assumes "bolt_laws B"
  obtains d' where "bk_Delete B bk k d = (d', Inr ())" and "got B d' = (got B d)(bk := (got B d bk)(k := None))"
  using assms unfolding bolt_laws_def delete_law_def by meson

lemma alist_eqI:
  assumes "map fst xs = map fst ys" and "distinct (map fst ys)" and "set xs = set ys"
  shows "xs = ys"
proof (rule nth_equalityI)
  show len: "length xs = length ys" using arg_cong [OF assms(1), of length] by simp
  fix i assume i: "i < length xs"
  obtain k v k' v' where p: "xs ! i = (k, v)" "ys ! i = (k', v')" by (cases "xs ! i"; cases "ys ! i") blast
  have "k = k'" using arg_cong [OF assms(1), of "\<lambda>l. l ! i"] i len p by simp
  moreover have "(k, v) \<in> set ys" using nth_mem [OF i] p(1) assms(3) by simp
  moreover have "(k', v') \<in> set ys" using nth_mem [of i ys] i len p(2) by simp
  ultimately show "xs ! i = ys ! i" using eq_key_imp_eq_value [OF assms(2), of k v v'] p by simp
qed

lemma entries_eq:
  assumes laws: "bolt_laws B" and keys: "sorted_wrt (<) (map fst es)" and vals: "\<And>k v. (k, v) \<in> set es \<longleftrightarrow> got B d bk k = Some v"
  shows "bk_Entries B bk d = es"
proof -
  have s: "sorted_wrt (<) (map fst (bk_Entries B bk d))" and e: "\<And>k v. (k, v) \<in> set (bk_Entries B bk d) \<longleftrightarrow> got B d bk k = Some v"
    using laws unfolding bolt_laws_def order_law_def by meson+
  have set_eq: "set (bk_Entries B bk d) = set es" by (intro equalityI subrelI) (simp_all only: e vals)
  then have "set (map fst (bk_Entries B bk d)) = set (map fst es)" by simp
  moreover have "sorted (map fst (bk_Entries B bk d))" "distinct (map fst (bk_Entries B bk d))" "sorted (map fst es)" "distinct (map fst es)"
    using s keys by (simp_all only: strict_sorted_iff)
  ultimately have "map fst (bk_Entries B bk d) = map fst es" by (intro sorted_distinct_set_unique)
  moreover have "distinct (map fst es)" using keys by (simp only: strict_sorted_iff)
  ultimately show ?thesis using set_eq by (rule alist_eqI)
qed

subsection \<open>Writing the canonical chain\<close>

lemma bucket_neq [simp]:
  "blocksBucket \<noteq> canonBucket" "canonBucket \<noteq> blocksBucket" "blocksBucket \<noteq> metaBucket" "metaBucket \<noteq> blocksBucket"
  "canonBucket \<noteq> metaBucket" "metaBucket \<noteq> canonBucket"
  "checkpointsBucket \<noteq> blocksBucket" "checkpointsBucket \<noteq> canonBucket" "checkpointsBucket \<noteq> metaBucket"
  by (simp_all add: blocksBucket_def canonBucket_def metaBucket_def checkpointsBucket_def)

lemma bk_Get_got: "bk_Get B bk k d = got B d bk k"
  by (simp add: got_def)

text \<open>Hashes that can be keys, and stored blocks that agree with the blocks to be written.\<close>

definition writable :: "block \<Rightarrow> bool" where
  "writable b \<longleftrightarrow> sl (blk_Hash b) \<noteq> [] \<and> length (sl (blk_Hash b)) \<le> 32768"

definition no_conflict :: "(bytes \<Rightarrow> stored option) \<Rightarrow> block list \<Rightarrow> bool" where
  "no_conflict m bs \<longleftrightarrow> (\<forall>b \<in> set bs. (m (sl (blk_Hash b)) = None \<or> m (sl (blk_Hash b)) = Some (GobBlock b)) \<and>
     (\<forall>b' \<in> set bs. sl (blk_Hash b') = sl (blk_Hash b) \<longrightarrow> b' = b))"

lemma put_if_absent_ok:
  assumes laws: "bolt_laws B" and b: "writable b" and m: "got B d blocksBucket (sl (blk_Hash b)) \<in> {None, Some (GobBlock b)}"
  obtains d' where "put_if_absent B (sl (blk_Hash b)) (GobBlock b) d = (d', Inr ())"
    and "got B d' = (got B d)(blocksBucket := (got B d blocksBucket)(sl (blk_Hash b) \<mapsto> GobBlock b))"
proof (cases "got B d blocksBucket (sl (blk_Hash b))")
  case None
  obtain d' where "bk_Put B blocksBucket (sl (blk_Hash b)) (GobBlock b) d = (d', Inr ())"
    "got B d' = (got B d)(blocksBucket := (got B d blocksBucket)(sl (blk_Hash b) \<mapsto> GobBlock b))"
    using put_ok [OF laws, of "sl (blk_Hash b)" blocksBucket "GobBlock b" d] b unfolding writable_def by blast
  with None show thesis by (intro that) (simp_all add: put_if_absent_def bk_Get_got)
next
  case (Some v)
  then have "(got B d)(blocksBucket := (got B d blocksBucket)(sl (blk_Hash b) \<mapsto> GobBlock b)) = got B d"
    using m by (auto simp: fun_eq_iff)
  with Some show thesis by (intro that [of d]) (simp_all add: put_if_absent_def bk_Get_got)
qed

lemma write_block_ok:
  assumes laws: "bolt_laws B" and b: "writable b" and m: "got B d blocksBucket (sl (blk_Hash b)) \<in> {None, Some (GobBlock b)}"
  obtains d' where "write_block B b d = (d', Inr ())"
    and "got B d' blocksBucket = (got B d blocksBucket)(sl (blk_Hash b) \<mapsto> GobBlock b)"
    and "got B d' canonBucket = (got B d canonBucket)(u64beBigEndian (blk_Height b) \<mapsto> Raw (sl (blk_Hash b)))"
proof -
  obtain d1 where d1: "put_if_absent B (sl (blk_Hash b)) (GobBlock b) d = (d1, Inr ())"
    "got B d1 = (got B d)(blocksBucket := (got B d blocksBucket)(sl (blk_Hash b) \<mapsto> GobBlock b))"
    using put_if_absent_ok [OF laws b m] by blast
  obtain d2 where d2: "bk_Put B canonBucket (u64beBigEndian (blk_Height b)) (Raw (sl (blk_Hash b))) d1 = (d2, Inr ())"
    "got B d2 = (got B d1)(canonBucket := (got B d1 canonBucket)(u64beBigEndian (blk_Height b) \<mapsto> Raw (sl (blk_Hash b))))"
    using put_ok [OF laws, of "u64beBigEndian (blk_Height b)" canonBucket "Raw (sl (blk_Hash b))" d1] by auto
  show thesis
    using b d1 d2 by (intro that [of d2]) (simp_all add: write_block_def andThen_def writable_def)
qed

definition canon_entry :: "block \<Rightarrow> bytes \<times> stored" where
  "canon_entry b = (u64beBigEndian (blk_Height b), Raw (sl (blk_Hash b)))"

lemma write_all_ok:
  assumes laws: "bolt_laws B"
  shows "\<forall>b \<in> set bs. writable b \<Longrightarrow> no_conflict (got B d blocksBucket) bs \<Longrightarrow> distinct (map blk_Height bs) \<Longrightarrow>
    \<exists>d'. run_all (write_block B) bs d = (d', Inr ()) \<and>
      (\<forall>b \<in> set bs. got B d' blocksBucket (sl (blk_Hash b)) = Some (GobBlock b)) \<and>
      (\<forall>k v. got B d blocksBucket k = Some v \<longrightarrow> got B d' blocksBucket k = Some v) \<and>
      got B d' canonBucket = got B d canonBucket ++ map_of (map canon_entry bs)"
proof (induction bs arbitrary: d)
  case (Cons b bs)
  obtain d1 where d1: "write_block B b d = (d1, Inr ())"
    and bl: "got B d1 blocksBucket = (got B d blocksBucket)(sl (blk_Hash b) \<mapsto> GobBlock b)"
    and ca: "got B d1 canonBucket = (got B d canonBucket)(u64beBigEndian (blk_Height b) \<mapsto> Raw (sl (blk_Hash b)))"
    using write_block_ok [OF laws, of b d] Cons.prems unfolding no_conflict_def by (metis insertCI list.set_intros(1))
  have "no_conflict (got B d1 blocksBucket) bs" using Cons.prems(2) by (auto simp: no_conflict_def bl)
  then obtain d' where d': "run_all (write_block B) bs d1 = (d', Inr ())"
    and all: "\<forall>b \<in> set bs. got B d' blocksBucket (sl (blk_Hash b)) = Some (GobBlock b)"
    and keep: "\<forall>k v. got B d1 blocksBucket k = Some v \<longrightarrow> got B d' blocksBucket k = Some v"
    and canon: "got B d' canonBucket = got B d1 canonBucket ++ map_of (map canon_entry bs)"
    using Cons.IH [of d1] Cons.prems by auto
  have "map_of (map canon_entry bs) (u64beBigEndian (blk_Height b)) = None"
    using Cons.prems(3) by (auto simp: map_of_eq_None_iff canon_entry_def image_iff)
  then have C: "got B d' canonBucket = got B d canonBucket ++ map_of (map canon_entry (b # bs))"
    by (auto simp: canon ca fun_eq_iff map_add_def canon_entry_def split: option.splits)
  have "got B d' blocksBucket k = Some v" if "got B d blocksBucket k = Some v" for k v
  proof -
    have "got B d1 blocksBucket k = Some v"
      using that Cons.prems(2) by (cases "k = sl (blk_Hash b)") (auto simp: bl no_conflict_def)
    then show ?thesis using keep by blast
  qed
  moreover have "got B d' blocksBucket (sl (blk_Hash b)) = Some (GobBlock b)" using keep bl by simp
  moreover have "run_all (write_block B) (b # bs) d = (d', Inr ())" using d1 d' by simp
  ultimately show ?case using all by (intro exI [of _ d'] conjI C) simp_all
qed simp

lemma delete_keys_ok:
  assumes laws: "bolt_laws B"
  shows "\<exists>d'. delete_keys B bk ks d = (d', Inr ()) \<and> got B d' = (got B d)(bk := (\<lambda>k. if k \<in> set ks then None else got B d bk k))"
proof (induction ks arbitrary: d)
  case (Cons k ks)
  obtain d1 where d1: "bk_Delete B bk k d = (d1, Inr ())" "got B d1 = (got B d)(bk := (got B d bk)(k := None))"
    using delete_ok [OF laws] by blast
  obtain d2 where "delete_keys B bk ks d1 = (d2, Inr ())" "got B d2 = (got B d1)(bk := (\<lambda>k. if k \<in> set ks then None else got B d1 bk k))"
    using Cons.IH by blast
  with d1 show ?case by (intro exI [of _ d2]) (auto simp: andThen_def fun_eq_iff)
qed (simp add: fun_eq_iff)

text \<open>Everything a database holds besides blocks, canonical entries and the tip.\<close>

definition same_rest :: "'d bolt \<Rightarrow> 'd \<Rightarrow> 'd \<Rightarrow> bool" where
  "same_rest B d d' \<longleftrightarrow> (\<forall>k. k \<noteq> metaTipHash \<and> k \<noteq> metaTipHeight \<longrightarrow> got B d' metaBucket k = got B d metaBucket k) \<and>
     (\<forall>bk. bk \<noteq> blocksBucket \<and> bk \<noteq> canonBucket \<and> bk \<noteq> metaBucket \<longrightarrow> got B d' bk = got B d bk)"

lemma same_rest_trans: "same_rest B d1 d2 \<Longrightarrow> same_rest B d2 d3 \<Longrightarrow> same_rest B d1 d3"
  by (simp add: same_rest_def)

lemma put_tip_ok:
  assumes laws: "bolt_laws B"
  obtains d' where "put_tip B h k d = (d', Inr ())" and "\<And>bk. bk \<noteq> metaBucket \<Longrightarrow> got B d' bk = got B d bk" and "same_rest B d d'"
proof -
  have key: "metaTipHash \<noteq> []" "length metaTipHash \<le> 32768" "metaTipHeight \<noteq> []" "length metaTipHeight \<le> 32768"
    by (simp_all add: metaTipHash_def metaTipHeight_def bytes_of_string_def)
  obtain d1 where d1: "bk_Put B metaBucket metaTipHash (Raw h) d = (d1, Inr ())" "got B d1 = (got B d)(metaBucket := (got B d metaBucket)(metaTipHash \<mapsto> Raw h))"
    using put_ok [OF laws key(1,2)] by blast
  obtain d2 where d2: "bk_Put B metaBucket metaTipHeight (Raw k) d1 = (d2, Inr ())" "got B d2 = (got B d1)(metaBucket := (got B d1 metaBucket)(metaTipHeight \<mapsto> Raw k))"
    using put_ok [OF laws key(3,4)] by blast
  show thesis using d1 d2 by (intro that [of d2]) (simp_all add: put_tip_def andThen_def same_rest_def)
qed

lemma read_canonical_entries:
  "\<forall>b \<in> set bs. got B d blocksBucket (sl (blk_Hash b)) = Some (GobBlock b) \<Longrightarrow>
     read_canonical B d (map canon_entry bs) = Inr (map gob_norm bs)"
  by (induction bs) (simp_all add: canon_entry_def bk_Get_got)

lemma linked_heights:
  assumes "path_linked bs" and "length bs \<le> 2 ^ 64"
  shows "map blk_Height bs = map word_of_nat [0..<length bs]" and "sorted_wrt (<) (map fst (map canon_entry bs))"
proof -
  have h: "blk_Height (bs ! i) = word_of_nat i" if "i < length bs" for i
    using assms(1) that by (induction i) (auto simp: path_linked_def hd_conv_nth)
  then show "map blk_Height bs = map word_of_nat [0..<length bs]" by (intro nth_equalityI) simp_all
  have "(word_of_nat i :: u64) < word_of_nat j" if "i < j" "j < length bs" for i j
    using that assms(2) by (simp add: word_less_nat_alt unsigned_of_nat take_bit_nat_eq_self)
  then show "sorted_wrt (<) (map fst (map canon_entry bs))"
    using h by (simp add: sorted_wrt_iff_nth_less canon_entry_def)
qed

text \<open>The store holds a chain: one canonical entry and one body for each block, and no other canonical entry.\<close>

definition holds :: "'d bolt \<Rightarrow> 'd \<Rightarrow> block list \<Rightarrow> bool" where
  "holds B d bs \<longleftrightarrow> sorted_wrt (<) (map blk_Height bs) \<and> got B d canonBucket = map_of (map canon_entry bs) \<and>
     (\<forall>b \<in> set bs. got B d blocksBucket (sl (blk_Hash b)) = Some (GobBlock b))"

lemma sorted_entries: "sorted_wrt (<) (map blk_Height bs) \<Longrightarrow> sorted_wrt (<) (map fst (map canon_entry bs))"
  by (simp add: sorted_wrt_map canon_entry_def)

lemma holds_entries:
  assumes "bolt_laws B" and h: "holds B d bs"
  shows "bk_Entries B canonBucket d = map canon_entry bs"
proof (rule entries_eq [OF assms(1)])
  have s: "sorted_wrt (<) (map fst (map canon_entry bs))" using h by (intro sorted_entries) (simp add: holds_def)
  then show "sorted_wrt (<) (map fst (map canon_entry bs))" .
  have "distinct (map fst (map canon_entry bs))" using s by (simp only: strict_sorted_iff)
  then show "(k, v) \<in> set (map canon_entry bs) \<longleftrightarrow> got B d canonBucket k = Some v" for k v
    using h by (simp add: holds_def)
qed

lemma holds_read:
  assumes "bolt_laws B" and "holds B d bs"
  shows "store_ReadCanonical B d = Inr (map gob_norm bs)"
  using read_canonical_entries [of bs B d] assms(2) by (simp add: store_ReadCanonical_def holds_entries [OF assms]) (simp add: holds_def)

lemma rewrite_holds:
  assumes laws: "bolt_laws B" and s: "sorted_wrt (<) (map blk_Height bs)" and w: "\<forall>b \<in> set bs. writable b" and ne: "bs \<noteq> []"
    and nc: "no_conflict (got B d blocksBucket) bs" and old: "\<forall>k. got B d canonBucket k \<noteq> None \<longrightarrow> k \<in> fst ` canon_entry ` set bs"
    and commit: "\<forall>d. bk_Commit B d = Inr ()"
  shows "\<exists>d'. store_RewriteCanonical B bs d = (d', Inr ()) \<and> holds B d' bs"
proof -
  obtain d1 where d1: "delete_keys B canonBucket (bk_Drain B canonBucket d) d = (d1, Inr ())"
    "got B d1 = (got B d)(canonBucket := (\<lambda>k. if k \<in> set (bk_Drain B canonBucket d) then None else got B d canonBucket k))"
    using delete_keys_ok [OF laws] by blast
  have nc1: "no_conflict (got B d1 blocksBucket) bs" using nc by (simp add: d1)
  have dis: "distinct (map blk_Height bs)" using s by (simp only: strict_sorted_iff)
  obtain d2 where d2: "run_all (write_block B) bs d1 = (d2, Inr ())"
    and bl: "\<forall>b \<in> set bs. got B d2 blocksBucket (sl (blk_Hash b)) = Some (GobBlock b)"
    and ca: "got B d2 canonBucket = got B d1 canonBucket ++ map_of (map canon_entry bs)"
    using write_all_ok [OF laws w nc1 dis] by blast
  obtain d3 where d3: "put_tip B (sl (blk_Hash (last bs))) (u64beBigEndian (blk_Height (last bs))) d2 = (d3, Inr ())"
    "\<And>bk. bk \<noteq> metaBucket \<Longrightarrow> got B d3 bk = got B d2 bk"
    using put_tip_ok [OF laws] by blast
  have "got B d1 canonBucket ++ map_of (map canon_entry bs) = map_of (map canon_entry bs)"
  proof
    fix k
    show "(got B d1 canonBucket ++ map_of (map canon_entry bs)) k = map_of (map canon_entry bs) k"
    proof (cases "k \<in> fst ` canon_entry ` set bs")
      case True
      then have "map_of (map canon_entry bs) k \<noteq> None" by (simp add: map_of_eq_None_iff del: not_None_eq)
      then show ?thesis by (auto simp: map_add_def)
    next
      case False
      then have "got B d1 canonBucket k = None" using old by (auto simp: d1)
      then show ?thesis by (simp add: map_add_def split: option.splits)
    qed
  qed
  then have "holds B d3 bs" using s bl ca d3(2) by (simp add: holds_def)
  moreover have "store_RewriteCanonical B bs d = (d3, Inr ())"
    using d1(1) d2 d3(1) ne commit by (simp add: store_RewriteCanonical_def db_Update_def andThen_def rewrite_tip_def)
  ultimately show ?thesis by blast
qed

lemma word_less_Suc: "(w :: u64) + 1 \<noteq> 0 \<Longrightarrow> w < w + 1"
  using unatSuc [of w] by (simp add: word_less_nat_alt add.commute)

lemma sorted_le_last: "sorted_wrt (<) (map blk_Height bs) \<Longrightarrow> x \<in> set bs \<Longrightarrow> blk_Height x \<le> blk_Height (last bs)"
  by (induction bs) (auto intro: less_imp_le)

lemma sorted_snoc:
  assumes s: "sorted_wrt (<) (map blk_Height bs)" and "bs \<noteq> []" and b: "blk_Height b = blk_Height (last bs) + 1" "blk_Height b \<noteq> 0"
  shows "sorted_wrt (<) (map blk_Height (bs @ [b]))"
proof -
  have "blk_Height (last bs) < blk_Height b" using word_less_Suc b by simp
  then have "\<forall>x \<in> set bs. blk_Height x < blk_Height b" using sorted_le_last [OF s] by (meson le_less_trans)
  then show ?thesis using s by (simp add: sorted_wrt_append)
qed

lemma append_holds:
  assumes laws: "bolt_laws B" and h: "holds B d bs" and w: "writable b"
    and m: "got B d blocksBucket (sl (blk_Hash b)) \<in> {None, Some (GobBlock b)}"
    and link: "bs = [] \<and> blk_Height b = 0 \<or>
      bs \<noteq> [] \<and> blk_Height b = blk_Height (last bs) + 1 \<and> 0 < blk_Height b \<and> sl (blk_PrevHash b) = sl (blk_Hash (last bs))"
    and commit: "\<forall>d. bk_Commit B d = Inr ()"
  shows "\<exists>d'. store_AppendCanonical B b d = (d', Inr ()) \<and> holds B d' (bs @ [b]) \<and> same_rest B d d' \<and>
     got B d' blocksBucket = (got B d blocksBucket)(sl (blk_Hash b) \<mapsto> GobBlock b)"
proof -
  let ?k = "u64beBigEndian (blk_Height b)"
  have ents: "got B d canonBucket = map_of (map canon_entry bs)" and s: "sorted_wrt (<) (map blk_Height bs)" using h by (simp_all add: holds_def)
  have dis: "distinct (map fst (map canon_entry bs))" using sorted_entries [OF s] by (simp only: strict_sorted_iff)
  obtain d1 where d1: "put_if_absent B (sl (blk_Hash b)) (GobBlock b) d = (d1, Inr ())"
    "got B d1 = (got B d)(blocksBucket := (got B d blocksBucket)(sl (blk_Hash b) \<mapsto> GobBlock b))"
    using put_if_absent_ok [OF laws w m] by blast
  have "map_of (map canon_entry bs) (u64beBigEndian (blk_Height (last bs))) = Some (Raw (sl (blk_Hash (last bs))))" if "bs \<noteq> []"
    using dis that by (intro map_of_is_SomeI) (simp_all add: canon_entry_def image_iff, metis last_in_set)
  then have prev: "check_previous B b d1 = (d1, Inr ())"
    using link by (auto simp add: check_previous_def bk_Get_got d1 ents)
  obtain d2 where d2: "bk_Put B canonBucket ?k (Raw (sl (blk_Hash b))) d1 = (d2, Inr ())"
    "got B d2 = (got B d1)(canonBucket := (got B d1 canonBucket)(?k \<mapsto> Raw (sl (blk_Hash b))))"
    using put_ok [OF laws, of ?k canonBucket "Raw (sl (blk_Hash b))" d1] by auto
  obtain d3 where d3: "put_tip B (sl (blk_Hash b)) ?k d2 = (d3, Inr ())" "\<And>bk. bk \<noteq> metaBucket \<Longrightarrow> got B d3 bk = got B d2 bk"
    and rest: "same_rest B d2 d3"
    using put_tip_ok [OF laws] by blast
  have "same_rest B d d2" by (simp add: same_rest_def d2(2) d1(2))
  then have rest: "same_rest B d d3" using rest by (rule same_rest_trans)
  have s': "sorted_wrt (<) (map blk_Height (bs @ [b]))"
  proof (cases "bs = []")
    case False
    then have up: "blk_Height b = blk_Height (last bs) + 1" "blk_Height b \<noteq> 0" using link by auto
    show ?thesis by (rule sorted_snoc [OF s False up(1)]) (use up in simp)
  qed simp
  have "distinct (map blk_Height (bs @ [b]))" using s' by (simp only: strict_sorted_iff)
  then have "map_of (map canon_entry bs) ?k = None" by (auto simp: map_of_eq_None_iff canon_entry_def)
  then have e: "map_of (map canon_entry (bs @ [b])) = (map_of (map canon_entry bs))(?k \<mapsto> Raw (sl (blk_Hash b)))"
    by (intro ext) (simp add: canon_entry_def map_add_def split: option.split)
  have "got B d3 canonBucket = (map_of (map canon_entry bs))(?k \<mapsto> Raw (sl (blk_Hash b)))"
    using d3(2) [of canonBucket] by (simp add: d2(2) d1(2) ents)
  then have "got B d3 canonBucket = map_of (map canon_entry (bs @ [b]))" unfolding e .
  moreover have bl: "got B d3 blocksBucket = (got B d blocksBucket)(sl (blk_Hash b) \<mapsto> GobBlock b)"
    using d3(2) [of blocksBucket] by (simp add: d2(2) d1(2))
  have "got B d3 blocksBucket (sl (blk_Hash x)) = Some (GobBlock x)" if "x \<in> set (bs @ [b])" for x
  proof (cases "x = b")
    case False
    then have "got B d blocksBucket (sl (blk_Hash x)) = Some (GobBlock x)" using h that by (simp add: holds_def)
    then show ?thesis using m by (cases "sl (blk_Hash x) = sl (blk_Hash b)") (auto simp: bl)
  qed (simp add: bl)
  ultimately have "holds B d3 (bs @ [b])" using s' unfolding holds_def by blast
  moreover have "store_AppendCanonical B b d = (d3, Inr ())"
    using w d1(1) prev d2(1) d3(1) commit by (simp add: store_AppendCanonical_def db_Update_def andThen_def writable_def Let_def)
  ultimately show ?thesis using bl rest by blast
qed

subsection \<open>Pruning\<close>

lemma prune_entries_ok:
  assumes laws: "bolt_laws B"
  shows "\<exists>d'. run_all (prune_entry B) es d = (d', Inr ()) \<and>
    (\<forall>k. got B d' canonBucket k = (if k \<in> fst ` set es then None else got B d canonBucket k)) \<and>
    (\<forall>k. got B d' blocksBucket k = (if k \<in> (raw_of \<circ> snd) ` set es then None else got B d blocksBucket k))"
proof (induction es arbitrary: d)
  case (Cons e es)
  obtain d1 where d1: "bk_Delete B canonBucket (fst e) d = (d1, Inr ())" "got B d1 = (got B d)(canonBucket := (got B d canonBucket)(fst e := None))"
    using delete_ok [OF laws] by blast
  obtain d2 where d2: "bk_Delete B blocksBucket (raw_of (snd e)) d1 = (d2, Inr ())"
    "got B d2 = (got B d1)(blocksBucket := (got B d1 blocksBucket)(raw_of (snd e) := None))"
    using delete_ok [OF laws] by blast
  obtain d3 where d3: "run_all (prune_entry B) es d2 = (d3, Inr ())"
    "\<forall>k. got B d3 canonBucket k = (if k \<in> fst ` set es then None else got B d2 canonBucket k)"
    "\<forall>k. got B d3 blocksBucket k = (if k \<in> (raw_of \<circ> snd) ` set es then None else got B d2 blocksBucket k)"
    using Cons.IH by blast
  have "run_all (prune_entry B) (e # es) d = (d3, Inr ())" using d1(1) d2(1) d3(1) by (simp add: prune_entry_def andThen_def)
  moreover have "got B d3 canonBucket k = (if k \<in> fst ` set (e # es) then None else got B d canonBucket k)" for k
    using d3(2) [rule_format, of k] by (simp add: d1(2) d2(2))
  moreover have "got B d3 blocksBucket k = (if k \<in> (raw_of \<circ> snd) ` set (e # es) then None else got B d blocksBucket k)" for k
    using d3(3) [rule_format, of k] by (simp add: d1(2) d2(2))
  ultimately show ?case by blast
qed simp

lemma takeWhile_sorted:
  "sorted (map f xs) \<Longrightarrow> takeWhile (\<lambda>x. f x \<le> h) xs = filter (\<lambda>x. f x \<le> (h :: int)) xs"
proof (induction xs)
  case (Cons x xs)
  show ?case
  proof (cases "f x \<le> h")
    case False
    then have "\<forall>y \<in> set xs. \<not> f y \<le> h" using Cons.prems by force
    then show ?thesis using False by simp
  qed (use Cons in simp)
qed simp

lemma int64_of_small: "h < 2 ^ 63 \<Longrightarrow> int64_of h = uint h"
proof -
  assume "h < 2 ^ 63"
  then have "uint h < 2 ^ 63" by (simp add: word_less_def)
  moreover have "0 \<le> uint h" by simp
  ultimately show ?thesis unfolding int64_of_def by (intro i64_id) linarith+
qed

lemma entries_below_canon:
  assumes s: "sorted_wrt (<) (map blk_Height bs)" and small: "\<forall>b \<in> set bs. blk_Height b < 2 ^ 63"
  shows "entries_below h (map canon_entry bs) = map canon_entry (filter (\<lambda>b. int64_of (blk_Height b) < h) bs)"
proof -
  have "sorted (map (\<lambda>b. int64_of (blk_Height b)) bs)"
    unfolding sorted_map
  proof (rule sorted_wrt_mono_rel)
    show "sorted_wrt (\<lambda>x y. blk_Height x < blk_Height y) bs" using s by (simp only: sorted_wrt_map)
    fix x y assume "x \<in> set bs" "y \<in> set bs" and lt: "blk_Height x < blk_Height y"
    then have "int64_of (blk_Height x) = uint (blk_Height x)" "int64_of (blk_Height y) = uint (blk_Height y)"
      using small by (blast intro: int64_of_small)+
    then show "int64_of (blk_Height x) \<le> int64_of (blk_Height y)" using lt by (simp add: word_less_def)
  qed
  then have "takeWhile (\<lambda>b. int64_of (blk_Height b) \<le> h) bs = filter (\<lambda>b. int64_of (blk_Height b) \<le> h) bs" by (rule takeWhile_sorted)
  then show ?thesis
    by (simp add: entries_below_def canon_entry_def filter_map takeWhile_map comp_def less_le)
qed

lemma map_eqI: "(\<And>k v. f k = Some v \<longleftrightarrow> g k = Some v) \<Longrightarrow> f = g"
  by (rule ext) (metis not_None_eq)

lemma canon_lookup:
  assumes "distinct (map blk_Height bs)"
  shows "map_of (map canon_entry bs) k = Some v \<longleftrightarrow> (\<exists>b \<in> set bs. canon_entry b = (k, v))"
proof -
  have "distinct (map fst (map canon_entry bs))"
    using assms by (simp add: canon_entry_def comp_def distinct_map inj_on_def)
  then have "map_of (map canon_entry bs) k = Some v \<longleftrightarrow> (k, v) \<in> set (map canon_entry bs)" by (rule map_of_eq_Some_iff)
  also have "\<dots> \<longleftrightarrow> (\<exists>b \<in> set bs. canon_entry b = (k, v))" unfolding set_map image_iff by (rule bex_cong [OF refl]) (rule eq_commute)
  finally show ?thesis .
qed

lemma canon_key: "k \<in> fst ` set (map canon_entry bs) \<longleftrightarrow> (\<exists>b \<in> set bs. u64beBigEndian (blk_Height b) = k)"
proof -
  have "fst ` set (map canon_entry bs) = (\<lambda>b. u64beBigEndian (blk_Height b)) ` set bs" by (simp add: image_image canon_entry_def)
  then have "k \<in> fst ` set (map canon_entry bs) \<longleftrightarrow> k \<in> (\<lambda>b. u64beBigEndian (blk_Height b)) ` set bs" by (simp only:)
  also have "\<dots> \<longleftrightarrow> (\<exists>b \<in> set bs. u64beBigEndian (blk_Height b) = k)"
    unfolding image_iff by (rule bex_cong [OF refl]) (rule eq_commute)
  finally show ?thesis .
qed

lemma canon_removed:
  assumes dh: "distinct (map blk_Height bs)"
  shows "(\<lambda>k. if k \<in> fst ` set (map canon_entry (filter P bs)) then None else map_of (map canon_entry bs) k) =
    map_of (map canon_entry (filter (\<lambda>b. \<not> P b) bs))"
proof (rule map_eqI)
  fix k v
  let ?low = "filter P bs" and ?high = "filter (\<lambda>b. \<not> P b) bs"
  have dhigh: "distinct (map blk_Height ?high)" using dh by (simp add: distinct_map_filter)
  show "(if k \<in> fst ` set (map canon_entry ?low) then None else map_of (map canon_entry bs) k) = Some v \<longleftrightarrow>
      map_of (map canon_entry ?high) k = Some v"
  proof
    assume some: "(if k \<in> fst ` set (map canon_entry ?low) then None else map_of (map canon_entry bs) k) = Some v"
    then have low: "k \<notin> fst ` set (map canon_entry ?low)" by (rule contrapos_pn) (simp only: if_True option.distinct not_False_eq_True)
    with some have "map_of (map canon_entry bs) k = Some v" by (simp only: if_False)
    then obtain b where b: "b \<in> set bs" "canon_entry b = (k, v)" unfolding canon_lookup [OF dh] by blast
    then have "u64beBigEndian (blk_Height b) = k" by (simp add: canon_entry_def)
    then have "\<not> P b" using low b(1) unfolding canon_key by auto
    then show "map_of (map canon_entry ?high) k = Some v" unfolding canon_lookup [OF dhigh] using b by (intro bexI [of _ b]) simp_all
  next
    assume "map_of (map canon_entry ?high) k = Some v"
    then obtain b where b: "b \<in> set ?high" "canon_entry b = (k, v)" unfolding canon_lookup [OF dhigh] by blast
    then have k: "u64beBigEndian (blk_Height b) = k" by (simp add: canon_entry_def)
    have "x = b" if "x \<in> set bs" "u64beBigEndian (blk_Height x) = k" for x
      using dh that b(1) k by (auto simp: distinct_map inj_on_def)
    then have "k \<notin> fst ` set (map canon_entry ?low)" unfolding canon_key using b(1) by auto
    moreover have "map_of (map canon_entry bs) k = Some v" unfolding canon_lookup [OF dh] using b by (intro bexI [of _ b]) simp_all
    ultimately show "(if k \<in> fst ` set (map canon_entry ?low) then None else map_of (map canon_entry bs) k) = Some v"
      by (simp only: if_False)
  qed
qed

lemma prune_holds:
  assumes laws: "bolt_laws B" and h: "holds B d bs" and small: "\<forall>b \<in> set bs. blk_Height b < 2 ^ 63"
    and dist: "distinct (map (\<lambda>b. sl (blk_Hash b)) bs)" and commit: "\<forall>d. bk_Commit B d = Inr ()"
  shows "\<exists>d'. store_PruneBelow B height d = (d', Inr ()) \<and> holds B d' (filter (\<lambda>b. height \<le> int64_of (blk_Height b)) bs)"
proof -
  let ?low = "filter (\<lambda>b. int64_of (blk_Height b) < height) bs" and ?high = "filter (\<lambda>b. height \<le> int64_of (blk_Height b)) bs"
  have s: "sorted_wrt (<) (map blk_Height bs)" and ca: "got B d canonBucket = map_of (map canon_entry bs)"
    and bl: "\<forall>b \<in> set bs. got B d blocksBucket (sl (blk_Hash b)) = Some (GobBlock b)"
    using h by (simp_all add: holds_def)
  have dh: "distinct (map blk_Height bs)" using s by (simp only: strict_sorted_iff)
  have ents: "entries_below height (bk_Entries B canonBucket d) = map canon_entry ?low"
    by (simp add: holds_entries [OF laws h] entries_below_canon [OF s small])
  obtain d' where run: "run_all (prune_entry B) (map canon_entry ?low) d = (d', Inr ())"
    and c': "\<forall>k. got B d' canonBucket k = (if k \<in> fst ` set (map canon_entry ?low) then None else got B d canonBucket k)"
    and b': "\<forall>k. got B d' blocksBucket k = (if k \<in> (raw_of \<circ> snd) ` set (map canon_entry ?low) then None else got B d blocksBucket k)"
    using prune_entries_ok [OF laws] by blast
  have inj: "x = y" if "x \<in> set bs" "y \<in> set bs" "sl (blk_Hash x) = sl (blk_Hash y)" for x y
    using dist that by (auto simp: distinct_map inj_on_def)
  have "got B d' canonBucket = (\<lambda>k. if k \<in> fst ` set (map canon_entry ?low) then None else map_of (map canon_entry bs) k)"
    by (rule ext) (simp only: c' [rule_format] ca)
  then have "got B d' canonBucket = map_of (map canon_entry ?high)" by (simp only: canon_removed [OF dh] not_less)
  moreover have "\<forall>b \<in> set ?high. got B d' blocksBucket (sl (blk_Hash b)) = Some (GobBlock b)"
  proof
    fix b assume b: "b \<in> set ?high"
    have "sl (blk_Hash b) \<notin> (raw_of \<circ> snd) ` set (map canon_entry ?low)"
    proof
      assume "sl (blk_Hash b) \<in> (raw_of \<circ> snd) ` set (map canon_entry ?low)"
      then obtain x where x: "x \<in> set ?low" "sl (blk_Hash b) = sl (blk_Hash x)" by (auto simp: canon_entry_def)
      then have "b = x" using b by (intro inj) simp_all
      then show False using x(1) b by simp
    qed
    then have "got B d' blocksBucket (sl (blk_Hash b)) = got B d blocksBucket (sl (blk_Hash b))"
      unfolding b' [rule_format, of "sl (blk_Hash b)"] by (simp only: if_False)
    then show "got B d' blocksBucket (sl (blk_Hash b)) = Some (GobBlock b)" using bl b by simp
  qed
  moreover have "sorted_wrt (<) (map blk_Height ?high)" using s by (simp add: sorted_wrt_map sorted_wrt_filter)
  ultimately have "holds B d' ?high" unfolding holds_def by blast
  moreover have "store_PruneBelow B height d = (d', Inr ())"
    using run commit by (simp add: store_PruneBelow_def ents db_Update_def)
  ultimately show ?thesis by blast
qed

subsection \<open>Sorting the checkpoint heights\<close>

lemma sink_props:
  "j < length a \<Longrightarrow> sorted (take j a) \<Longrightarrow>
     length (sink j a) = length a \<and> mset (take (Suc j) (sink j a)) = mset (take (Suc j) a) \<and>
     drop (Suc j) (sink j a) = drop (Suc j) a \<and> sorted (take (Suc j) (sink j a))"
proof (induction j arbitrary: a)
  case 0
  then show ?case by (simp add: take_Suc_conv_app_nth)
next
  case (Suc j)
  have j: "j < length a" using Suc.prems by simp
  have pre: "take (Suc j) a = take j a @ [a ! j]" using j by (rule take_Suc_conv_app_nth)
  have top: "\<forall>x \<in> set (take j a). x \<le> a ! j" and low: "sorted (take j a)"
    using Suc.prems(2) unfolding pre by (simp_all add: sorted_append)
  show ?case
  proof (cases "a ! Suc j < a ! j")
    case False
    then show ?thesis using Suc.prems top by (simp add: take_Suc_conv_app_nth sorted_append) (auto simp: pre)
  next
    case True
    let ?b = "a[Suc j := a ! j, j := a ! Suc j]" and ?x = "a ! Suc j" and ?y = "a ! j"
    have b: "length ?b = length a" "take j ?b = take j a" "?b ! j = ?x" "?b ! Suc j = ?y" "drop (Suc (Suc j)) ?b = drop (Suc (Suc j)) a"
      using Suc.prems by (simp_all add: nth_list_update)
    have jb: "j < length ?b" using j by simp
    have ih: "length (sink j ?b) = length ?b" "mset (take (Suc j) (sink j ?b)) = mset (take (Suc j) ?b)"
      "drop (Suc j) (sink j ?b) = drop (Suc j) ?b" "sorted (take (Suc j) (sink j ?b))"
      using Suc.IH [OF jb] low b(2) by simp_all
    have tb: "take (Suc j) ?b = take j a @ [?x]" using take_Suc_conv_app_nth [OF jb] b(2,3) by simp
    have nth: "sink j ?b ! Suc j = ?y"
      using arg_cong [OF ih(3), of hd] b(1,4) Suc.prems(1) ih(1) by (simp add: hd_drop_conv_nth)
    have split: "take (Suc (Suc j)) (sink j ?b) = take (Suc j) (sink j ?b) @ [?y]"
      using take_Suc_conv_app_nth [of "Suc j" "sink j ?b"] Suc.prems(1) ih(1) b(1) nth by simp
    have "set (take (Suc j) (sink j ?b)) = set (take (Suc j) ?b)" using ih(2) by (rule mset_eq_setD)
    then have "sorted (take (Suc (Suc j)) (sink j ?b))"
      unfolding split using ih(4) top True by (auto simp: sorted_append tb)
    moreover have "mset (take (Suc (Suc j)) (sink j ?b)) = mset (take (Suc (Suc j)) a)"
      unfolding split take_Suc_conv_app_nth [OF Suc.prems(1)] pre mset_append ih(2) tb
      by (simp only: mset.simps add_mset_commute union_mset_add_mset_right add_0_right)
    moreover have "drop (Suc (Suc j)) (sink j ?b) = drop (Suc (Suc j)) a"
      using arg_cong [OF ih(3), of "drop 1"] b(5) by simp
    ultimately show ?thesis using True ih(1) b(1) by simp
  qed
qed

lemma fold_sink_sorted:
  "k \<le> length a \<Longrightarrow> 0 < k \<Longrightarrow>
     mset (fold sink [1..<k] a) = mset a \<and> length (fold sink [1..<k] a) = length a \<and> sorted (take k (fold sink [1..<k] a))"
proof (induction k)
  case (Suc k)
  show ?case
  proof (cases "k = 0")
    case True
    then show ?thesis using Suc.prems by (cases a) simp_all
  next
    case False
    let ?a = "fold sink [1..<k] a"
    have ih: "mset ?a = mset a" "length ?a = length a" "sorted (take k ?a)" using Suc False by simp_all
    have k: "k < length ?a" using ih(2) Suc.prems by simp
    note p = sink_props [OF k ih(3)]
    have "mset (sink k ?a) = mset (take (Suc k) (sink k ?a) @ drop (Suc k) (sink k ?a))" by (simp only: append_take_drop_id)
    also have "\<dots> = mset (take (Suc k) ?a @ drop (Suc k) ?a)" using p by (simp only: mset_append)
    also have "\<dots> = mset a" using ih(1) by (simp only: append_take_drop_id)
    finally show ?thesis using p ih(2) False by simp
  qed
qed simp

lemma sortInts_sort: "sortInts a = sort a"
proof (cases "a = []")
  case False
  then have "mset (sortInts a) = mset a \<and> sorted (sortInts a)"
    using fold_sink_sorted [of "length a" a] unfolding sortInts_def by (metis length_greater_0_conv order_refl take_all)
  then show ?thesis by (metis properties_for_sort)
qed (simp add: sortInts_def)

subsection \<open>A database in memory\<close>

text \<open>An association list from bucket and key to value satisfies the laws: it is the database of the witnesses.\<close>

definition mem_keys :: "string \<Rightarrow> (string \<times> bytes, stored) gomap \<Rightarrow> bytes list" where
  "mem_keys bk d = sort (remdups (map (\<lambda>e. snd (fst e)) (filter (\<lambda>e. fst (fst e) = bk) d)))"

definition mem_bolt :: "(string \<times> bytes, stored) gomap bolt" where
  "mem_bolt = \<lparr>
     bk_Get = (\<lambda>bk k d. gget d (bk, k)), bk_Put = (\<lambda>bk k v d. (gput (bk, k) v d, Inr ())),
     bk_Delete = (\<lambda>bk k d. (gdel (bk, k) d, Inr ())),
     bk_Entries = (\<lambda>bk d. map (\<lambda>k. (k, the (gget d (bk, k)))) (mem_keys bk d)),
     bk_Drain = mem_keys, bk_Commit = (\<lambda>_. Inr ())\<rparr>"

lemma mem_keys_iff: "k \<in> set (mem_keys bk d) \<longleftrightarrow> gget d (bk, k) \<noteq> None"
  by (force simp: mem_keys_def gget_None_iff)

lemma mem_bolt_laws: "bolt_laws mem_bolt"
proof -
  have "put_law mem_bolt" "delete_law mem_bolt"
    by (simp_all add: put_law_def delete_law_def got_def mem_bolt_def fun_eq_iff)
  moreover have "sorted_wrt (<) (mem_keys bk d)" for bk d
    by (simp add: mem_keys_def strict_sorted_iff)
  then have "order_law mem_bolt"
    by (auto simp: order_law_def got_def mem_bolt_def comp_def mem_keys_iff)
  ultimately show ?thesis by (simp add: bolt_laws_def)
qed

subsection \<open>Properties\<close>

lemma linked_sorted:
  assumes "path_linked bs" and "length bs \<le> 2 ^ 64"
  shows "sorted_wrt (<) (map blk_Height bs)"
  using linked_heights(2) [OF assms] by (simp add: sorted_wrt_map canon_entry_def)

lemma linked_keys_mono:
  assumes "path_linked cs" and "path_linked bs" and "length cs \<le> length bs" and "length bs \<le> 2 ^ 64" and "b \<in> set cs"
  shows "u64beBigEndian (blk_Height b) \<in> fst ` canon_entry ` set bs"
proof -
  have "length cs \<le> 2 ^ 64" using assms(3,4) by simp
  then have "blk_Height b \<in> set (map word_of_nat [0..<length cs])"
    using linked_heights(1) [OF assms(1)] assms(5) by (metis image_eqI set_map)
  then have "blk_Height b \<in> set (map word_of_nat [0..<length bs])" using assms(3) by auto
  then have "blk_Height b \<in> blk_Height ` set bs" using linked_heights(1) [OF assms(2,4)] by (metis set_map)
  then show ?thesis by (force simp: canon_entry_def image_iff)
qed

text \<open>C10. A reorganisation reaches the disk: whatever the cursor returns while the old entries are deleted
  under it, replacing a stored chain by a linked chain that is at least as long leaves exactly the new chain, and
  reading it back gives its blocks in order, up to the empty slices gob turns into nil.  Stored
  bodies with the hashes of the new blocks must be these blocks, as a body is never overwritten.\<close>

theorem reorganisation_persists:
  assumes laws: "bolt_laws B" and commit: "\<forall>d. bk_Commit B d = Inr ()"
    and old: "holds B d cs" "cs = [] \<or> path_linked cs"
    and new: "path_linked bs" "length cs \<le> length bs" "length bs \<le> 2 ^ 64" "\<forall>b \<in> set bs. writable b"
    and bodies: "no_conflict (got B d blocksBucket) bs"
  shows "\<exists>d'. store_RewriteCanonical B bs d = (d', Inr ()) \<and> holds B d' bs \<and> store_ReadCanonical B d' = Inr (map gob_norm bs)"
proof -
  have "k \<in> fst ` canon_entry ` set bs" if "got B d canonBucket k \<noteq> None" for k
  proof -
    from that old(1) obtain c where "c \<in> set cs" "u64beBigEndian (blk_Height c) = k"
      by (auto simp: holds_def canon_entry_def dest!: map_of_SomeD)
    then show ?thesis using linked_keys_mono [OF _ new(1-3)] old(2) by fastforce
  qed
  moreover have "bs \<noteq> []" using new(1) by (simp add: path_linked_def)
  ultimately show ?thesis
    using rewrite_holds [OF laws linked_sorted [OF new(1,3)] new(4) _ bodies _ commit] holds_read [OF laws] by blast
qed

theorem reorganisation_persists_w:
  "\<exists>d'. store_RewriteCanonical mem_bolt [reward_at 0 [] [9], reward_at 1 [9] [8]] [] = (d', Inr ()) \<and>
     holds mem_bolt d' [reward_at 0 [] [9], reward_at 1 [9] [8]] \<and>
     store_ReadCanonical mem_bolt d' = Inr (map gob_norm [reward_at 0 [] [9], reward_at 1 [9] [8]])"
proof (rule reorganisation_persists [where cs = "[]", OF mem_bolt_laws])
  show "no_conflict (got mem_bolt [] blocksBucket) [reward_at 0 [] [9], reward_at 1 [9] [8]]"
    by (simp add: no_conflict_def got_def mem_bolt_def reward_at_def)
  show "path_linked [reward_at 0 [] [9], reward_at 1 [9] [8]]"
    by (simp add: path_linked_def less_Suc_eq)
qed (simp_all add: mem_bolt_def holds_def got_def fun_eq_iff writable_def reward_at_def)

lemma append_all_holds:
  assumes laws: "bolt_laws B" and commit: "\<forall>d. bk_Commit B d = Inr ()"
    and chain: "path_linked (bs @ cs)" "length (bs @ cs) \<le> 2 ^ 64" and h: "holds B d bs" "bs \<noteq> []"
    and new: "\<forall>b \<in> set cs. writable b" "no_conflict (got B d blocksBucket) cs"
  shows "\<exists>d'. run_all (store_AppendCanonical B) cs d = (d', Inr ()) \<and> holds B d' (bs @ cs) \<and> same_rest B d d' \<and>
     dom (got B d' blocksBucket) = dom (got B d blocksBucket) \<union> (\<lambda>b. sl (blk_Hash b)) ` set cs"
  using chain h new
proof (induction cs arbitrary: bs d)
  case Nil
  then show ?case by (simp add: same_rest_def)
next
  case (Cons c cs)
  have n: "Suc (length bs - 1) < length (bs @ c # cs)" using Cons.prems(4) by (cases bs) simp_all
  have at: "(bs @ c # cs) ! Suc (length bs - 1) = c" "(bs @ c # cs) ! (length bs - 1) = last bs"
    using Cons.prems(4) by (simp_all add: nth_append last_conv_nth)
  have link: "blk_Height c = blk_Height (last bs) + 1" "sl (blk_PrevHash c) = sl (blk_Hash (last bs))"
    using Cons.prems(1) n at unfolding path_linked_def block_hex_def by (metis hex_encode_inj)+
  have "sorted_wrt (<) (map blk_Height (bs @ c # cs))" using linked_sorted Cons.prems(1,2) by blast
  then have pos: "0 < blk_Height c" using Cons.prems(4) by (cases bs) (auto simp: sorted_wrt_append intro: le_less_trans)
  have free: "got B d blocksBucket (sl (blk_Hash c)) \<in> {None, Some (GobBlock c)}"
    using Cons.prems(6) by (auto simp: no_conflict_def)
  have w: "writable c" using Cons.prems(5) by simp
  obtain d1 where d1: "store_AppendCanonical B c d = (d1, Inr ())" "holds B d1 (bs @ [c])" "same_rest B d d1"
    and bodies: "got B d1 blocksBucket = (got B d blocksBucket)(sl (blk_Hash c) \<mapsto> GobBlock c)"
    using append_holds [OF laws Cons.prems(3) w free _ commit] Cons.prems(4) link pos by blast
  have "no_conflict (got B d1 blocksBucket) cs" using Cons.prems(6) by (auto simp: no_conflict_def bodies)
  then obtain d' where "run_all (store_AppendCanonical B) cs d1 = (d', Inr ())" "holds B d' (bs @ c # cs)" "same_rest B d1 d'"
    "dom (got B d' blocksBucket) = dom (got B d1 blocksBucket) \<union> (\<lambda>b. sl (blk_Hash b)) ` set cs"
    using Cons.IH [of "bs @ [c]" d1] Cons.prems d1(2) by auto
  then show ?case using d1 same_rest_trans [OF d1(3)] by (auto simp: bodies)
qed

text \<open>Blocks appended one after another are all kept: if the store holds a chain and the new blocks extend it, each
  append succeeds and reading gives the whole chain.  This is the loop in which a node stores the blocks it
  mines or receives at its tip.\<close>

theorem appended_blocks_persist:
  assumes "bolt_laws B" and "\<forall>d. bk_Commit B d = Inr ()"
    and "path_linked (bs @ cs)" "length (bs @ cs) \<le> 2 ^ 64" and "holds B d bs" "bs \<noteq> []"
    and "\<forall>b \<in> set cs. writable b" "no_conflict (got B d blocksBucket) cs"
  shows "\<exists>d'. run_all (store_AppendCanonical B) cs d = (d', Inr ()) \<and> holds B d' (bs @ cs) \<and>
     store_ReadCanonical B d' = Inr (map gob_norm (bs @ cs))"
  using append_all_holds [OF assms] holds_read [OF assms(1)] by blast

lemma mem_round:
  "holds mem_bolt (fst (store_RewriteCanonical mem_bolt [reward_at 0 [] [9]] [])) [reward_at 0 [] [9]]"
  by (simp add: holds_def store_RewriteCanonical_def db_Update_def andThen_def rewrite_tip_def put_tip_def write_block_def
      put_if_absent_def mem_bolt_def got_def gget_Cons gput_def mem_keys_def reward_at_def fun_eq_iff canon_entry_def
      blocksBucket_def canonBucket_def metaBucket_def)

theorem appended_blocks_persist_w:
  "\<exists>d'. run_all (store_AppendCanonical mem_bolt) [reward_at 1 [9] [8], reward_at 2 [8] [7]]
       (fst (store_RewriteCanonical mem_bolt [reward_at 0 [] [9]] [])) = (d', Inr ()) \<and>
     holds mem_bolt d' ([reward_at 0 [] [9]] @ [reward_at 1 [9] [8], reward_at 2 [8] [7]]) \<and>
     store_ReadCanonical mem_bolt d' = Inr (map gob_norm ([reward_at 0 [] [9]] @ [reward_at 1 [9] [8], reward_at 2 [8] [7]]))"
proof (rule appended_blocks_persist [OF mem_bolt_laws _ _ _ mem_round])
  show "path_linked ([reward_at 0 [] [9]] @ [reward_at 1 [9] [8], reward_at 2 [8] [7]])"
    by (simp add: path_linked_def less_Suc_eq)
  show "no_conflict (got mem_bolt (fst (store_RewriteCanonical mem_bolt [reward_at 0 [] [9]] [])) blocksBucket)
      [reward_at 1 [9] [8], reward_at 2 [8] [7]]"
    by (simp add: no_conflict_def store_RewriteCanonical_def db_Update_def andThen_def rewrite_tip_def put_tip_def write_block_def
      put_if_absent_def mem_bolt_def got_def gget_Cons gput_def mem_keys_def reward_at_def
      blocksBucket_def canonBucket_def metaBucket_def)
qed (simp_all add: mem_bolt_def writable_def reward_at_def)

text \<open>Pruning keeps exactly the blocks at or above the height: reading the store afterwards gives this suffix of the
  chain.  Heights are compared as signed numbers, so they must be below 2^63.\<close>

theorem prune_keeps_suffix:
  assumes "bolt_laws B" and "\<forall>d. bk_Commit B d = Inr ()" and "holds B d bs"
    and "\<forall>b \<in> set bs. blk_Height b < 2 ^ 63" and "distinct (map (\<lambda>b. sl (blk_Hash b)) bs)"
  shows "\<exists>d'. store_PruneBelow B height d = (d', Inr ()) \<and>
     store_ReadCanonical B d' = Inr (map gob_norm (filter (\<lambda>b. height \<le> int64_of (blk_Height b)) bs))"
  using prune_holds [OF assms(1,3,4,5,2)] holds_read [OF assms(1)] by blast

theorem prune_keeps_suffix_w:
  "\<exists>d'. store_PruneBelow mem_bolt 1 (fst (store_RewriteCanonical mem_bolt [reward_at 0 [] [9]] [])) = (d', Inr ()) \<and>
     store_ReadCanonical mem_bolt d' = Inr (map gob_norm (filter (\<lambda>b. 1 \<le> int64_of (blk_Height b)) [reward_at 0 [] [9]]))"
  using prune_keeps_suffix [OF mem_bolt_laws _ mem_round, of 1] by (simp add: mem_bolt_def)

lemma entry_heights:
  assumes "bolt_laws B" and "got B d bk (u64beBigEndian w) = Some v"
  shows "int64_of w \<in> set (map (\<lambda>e. int64_of (beUint64 (fst e))) (filter (\<lambda>e. length (fst e) = 8) (bk_Entries B bk d)))"
proof -
  have "(u64beBigEndian w, v) \<in> set (bk_Entries B bk d)" using assms unfolding bolt_laws_def order_law_def by meson
  then show ?thesis by force
qed

lemma int64_of_word: "- (2 ^ 63) \<le> h \<Longrightarrow> h < 2 ^ 63 \<Longrightarrow> int64_of (word_of_int h :: u64) = h"
  by (simp add: int64_of_def i64_def unsigned_of_int take_bit_int_def mod_add_left_eq)

text \<open>A checkpoint written at a height is read back, no other checkpoint changes, and the list of checkpoint heights is
  sorted and contains the height.\<close>

theorem checkpoint_round_trip:
  assumes laws: "bolt_laws B" and commit: "\<forall>d. bk_Commit B d = Inr ()" and h: "- (2 ^ 63) \<le> height" "height < 2 ^ 63"
  shows "\<exists>d' hs. store_WriteCheckpoint B height st d = (d', Inr ()) \<and> store_ReadCheckpoint B height d' = Inr st \<and>
     (\<forall>h'. - (2 ^ 63) \<le> h' \<and> h' < 2 ^ 63 \<and> h' \<noteq> height \<longrightarrow> store_ReadCheckpoint B h' d' = store_ReadCheckpoint B h' d) \<and>
     store_GetCheckpointHeights B d' = Inr hs \<and> sorted hs \<and> height \<in> set hs"
proof -
  let ?k = "u64beBigEndian (word_of_int height)"
  obtain d' where d': "bk_Put B checkpointsBucket ?k (JsonState st) d = (d', Inr ())"
    "got B d' = (got B d)(checkpointsBucket := (got B d checkpointsBucket)(?k \<mapsto> JsonState st))"
    using put_ok [OF laws, of ?k checkpointsBucket "JsonState st" d] by auto
  have g: "got B d' checkpointsBucket ?k = Some (JsonState st)" by (simp add: d'(2))
  have other: "store_ReadCheckpoint B h' d' = store_ReadCheckpoint B h' d" if "- (2 ^ 63) \<le> h'" "h' < 2 ^ 63" "h' \<noteq> height" for h'
  proof -
    have "(word_of_int h' :: u64) \<noteq> word_of_int height" using int64_of_word [OF h] int64_of_word [OF that(1,2)] that(3) by metis
    then show ?thesis by (simp add: store_ReadCheckpoint_def bk_Get_got d'(2))
  qed
  have "height \<in> set (map (\<lambda>e. int64_of (beUint64 (fst e))) (filter (\<lambda>e. length (fst e) = 8) (bk_Entries B checkpointsBucket d')))"
    using entry_heights [OF laws g] int64_of_word [OF h] by metis
  then show ?thesis
    using d'(1) g commit other
    by (simp add: store_WriteCheckpoint_def store_ReadCheckpoint_def store_GetCheckpointHeights_def db_Update_def bk_Get_got sortInts_sort)
qed

theorem checkpoint_round_trip_w:
  "\<exists>d' hs. store_WriteCheckpoint mem_bolt 1000 [] [] = (d', Inr ()) \<and> store_ReadCheckpoint mem_bolt 1000 d' = Inr [] \<and>
     (\<forall>h'. - (2 ^ 63) \<le> h' \<and> h' < 2 ^ 63 \<and> h' \<noteq> 1000 \<longrightarrow> store_ReadCheckpoint mem_bolt h' d' = store_ReadCheckpoint mem_bolt h' []) \<and>
     store_GetCheckpointHeights mem_bolt d' = Inr hs \<and> sorted hs \<and> 1000 \<in> set hs"
  by (rule checkpoint_round_trip [OF mem_bolt_laws]) (simp_all add: mem_bolt_def)

end
