(* ===== verification/Boot.thy ===== *)
theory Boot
  imports Mining Store
begin

text \<open>
  How a node starts: \<^verbatim>\<open>LoadBlockchain\<close> of \<^verbatim>\<open>internal/blockchain/chain.go\<close>, with the genesis path of
  \<^verbatim>\<open>internal/blockchain/consensus.go\<close> and the settings of \<^verbatim>\<open>config/config.go\<close> it reads.  The environment is a function from names to
  values, the file system a function from paths to contents; the block store is any \<open>chain_store\<close>.
\<close>

subsection \<open>Paths and settings\<close>

text \<open>\<^verbatim>\<open>filepath.Join\<close> of relative elements: the elements joined by slashes and cleaned.\<close>

fun split_slash :: "string \<Rightarrow> string list" where
  "split_slash [] = [[]]"
| "split_slash (c # s) = (if c = CHR ''/'' then [] # split_slash s else (case split_slash s of [] \<Rightarrow> [[c]] | w # ws \<Rightarrow> (c # w) # ws))"

fun clean_elems :: "string list \<Rightarrow> string list \<Rightarrow> string list" where
  "clean_elems out [] = rev out"
| "clean_elems out (w # ws) =
     (if w = [] \<or> w = ''.'' then clean_elems out ws
      else if w = ''..'' \<and> out \<noteq> [] \<and> hd out \<noteq> ''..'' then clean_elems (tl out) ws
      else clean_elems (w # out) ws)"

fun join_slash :: "string list \<Rightarrow> string" where
  "join_slash [] = ''.''"
| "join_slash [w] = w"
| "join_slash (w # ws) = w @ CHR ''/'' # join_slash ws"

definition filepath_Join :: "string \<Rightarrow> string \<Rightarrow> string" where
  "filepath_Join a b = join_slash (clean_elems [] (split_slash (a @ CHR ''/'' # b)))"

definition GenesisPathFromEnv :: "env \<Rightarrow> u64 \<Rightarrow> string res" where
  "GenesisPathFromEnv env chainID =
     (let path = TrimSpace (env ''GENESIS_PATH''); network = TrimSpace (env ''GENESIS_NETWORK''); net = TrimSpace (env ''NETWORK'') in
      if path \<noteq> [] then Inr path
      else if network \<noteq> [] then Inr (filepath_Join ''genesis'' (network @ ''.json''))
      else if net \<noteq> [] then Inr (filepath_Join ''genesis'' (net @ ''.json''))
      else if chainID = 0 \<or> chainID = 1 then Inr (filepath_Join ''genesis'' ''mainnet.json'')
      else if chainID = 2 then Inr (filepath_Join ''genesis'' ''testnet.json'')
      else Inl (''GENESIS_PATH is required for chainId='' @ json_u64 chainID))"

definition getEnvStr :: "env \<Rightarrow> string \<Rightarrow> string \<Rightarrow> string" where
  "getEnvStr env key defaultVal = (if env key \<noteq> [] then env key else defaultVal)"

definition getEnvInt :: "env \<Rightarrow> string \<Rightarrow> int \<Rightarrow> int" where
  "getEnvInt env key defaultVal =
     (if env key \<noteq> [] then (case ParseInt (env key) of Some n \<Rightarrow> n | None \<Rightarrow> defaultVal) else defaultVal)"

definition getEnvInt64 :: "env \<Rightarrow> string \<Rightarrow> int \<Rightarrow> int" where
  "getEnvInt64 env key defaultVal =
     (if env key \<noteq> [] then (case ParseInt (env key) of Some n \<Rightarrow> n | None \<Rightarrow> defaultVal) else defaultVal)"

text \<open>The settings of \<^verbatim>\<open>LoadConfig\<close> that the chain reads.\<close>

definition LoadConfig :: "env \<Rightarrow> chain_config" where
  "LoadConfig env = \<lparr>cfg_StoreMode = getEnvStr env ''STORE_MODE'' ''pruned'',
     cfg_PruneDepth = getEnvInt64 env ''PRUNE_DEPTH'' 1000,
     cfg_CheckpointInterval = getEnvInt64 env ''CHECKPOINT_INTERVAL'' 100,
     cfg_CacheMaxBlocks = getEnvInt env ''CACHE_MAX_BLOCKS'' 10000,
     cfg_CacheMaxBalances = getEnvInt env ''CACHE_MAX_BALANCES'' 100000,
     cfg_CacheMaxProofs = getEnvInt env ''CACHE_MAX_PROOFS'' 10000\<rparr>"

subsection \<open>Loading\<close>

definition boot_config :: "env \<Rightarrow> genesis_decoders \<Rightarrow> (string \<Rightarrow> bytes res) \<Rightarrow> u64 \<Rightarrow> genesis_config res" where
  "boot_config env gd readFile chainID =
     rbind (GenesisPathFromEnv env chainID) (\<lambda>path.
     rbind (LoadGenesisConfig gd (readFile path)) (\<lambda>g.
       if chainID \<noteq> 0 \<and> gc_ChainID g \<noteq> chainID
       then Inl (''genesis chainId mismatch: env='' @ json_u64 chainID @ '' genesis='' @ json_u64 (gc_ChainID g)) else Inr g))"

definition boot_cache :: "chain_config \<Rightarrow> 'b node_cache" where
  "boot_cache cfg = NewCache
     (if 0 < cfg_CacheMaxBlocks cfg then cfg_CacheMaxBlocks cfg else 10000)
     (if 0 < cfg_CacheMaxBalances cfg then cfg_CacheMaxBalances cfg else 100000)
     (if 0 < cfg_CacheMaxProofs cfg then cfg_CacheMaxProofs cfg else 10000)"

definition new_chain :: "genesis_config \<Rightarrow> string \<Rightarrow> chain_config \<Rightarrow> 's \<Rightarrow> 's blockchain" where
  "new_chain g minerAddress cfg store = \<lparr>
     bc_ChainID = gc_ChainID g, bc_MinerAddress = minerAddress, bc_consensus = gc_ConsensusParams g,
     bc_rulesHash = RulesHash (gc_ConsensusParams g), bc_events = False, bc_onBlockMined = False, bc_mu = False,
     bc_accountManager = NewAccountManager 256, bc_blocks = [], bc_state = [], bc_store = store,
     bc_blocksByHash = [], bc_bestTipHash = [], bc_canonicalWork = 0, bc_txIndex = [], bc_addressIndex = [],
     bc_cache = boot_cache cfg, bc_cfg = cfg, bc_orphanPool = newOrphanPool 100\<rparr>"

definition check_miner :: "string \<Rightarrow> unit res" where
  "check_miner minerAddress =
     (if minerAddress \<noteq> [] \<and> take 3 minerAddress \<noteq> ''NEO'' \<and> \<not> snd (hex_decode minerAddress)
      then Inl ''invalid MINER_ADDRESS (not hex or NEO00)'' else Inr ())"

text \<open>The rules hash and the genesis hash are written on the first start and compared afterwards.\<close>

definition ignoreRulesHash :: "env \<Rightarrow> bool" where
  "ignoreRulesHash env \<longleftrightarrow> envBool env ''IGNORE_RULES_HASH_CHECK'' False \<or> envBool env ''UNSAFE_IGNORE_RULES_HASH_CHECK'' False"

definition check_rules :: "env \<Rightarrow> 's chain_store \<Rightarrow> bytes \<Rightarrow> 's \<Rightarrow> 's \<times> unit res" where
  "check_rules env cs cur s =
     (case cs_GetRulesHash cs s of
        Inl e \<Rightarrow> (s, Inl e)
      | Inr (Some stored) \<Rightarrow>
          if length stored \<noteq> 32 then (s, Inl ''invalid stored rules hash length'')
          else if stored \<noteq> cur \<and> \<not> ignoreRulesHash env then (s, Inl ''consensus params mismatch'')
          else (s, Inr ())
      | Inr None \<Rightarrow> cs_PutRulesHash cs cur s)"

definition boot_genesis :: "'s chain_store \<Rightarrow> genesis_config \<Rightarrow> block list \<Rightarrow> 's \<Rightarrow> ('s \<times> block list res) outcome" where
  "boot_genesis cs g blocks s =
     (case blocks of
        [] \<Rightarrow>
          (case BuildGenesisBlock g (gc_ConsensusParams g) of
             None \<Rightarrow> Blocked
           | Some (Inl e) \<Rightarrow> Ret (s, Inl e)
           | Some (Inr genesis) \<Rightarrow>
               (case cs_AppendCanonical cs genesis s of
                  (s1, Inl e) \<Rightarrow> Ret (s1, Inl e)
                | (s1, Inr _) \<Rightarrow> Ret (fst (cs_PutBlock cs genesis s1), Inr [genesis])))
      | b # bs \<Rightarrow>
          (case ValidateGenesisBlock b g (gc_ConsensusParams g) of
             Inl e \<Rightarrow> Ret (s, Inl e)
           | Inr b' \<Rightarrow> Ret (s, Inr (b' # bs))))"

definition check_genesis_hash :: "'s chain_store \<Rightarrow> bytes \<Rightarrow> 's \<Rightarrow> 's \<times> unit res" where
  "check_genesis_hash cs cur s =
     (case cs_GetGenesisHash cs s of
        Inl e \<Rightarrow> (s, Inl e)
      | Inr (Some stored) \<Rightarrow> if stored \<noteq> cur then (s, Inl ''genesis hash mismatch'') else (s, Inr ())
      | Inr None \<Rightarrow> cs_PutGenesisHash cs cur s)"

text \<open>The last part of loading, from the canonical blocks: the genesis hash, the state, the indexes.\<close>

definition boot_finish ::
  "ed25519 \<Rightarrow> 's chain_store \<Rightarrow> chain_config \<Rightarrow> 's blockchain \<Rightarrow> ('s \<times> 's blockchain res) outcome" where
  "boot_finish ed cs cfg bc =
     (case bc_blocks bc of
        [] \<Rightarrow> Ret (bc_store bc, Inl ''missing genesis block'')
      | b # bs \<Rightarrow>
          (case ensureBlockHash b (bc_consensus bc) of
             Inl e \<Rightarrow> Ret (bc_store bc, Inl e)
           | Inr (genesisHash, b') \<Rightarrow>
               (case check_genesis_hash cs genesisHash (bc_store bc) of
                  (s1, Inl e) \<Rightarrow> Ret (s1, Inl e)
                | (s1, Inr _) \<Rightarrow>
                    (case recomputeStateLocked ed cs cfg (bc\<lparr>bc_blocks := b' # bs, bc_store := s1\<rparr>) of
                       (bc1, Inl e) \<Rightarrow> Ret (s1, Inl e)
                     | (bc1, Inr _) \<Rightarrow> obind (initCanonicalIndexesLocked bc1) (\<lambda>bc2. Ret (s1, Inr bc2))))))"

text \<open>Loading, once the genesis configuration is read.\<close>

definition boot_chain ::
  "ed25519 \<Rightarrow> env \<Rightarrow> 's chain_store \<Rightarrow> genesis_config \<Rightarrow> string \<Rightarrow> chain_config \<Rightarrow> 's \<Rightarrow> ('s \<times> 's blockchain res) outcome" where
  "boot_chain ed env cs g minerAddress cfg s =
     (case rbind (check_miner minerAddress) (\<lambda>_. rbind (cs_ReadCanonical cs s) (\<lambda>blocks.
             rbind (cs_ReadAllBlocks cs s) (\<lambda>all. Inr (blocks, all)))) of
        Inl e \<Rightarrow> Ret (s, Inl e)
      | Inr (blocks, all) \<Rightarrow>
          (case check_rules env cs (RulesHash (gc_ConsensusParams g)) s of
             (s1, Inl e) \<Rightarrow> Ret (s1, Inl e)
           | (s1, Inr _) \<Rightarrow>
               obind (boot_genesis cs g blocks s1) (\<lambda>(s2, r).
                 case r of
                   Inl e \<Rightarrow> Ret (s2, Inl e)
                 | Inr blocks' \<Rightarrow>
                     boot_finish ed cs cfg ((new_chain g minerAddress cfg s2)\<lparr>bc_blocks := blocks', bc_blocksByHash := all\<rparr>))))"

definition LoadBlockchain ::
  "ed25519 \<Rightarrow> env \<Rightarrow> genesis_decoders \<Rightarrow> (string \<Rightarrow> bytes res) \<Rightarrow> 's chain_store \<Rightarrow> u64 \<Rightarrow> string \<Rightarrow>
     chain_config option \<Rightarrow> 's \<Rightarrow> ('s \<times> 's blockchain res) outcome" where
  "LoadBlockchain ed env gd readFile cs chainID minerAddress cfg s =
     (case boot_config env gd readFile chainID of
        Inl e \<Rightarrow> Ret (s, Inl e)
      | Inr g \<Rightarrow> boot_chain ed env cs g minerAddress (case cfg of None \<Rightarrow> LoadConfig env | Some c \<Rightarrow> c) s)"

subsection \<open>Blocks read from a store\<close>

lemma gput_same: "gget m k = Some v \<Longrightarrow> gput k v m = m"
  by (induction m) (auto simp: gget_def gput_def split: if_splits)

lemma fold_addToIndex_same:
  assumes "\<forall>b \<in> set bs. gget (bc_blocksByHash bc) (block_hex b) = Some b"
  shows "fold addToIndexLocked bs bc = bc"
  using assms by (induction bs) (simp_all add: addToIndexLocked_def gput_same)

text \<open>Every block of a chain whose blocks are all known has its prefix as path.\<close>

lemma walk_back_chain:
  assumes lk: "path_linked bs" and len: "length bs \<le> 2 ^ 64" and known: "\<forall>b \<in> set bs. gget m (block_hex b) = Some b"
    and h: "\<forall>b \<in> set bs. sl (blk_Hash b) \<noteq> []"
  shows "i < length bs \<Longrightarrow> set seen \<inter> block_hex ` set (take (Suc i) bs) = {} \<Longrightarrow> distinct (map block_hex bs) \<Longrightarrow>
     walk_back m seen (block_hex (bs ! i)) = Inr (rev (take (Suc i) bs))"
proof (induction i arbitrary: seen)
  case 0
  have "bs \<noteq> []" "blk_Height (bs ! 0) = 0" using lk by (auto simp: path_linked_def hd_conv_nth)
  moreover have "block_hex (bs ! 0) \<notin> set seen" using 0 by (auto simp: take_Suc_conv_app_nth)
  ultimately show ?case using known by (subst walk_back.simps) (auto simp: take_Suc_conv_app_nth)
next
  case (Suc i)
  have i: "i < length bs" using Suc.prems(1) by simp
  have prev: "hex_encode (sl (blk_PrevHash (bs ! Suc i))) = block_hex (bs ! i)" using lk Suc.prems(1) by (simp add: path_linked_def)
  then have p: "sl (blk_PrevHash (bs ! Suc i)) \<noteq> []" using h i by (auto simp: block_hex_def)
  have "blk_Height (bs ! Suc i) = word_of_nat (Suc i)"
    using arg_cong [OF linked_heights(1) [OF lk len], of "\<lambda>l. l ! Suc i"] Suc.prems(1) by simp
  moreover have "unat (word_of_nat (Suc i) :: u64) = Suc i"
    using Suc.prems(1) len by (simp add: unsigned_of_nat take_bit_nat_eq_self del: of_nat_Suc)
  ultimately have z: "blk_Height (bs ! Suc i) \<noteq> 0" by (metis nat.distinct(1) unsigned_0)
  have tk: "take (Suc (Suc i)) bs = take (Suc i) bs @ [bs ! Suc i]" using Suc.prems(1) by (rule take_Suc_conv_app_nth)
  have fresh: "block_hex (bs ! Suc i) \<notin> block_hex ` set (take (Suc i) bs)"
  proof -
    have "distinct (map block_hex (take (Suc (Suc i)) bs))" using Suc.prems(3) by (simp add: distinct_take flip: take_map)
    then show ?thesis unfolding tk by simp
  qed
  have "set (block_hex (bs ! Suc i) # seen) \<inter> block_hex ` set (take (Suc i) bs) = {}" using Suc.prems(2) fresh unfolding tk by auto
  from Suc.IH [OF i this Suc.prems(3)]
  have "walk_back m (block_hex (bs ! Suc i) # seen) (block_hex (bs ! i)) = Inr (rev (take (Suc i) bs))" .
  moreover have "block_hex (bs ! Suc i) \<notin> set seen" using Suc.prems(2) unfolding tk by auto
  ultimately show ?case using known Suc.prems(1) p z prev unfolding tk by (subst walk_back.simps) simp
qed

lemma chain_work_less:
  assumes "\<forall>b \<in> set (tl bs). blk_DifficultyBits b \<noteq> 0" and "Suc i < length bs"
  shows "chain_work (take (Suc i) bs) < chain_work bs"
proof -
  have w: "chain_work (xs @ ys) = chain_work xs + chain_work ys" for xs ys
    by (induction ys rule: rev_induct) (simp_all add: chain_work_append chain_work_def flip: append_assoc)
  have "drop (Suc i) bs = bs ! Suc i # drop (Suc (Suc i)) bs" using assms(2) by (simp add: Cons_nth_drop_Suc)
  then have "chain_work (drop (Suc i) bs) = WorkForDifficultyBits (blk_DifficultyBits (bs ! Suc i)) + chain_work (drop (Suc (Suc i)) bs)"
    using w [of "[bs ! Suc i]" "drop (Suc (Suc i)) bs"] by (simp add: chain_work_def)
  moreover have "0 < WorkForDifficultyBits (blk_DifficultyBits (bs ! Suc i))" 
    using assms nth_mem [of i "tl bs"] by (intro WorkForDifficultyBits_pos) (simp add: nth_tl)
  ultimately show ?thesis using w [of "take (Suc i) bs" "drop (Suc i) bs"] by simp
qed

text \<open>Maps whose entries are blocks of a chain under their hashes, and maps that hold all of them.\<close>

definition among :: "(string, block) gomap \<Rightarrow> block list \<Rightarrow> bool" where
  "among m bs \<longleftrightarrow> gmap_ok m \<and> (\<forall>(k, b) \<in> set m. b \<in> set bs \<and> k = block_hex b)"

definition knows :: "(string, block) gomap \<Rightarrow> block list \<Rightarrow> bool" where
  "knows m bs \<longleftrightarrow> among m bs \<and> (\<forall>b \<in> set bs. gget m (block_hex b) = Some b)"

definition bodies_of :: "block list \<Rightarrow> (bytes \<times> stored) list \<Rightarrow> bool" where
  "bodies_of bs es \<longleftrightarrow> (\<forall>e \<in> set es. \<exists>b \<in> set bs. e = (sl (blk_Hash b), GobBlock b) \<and> gob_norm b = b)"

lemma amongD: "among m bs \<Longrightarrow> gget m k = Some b \<Longrightarrow> b \<in> set bs \<and> k = block_hex b"
  by (auto simp: among_def dest!: gget_SomeD)

lemma among_gput: "among m bs \<Longrightarrow> b \<in> set bs \<Longrightarrow> among (gput (block_hex b) b m) bs"
  by (auto simp: among_def set_gput)

lemma read_all_ok:
  assumes "bodies_of bs es" and "among out bs"
  shows "\<exists>m. read_all es out = Inr m \<and> among m bs \<and>
     (\<forall>k. k \<in> fst ` set out \<or> k \<in> (\<lambda>e. hex_encode (fst e)) ` set es \<longrightarrow> k \<in> fst ` set m)"
  using assms
proof (induction es arbitrary: out)
  case (Cons e es)
  obtain b where b: "e = (sl (blk_Hash b), GobBlock b)" "b \<in> set bs" "gob_norm b = b" using Cons.prems(1) by (auto simp: bodies_of_def)
  have es: "bodies_of bs es" using Cons.prems(1) by (simp add: bodies_of_def)
  obtain m where m: "read_all es (gput (block_hex b) b out) = Inr m" "among m bs"
    and all: "\<forall>k. k \<in> fst ` set (gput (block_hex b) b out) \<or> k \<in> (\<lambda>e. hex_encode (fst e)) ` set es \<longrightarrow> k \<in> fst ` set m"
    using Cons.IH [OF es among_gput [OF Cons.prems(2) b(2)]] by blast
  have "read_all (e # es) out = Inr m" using m(1) b by (simp add: block_hex_def)
  moreover have "k \<in> fst ` set m" if "k \<in> fst ` set out \<or> k \<in> (\<lambda>e. hex_encode (fst e)) ` set (e # es)" for k
    using all [rule_format, of k] that unfolding keys_gput by (simp add: b(1) block_hex_def disj_ac)
  ultimately show ?case using m(2) by blast
qed simp

lemma read_all_knows:
  assumes laws: "bolt_laws B" and h: "holds B d bs" and dom: "dom (got B d blocksBucket) = (\<lambda>b. sl (blk_Hash b)) ` set bs"
    and norm: "\<forall>b \<in> set bs. gob_norm b = b"
  shows "\<exists>m. store_ReadAllBlocks B d = Inr m \<and> knows m bs"
proof -
  have ent: "(k, v) \<in> set (bk_Entries B blocksBucket d) \<longleftrightarrow> got B d blocksBucket k = Some v" for k v
    using laws unfolding bolt_laws_def order_law_def by meson
  have bl: "got B d blocksBucket (sl (blk_Hash b)) = Some (GobBlock b)" if "b \<in> set bs" for b using h that by (simp add: holds_def)
  have "bodies_of bs (bk_Entries B blocksBucket d)" unfolding bodies_of_def
  proof clarify
    fix k v assume "(k, v) \<in> set (bk_Entries B blocksBucket d)"
    then have kv: "got B d blocksBucket k = Some v" by (simp only: ent)
    then obtain b where b: "b \<in> set bs" "k = sl (blk_Hash b)" using dom by blast
    then show "\<exists>b \<in> set bs. (k, v) = (sl (blk_Hash b), GobBlock b) \<and> gob_norm b = b" using bl [OF b(1)] kv norm by auto
  qed
  moreover have "among [] bs" by (simp add: among_def gmap_ok_def)
  ultimately obtain m where m: "read_all (bk_Entries B blocksBucket d) [] = Inr m" "among m bs"
    and all: "\<forall>k. k \<in> fst ` set ([] :: (string \<times> block) list) \<or> k \<in> (\<lambda>e. hex_encode (fst e)) ` set (bk_Entries B blocksBucket d) \<longrightarrow> k \<in> fst ` set m"
    using read_all_ok by blast
  have "gget m (block_hex b) = Some b" if b: "b \<in> set bs" for b
  proof -
    have "(sl (blk_Hash b), GobBlock b) \<in> set (bk_Entries B blocksBucket d)" using bl [OF b] by (simp only: ent)
    then have "block_hex b \<in> (\<lambda>e. hex_encode (fst e)) ` set (bk_Entries B blocksBucket d)" unfolding block_hex_def by (rule rev_image_eqI) simp
    then have "block_hex b \<in> fst ` set m" by (intro all [rule_format] disjI2)
    then have "gget m (block_hex b) \<noteq> None" by (simp only: gget_None_iff not_not)
    then obtain b' where b': "gget m (block_hex b) = Some b'" by (cases "gget m (block_hex b)") simp_all
    note in_bs = amongD [OF m(2) b']
    have "sl (blk_Hash b) = sl (blk_Hash b')" using conjunct2 [OF in_bs] unfolding block_hex_def hex_encode_inj .
    then have "Some (GobBlock b') = Some (GobBlock b)" using bl [OF b] bl [OF conjunct1 [OF in_bs]] by (simp only:)
    then show ?thesis using b' by simp
  qed
  then show ?thesis using m by (auto simp: store_ReadAllBlocks_def knows_def)
qed

lemma knows_chain_ok:
  assumes k: "knows (bc_blocksByHash bc) (bc_blocks bc)" and lk: "path_linked (bc_blocks bc)" and len: "length (bc_blocks bc) \<le> 2 ^ 64"
    and h: "\<forall>b \<in> set (bc_blocks bc). sl (blk_Hash b) \<noteq> []" and w: "\<forall>b \<in> set (tl (bc_blocks bc)). blk_DifficultyBits b \<noteq> 0"
    and rest: "replays ed (bc_consensus bc) (bc_blocks bc) (bc_state bc)" "bc_canonicalWork bc = chain_work (bc_blocks bc)"
      "bc_bestTipHash bc = block_hex (last (bc_blocks bc))" "bc_txIndex bc = tx_index (bc_consensus bc) (bc_blocks bc)"
      "bc_addressIndex bc = address_index (bc_consensus bc) (bc_blocks bc)"
  shows "chain_ok ed bc"
proof -
  let ?m = "bc_blocksByHash bc" and ?bs = "bc_blocks bc"
  have kn: "\<forall>b \<in> set ?bs. gget ?m (block_hex b) = Some b" and am: "among ?m ?bs" using k by (simp_all add: knows_def)
  have "inj_on block_hex (set ?bs)" using kn by (intro inj_onI) (metis option.inject)
  then have dis: "distinct (map block_hex ?bs)" using path_linked_distinct [OF lk len] by (simp add: distinct_map)
  have path: "path_to ?m (block_hex (?bs ! i)) = Some (take (Suc i) ?bs)" if "i < length ?bs" for i
    using walk_back_chain [OF lk len kn h that, of "[]"] dis by (simp add: path_to_def)
  have ne: "?bs \<noteq> []" using lk by (simp add: path_linked_def)
  then have tip: "last ?bs = ?bs ! (length ?bs - 1)" by (rule last_conv_nth)
  have "best_known ?m (chain_work ?bs) (block_hex (last ?bs))" unfolding best_known_def
  proof clarify
    fix k b assume kb: "(k, b) \<in> set ?m"
    have "b \<in> set ?bs \<and> k = block_hex b" using am [unfolded among_def, THEN conjunct2, rule_format, OF kb] by (simp only: prod.case)
    then obtain i where i: "i < length ?bs" "k = block_hex (?bs ! i)" by (elim conjE in_set_conv_nth [THEN iffD1, THEN exE]) (simp only:)
    have "\<not> better_tip (chain_work (take (Suc i) ?bs)) k (chain_work ?bs) (block_hex (last ?bs))"
    proof (cases "Suc i < length ?bs")
      case True
      then show ?thesis using chain_work_less [OF w True] by (simp add: better_tip_def)
    next
      case False
      then have "i = length ?bs - 1" using i(1) by linarith
      then show ?thesis using i(2) tip by (simp add: better_tip_def)
    qed
    then show "\<exists>path. path_to ?m k = Some path \<and> \<not> better_tip (chain_work path) k (chain_work ?bs) (block_hex (last ?bs))"
      using path [OF i(1)] i(2) by (intro exI [of _ "take (Suc i) ?bs"]) (simp only: simp_thms)
  qed
  moreover have "path_to ?m (block_hex (last ?bs)) = Some ?bs" using path [of "length ?bs - 1"] ne unfolding tip by simp
  moreover have "indexed_by_hash ?m" using k by (auto simp: knows_def among_def indexed_by_hash_def)
  ultimately show ?thesis using lk rest by (simp add: chain_ok_def)
qed

subsection \<open>Loading a stored chain\<close>

lemma replay_block_ok:
  "run_all (applyBlockToState ed p) bs st = (st', Inr ()) \<Longrightarrow> run_all (replay_block ed p) bs st = (st', Inr ())"
  by (induction bs arbitrary: st) (auto simp: replay_block_def split: prod.splits sum.splits)

lemma BoltChainStore_sel [simp]:
  "cs_ReadCanonical (BoltChainStore B) = store_ReadCanonical B" "cs_AppendCanonical (BoltChainStore B) = store_AppendCanonical B"
  "cs_PutBlock (BoltChainStore B) = store_PutBlock B" "cs_ReadAllBlocks (BoltChainStore B) = store_ReadAllBlocks B"
  "cs_GetRulesHash (BoltChainStore B) = store_GetRulesHash B" "cs_PutRulesHash (BoltChainStore B) = store_PutRulesHash B"
  "cs_GetGenesisHash (BoltChainStore B) = store_GetGenesisHash B" "cs_PutGenesisHash (BoltChainStore B) = store_PutGenesisHash B"
  "cs_GetCheckpointHeights (BoltChainStore B) = store_GetCheckpointHeights B"
  by (simp_all add: BoltChainStore_def)

text \<open>What the store holds besides the blocks once a node has started: the hashes of rules and genesis block, no checkpoint.\<close>

definition booted :: "'d bolt \<Rightarrow> 'd \<Rightarrow> bytes \<Rightarrow> bytes \<Rightarrow> bool" where
  "booted B d rules genesis \<longleftrightarrow> got B d metaBucket metaRulesHash = Some (Raw rules) \<and>
     got B d metaBucket metaGenesisHash = Some (Raw genesis) \<and> got B d checkpointsBucket = Map.empty"

lemma no_checkpoints:
  assumes "bolt_laws B" and "got B d checkpointsBucket = Map.empty"
  shows "store_GetCheckpointHeights B d = Inr []"
proof -
  have "bk_Entries B checkpointsBucket d = []" by (rule entries_eq [OF assms(1)]) (simp_all add: assms(2))
  then show ?thesis by (simp add: store_GetCheckpointHeights_def sortInts_def)
qed

lemma length_RulesHash [simp]: "length (RulesHash p) = 32"
  by (simp add: RulesHash_def)

lemma fold_work: "fold (\<lambda>b w. w + WorkForDifficultyBits (blk_DifficultyBits b)) bs n = n + chain_work bs"
  by (induction bs arbitrary: n) (simp_all add: chain_work_def)

text \<open>The node that results from its canonical blocks, their state and the map of known blocks.\<close>

definition loaded :: "block list \<Rightarrow> 's \<Rightarrow> ledger \<Rightarrow> (string, block) gomap \<Rightarrow> 's blockchain \<Rightarrow> 's blockchain" where
  "loaded bs s st m bc = bc\<lparr>bc_blocks := bs, bc_store := s, bc_state := st, bc_blocksByHash := m,
     bc_bestTipHash := block_hex (last bs), bc_txIndex := tx_index (bc_consensus bc) bs,
     bc_addressIndex := address_index (bc_consensus bc) bs, bc_canonicalWork := chain_work bs\<rparr>"

lemma boot_finish_ok:
  assumes blocks: "bc_blocks bc = b # bs" and eh: "ensureBlockHash b (bc_consensus bc) = Inr (gh, b)"
    and chk: "check_genesis_hash cs gh (bc_store bc) = (s1, Inr ())" and cp: "cs_GetCheckpointHeights cs s1 = Inr []"
    and rp: "replays ed (bc_consensus bc) (b # bs) st"
    and kn: "fold addToIndexLocked (b # bs) (bc\<lparr>bc_blocks := b # bs, bc_store := s1, bc_state := st\<rparr>) =
      bc\<lparr>bc_blocks := b # bs, bc_store := s1, bc_state := st, bc_blocksByHash := m\<rparr>"
  shows "boot_finish ed cs cfg bc = Ret (s1, Inr (loaded (b # bs) s1 st m bc))"
proof -
  have "recomputeStateLocked ed cs cfg (bc\<lparr>bc_blocks := b # bs, bc_store := s1\<rparr>) =
      (bc\<lparr>bc_blocks := b # bs, bc_store := s1, bc_state := st\<rparr>, Inr ())"
    using replay_block_ok [OF rp [unfolded replays_def]] by (simp add: recomputeStateLocked_def cp Let_def del: run_all.simps)
  moreover have "initCanonicalIndexesLocked (bc\<lparr>bc_blocks := b # bs, bc_store := s1, bc_state := st\<rparr>) = Ret (loaded (b # bs) s1 st m bc)"
    using kn by (simp add: initCanonicalIndexesLocked_def loaded_def Let_def reindexAllTxsLocked_eq reindexAllAddressTxsLocked_eq fold_work
        del: fold.simps)
  ultimately show ?thesis by (simp add: boot_finish_def blocks eh chk)
qed

lemma meta_key_neq [simp]:
  "metaRulesHash \<noteq> metaTipHash" "metaRulesHash \<noteq> metaTipHeight" "metaGenesisHash \<noteq> metaTipHash" "metaGenesisHash \<noteq> metaTipHeight"
  "metaRulesHash \<noteq> metaGenesisHash" "metaGenesisHash \<noteq> metaRulesHash" "metaRulesHash \<noteq> []" "metaGenesisHash \<noteq> []"
  "length metaRulesHash \<le> 32768" "length metaGenesisHash \<le> 32768"
  by (simp_all add: metaRulesHash_def metaGenesisHash_def metaTipHash_def metaTipHeight_def bytes_of_string_def)

lemma load_stored:
  fixes ed env miner cfg g
  defines "p \<equiv> gc_ConsensusParams g"
  assumes laws: "bolt_laws B" and miner: "check_miner miner = Inr ()"
    and h: "holds B d (b # bs)" and norm: "\<forall>x \<in> set (b # bs). gob_norm x = x"
    and dom: "dom (got B d blocksBucket) = (\<lambda>x. sl (blk_Hash x)) ` set (b # bs)"
    and gen: "ValidateGenesisBlock b g p = Inr b" "ensureBlockHash b p = Inr (gh, b)" "gh \<noteq> []"
    and booted: "booted B d (RulesHash p) gh" and rp: "replays ed p (b # bs) st"
  shows "\<exists>m. knows m (b # bs) \<and> boot_chain ed env (BoltChainStore B) g miner cfg d =
     Ret (d, Inr (loaded (b # bs) d st m (new_chain g miner cfg d)))"
proof -
  obtain m where m: "store_ReadAllBlocks B d = Inr m" "knows m (b # bs)" using read_all_knows [OF laws h dom norm] by blast
  have rd: "store_ReadCanonical B d = Inr (b # bs)"
    using holds_read [OF laws h] norm by (simp add: map_idI)
  have meta: "store_GetRulesHash B d = Inr (Some (RulesHash p))" "store_GetGenesisHash B d = Inr (Some gh)"
    using booted gen(3) length_RulesHash [of p]
    by (auto simp: store_GetRulesHash_def store_GetGenesisHash_def get_meta_def booted_def bk_Get_got simp del: length_RulesHash)
  have chk: "check_rules env (BoltChainStore B) (RulesHash p) d = (d, Inr ())" "check_genesis_hash (BoltChainStore B) gh d = (d, Inr ())"
    by (simp_all add: check_rules_def check_genesis_hash_def meta)
  let ?nc = "(new_chain g miner cfg d)\<lparr>bc_blocks := b # bs, bc_blocksByHash := m\<rparr>"
  have kn: "\<forall>x \<in> set (b # bs). gget m (block_hex x) = Some x" using m(2) unfolding knows_def by (rule conjunct2)
  have "fold addToIndexLocked (b # bs) (?nc\<lparr>bc_blocks := b # bs, bc_store := d, bc_state := st\<rparr>) =
      ?nc\<lparr>bc_blocks := b # bs, bc_store := d, bc_state := st\<rparr>"
    by (rule fold_addToIndex_same) (use kn in simp)
  then have fin: "boot_finish ed (BoltChainStore B) cfg ?nc = Ret (d, Inr (loaded (b # bs) d st m ?nc))"
    using gen(2) chk(2) no_checkpoints [OF laws] booted rp
    by (intro boot_finish_ok) (simp_all add: new_chain_def p_def booted_def del: fold.simps)
  have "boot_genesis (BoltChainStore B) g (b # bs) d = Ret (d, Inr (b # bs))"
    using gen(1) by (simp add: boot_genesis_def p_def)
  then have "boot_chain ed env (BoltChainStore B) g miner cfg d = boot_finish ed (BoltChainStore B) cfg ?nc"
    using miner rd m(1) chk(1) by (simp add: boot_chain_def p_def)
  moreover have "loaded (b # bs) d st m ?nc = loaded (b # bs) d st m (new_chain g miner cfg d)"
    by (simp add: loaded_def new_chain_def)
  ultimately show ?thesis using fin m(2) by auto
qed

text \<open>A fresh database and the block the node writes to it.\<close>

definition fresh :: "'d bolt \<Rightarrow> 'd \<Rightarrow> bool" where
  "fresh B d \<longleftrightarrow> (\<forall>bk. got B d bk = Map.empty)"

lemma built_genesis:
  assumes "BuildGenesisBlock g p = Some (Inr b)"
  obtains h where "blk_Hash b = Some h" and "length h = 32" and "blk_Height b = 0" and "gob_norm b = b"
    and "ensureBlockHash b p = Inr (h, b)" and "ValidateGenesisBlock b g p = Inr b"
proof -
  obtain k h where run: "pow_Run p (genesis_template g p) = Some (Inr (k, h))"
    and b: "b = (genesis_template g p)\<lparr>blk_Nonce := k, blk_Hash := Some h\<rparr>"
    using genesis_header_nonce [OF assms] by blast
  obtain header where hd: "HeaderBytesForConsensus p (genesis_template g p) k = Inr header" "h = sha256 header"
    using run by (auto simp: pow_Run_Inr_iff)
  have len: "length h = 32" by (simp add: hd(2))
  have "pow_Validate p b = Inr True" unfolding b by (rule mined_block_valid [OF run])
  moreover have e: "ensureBlockHash b p = Inr (h, b)"
    using header_stable [OF hd(1), of h k] hd(2) by (simp add: b ensureBlockHash_def)
  ultimately have "ValidateGenesisBlock b g p = Inr b"
    by (simp add: b ValidateGenesisBlock_def genesis_template_def genesis_coinbase_def)
  moreover have "gob_norm b = b"
    using len by (auto simp: b gob_norm_def gob_slice_def gob_tx_def genesis_template_def genesis_coinbase_def)
  ultimately show thesis using e len by (intro that [of h]) (simp_all add: b genesis_template_def)
qed

lemma put_meta:
  assumes "bolt_laws B" and "\<forall>d. bk_Commit B d = Inr ()" and "length h = 32"
  shows "\<exists>d'. store_PutRulesHash B h d = (d', Inr ()) \<and> got B d' = (got B d)(metaBucket := (got B d metaBucket)(metaRulesHash \<mapsto> Raw h))"
    and "\<exists>d'. store_PutGenesisHash B h d = (d', Inr ()) \<and> got B d' = (got B d)(metaBucket := (got B d metaBucket)(metaGenesisHash \<mapsto> Raw h))"
proof -
  obtain d1 where "bk_Put B metaBucket metaRulesHash (Raw h) d = (d1, Inr ())" "got B d1 = (got B d)(metaBucket := (got B d metaBucket)(metaRulesHash \<mapsto> Raw h))"
    by (rule put_ok [OF assms(1), of metaRulesHash metaBucket "Raw h" d]) simp_all
  then show "\<exists>d'. store_PutRulesHash B h d = (d', Inr ()) \<and> got B d' = (got B d)(metaBucket := (got B d metaBucket)(metaRulesHash \<mapsto> Raw h))"
    using assms(2,3) by (simp add: store_PutRulesHash_def db_Update_def)
  obtain d2 where "bk_Put B metaBucket metaGenesisHash (Raw h) d = (d2, Inr ())" "got B d2 = (got B d)(metaBucket := (got B d metaBucket)(metaGenesisHash \<mapsto> Raw h))"
    by (rule put_ok [OF assms(1), of metaGenesisHash metaBucket "Raw h" d]) simp_all
  then show "\<exists>d'. store_PutGenesisHash B h d = (d', Inr ()) \<and> got B d' = (got B d)(metaBucket := (got B d metaBucket)(metaGenesisHash \<mapsto> Raw h))"
    using assms(2,3) by (simp add: store_PutGenesisHash_def db_Update_def)
qed

lemma first_boot:
  fixes ed env miner cfg g
  defines "p \<equiv> gc_ConsensusParams g"
  assumes laws: "bolt_laws B" and commit: "\<forall>d. bk_Commit B d = Inr ()" and fresh: "fresh B d"
    and miner: "check_miner miner = Inr ()"
    and build: "BuildGenesisBlock g p = Some (Inr b)" and rp: "replays ed p [b] st"
  shows "\<exists>d' m. boot_chain ed env (BoltChainStore B) g miner cfg d =
       Ret (d', Inr (loaded [b] d' st m (new_chain g miner cfg d'))) \<and> knows m [b] \<and> holds B d' [b] \<and>
       booted B d' (RulesHash p) (sl (blk_Hash b)) \<and> got B d' blocksBucket = [sl (blk_Hash b) \<mapsto> GobBlock b]"
proof -
  obtain h where h: "blk_Hash b = Some h" "length h = 32" and b: "blk_Height b = 0" "ensureBlockHash b p = Inr (h, b)"
    by (rule built_genesis [OF build]) blast
  have ne: "h \<noteq> []" using h(2) by auto
  have read: "store_ReadCanonical B d = Inr []" "store_ReadAllBlocks B d = Inr []"
    using entries_eq [OF laws, of "[]" d] fresh by (simp_all add: store_ReadCanonical_def store_ReadAllBlocks_def fresh_def)
  obtain d1 where d1: "store_PutRulesHash B (RulesHash p) d = (d1, Inr ())"
    "got B d1 = (got B d)(metaBucket := (got B d metaBucket)(metaRulesHash \<mapsto> Raw (RulesHash p)))"
    using put_meta(1) [OF laws commit] length_RulesHash by blast
  have "store_GetRulesHash B d = Inr None" using fresh by (simp add: store_GetRulesHash_def get_meta_def bk_Get_got fresh_def)
  then have rules: "check_rules env (BoltChainStore B) (RulesHash p) d = (d1, Inr ())" using d1(1) by (simp add: check_rules_def)
  have hold: "holds B d1 []" using fresh by (simp add: holds_def d1(2) fresh_def)
  have w: "writable b" using h ne by (simp add: writable_def)
  obtain d2 where d2: "store_AppendCanonical B b d1 = (d2, Inr ())" "holds B d2 [b]" "same_rest B d1 d2"
    "got B d2 blocksBucket = [sl (blk_Hash b) \<mapsto> GobBlock b]"
    using append_holds [OF laws hold w _ _ commit] b(1) fresh by (auto simp: d1(2) fresh_def)
  have put: "store_PutBlock B b d2 = (d2, Inr ())"
    using h ne commit by (simp add: store_PutBlock_def put_if_absent_def db_Update_def bk_Get_got d2(4))
  have gen: "boot_genesis (BoltChainStore B) g [] d1 = Ret (d2, Inr [b])"
    using build d2(1) put by (simp add: boot_genesis_def p_def)
  obtain d3 where d3: "store_PutGenesisHash B h d2 = (d3, Inr ())"
    "got B d3 = (got B d2)(metaBucket := (got B d2 metaBucket)(metaGenesisHash \<mapsto> Raw h))"
    using put_meta(2) [OF laws commit h(2)] by blast
  have "got B d2 metaBucket metaGenesisHash = None" "got B d2 metaBucket metaRulesHash = Some (Raw (RulesHash p))"
    "got B d2 checkpointsBucket = Map.empty"
    using d2(3) fresh by (simp_all add: same_rest_def d1(2) fresh_def)
  then have boot: "booted B d3 (RulesHash p) h" and "store_GetGenesisHash B d2 = Inr None"
    by (simp_all add: booted_def d3(2) store_GetGenesisHash_def get_meta_def bk_Get_got)
  then have ghash: "check_genesis_hash (BoltChainStore B) h d2 = (d3, Inr ())" using d3(1) by (simp add: check_genesis_hash_def)
  have fin: "boot_finish ed (BoltChainStore B) cfg ((new_chain g miner cfg d2)\<lparr>bc_blocks := [b], bc_blocksByHash := []\<rparr>) =
      Ret (d3, Inr (loaded [b] d3 st [(block_hex b, b)] ((new_chain g miner cfg d2)\<lparr>bc_blocks := [b], bc_blocksByHash := []\<rparr>)))"
    using b(2) ghash no_checkpoints [OF laws] boot rp h ne
    by (intro boot_finish_ok) (simp_all add: new_chain_def p_def booted_def addToIndexLocked_def gput_def)
  have "boot_chain ed env (BoltChainStore B) g miner cfg d =
      Ret (d3, Inr (loaded [b] d3 st [(block_hex b, b)] ((new_chain g miner cfg d2)\<lparr>bc_blocks := [b], bc_blocksByHash := []\<rparr>)))"
    using miner read rules gen fin by (simp add: boot_chain_def p_def)
  moreover have "loaded [b] d3 st [(block_hex b, b)] ((new_chain g miner cfg d2)\<lparr>bc_blocks := [b], bc_blocksByHash := []\<rparr>) =
      loaded [b] d3 st [(block_hex b, b)] (new_chain g miner cfg d3)" by (simp add: loaded_def new_chain_def)
  moreover have "holds B d3 [b]" "got B d3 blocksBucket = [sl (blk_Hash b) \<mapsto> GobBlock b]" using d2 by (simp_all add: holds_def d3(2))
  moreover have "knows [(block_hex b, b)] [b]" by (simp add: knows_def among_def gmap_ok_def gget_Cons)
  ultimately show ?thesis using boot h(1) by auto
qed

subsection \<open>Properties\<close>

lemma loaded_ok:
  assumes "knows m bs" and "path_linked bs" and "length bs \<le> 2 ^ 64" and "\<forall>x \<in> set bs. sl (blk_Hash x) \<noteq> []"
    and "\<forall>x \<in> set (tl bs). blk_DifficultyBits x \<noteq> 0" and "replays ed (bc_consensus bc) bs st"
  shows "chain_ok ed (loaded bs s st m bc)"
  using assms by (intro knows_chain_ok) (simp_all add: loaded_def)

lemma gen_no_conflict:
  assumes "distinct (map (\<lambda>x. sl (blk_Hash x)) (b # cs))"
  shows "no_conflict [sl (blk_Hash b) \<mapsto> GobBlock b] cs"
proof -
  have new: "sl (blk_Hash b) \<notin> (\<lambda>x. sl (blk_Hash x)) ` set cs" and inj: "inj_on (\<lambda>x. sl (blk_Hash x)) (set cs)"
    using assms by (simp_all add: distinct_map)
  show ?thesis unfolding no_conflict_def
  proof (intro ballI conjI impI)
    fix x assume x: "x \<in> set cs"
    have "sl (blk_Hash x) \<noteq> sl (blk_Hash b)"
    proof
      assume "sl (blk_Hash x) = sl (blk_Hash b)"
      then have "sl (blk_Hash b) \<in> (\<lambda>x. sl (blk_Hash x)) ` set cs" using x by (intro image_eqI [of _ _ x]) simp_all
      then show False using new by contradiction
    qed
    then show "[sl (blk_Hash b) \<mapsto> GobBlock b] (sl (blk_Hash x)) = None \<or> [sl (blk_Hash b) \<mapsto> GobBlock b] (sl (blk_Hash x)) = Some (GobBlock x)"
      by simp
    fix y assume "y \<in> set cs" "sl (blk_Hash y) = sl (blk_Hash x)"
    then show "y = x" using x by (intro inj_onD [OF inj])
  qed
qed

text \<open>C5. A node that is started on an empty database, stores blocks that extend its chain, and is started again has
  the same chain: both starts succeed, and the second node has the genesis block and the appended blocks as its canonical chain, their
  replay as its state, and satisfies the chain invariant with its tip, work and indexes.\<close>

theorem restart_restores_chain:
  fixes ed env miner cfg g
  defines "p \<equiv> gc_ConsensusParams g"
  assumes laws: "bolt_laws B" and commit: "\<forall>d. bk_Commit B d = Inr ()" and fresh: "fresh B d" and miner: "check_miner miner = Inr ()"
    and build: "BuildGenesisBlock g p = Some (Inr b)" and chain: "path_linked (b # cs)" "length (b # cs) \<le> 2 ^ 64"
    and new: "\<forall>x \<in> set cs. writable x \<and> gob_norm x = x \<and> blk_DifficultyBits x \<noteq> 0"
    and dist: "distinct (map (\<lambda>x. sl (blk_Hash x)) (b # cs))" and rp: "replays ed p (b # cs) st"
  shows "\<exists>d1 bc1 d2 bc2. boot_chain ed env (BoltChainStore B) g miner cfg d = Ret (d1, Inr bc1) \<and> bc_blocks bc1 = [b] \<and> chain_ok ed bc1 \<and>
     run_all (store_AppendCanonical B) cs d1 = (d2, Inr ()) \<and>
     boot_chain ed env (BoltChainStore B) g miner cfg d2 = Ret (d2, Inr bc2) \<and>
     bc_blocks bc2 = b # cs \<and> bc_state bc2 = st \<and> chain_ok ed bc2"
proof -
  obtain h where b: "blk_Hash b = Some h" "length h = 32" "blk_Height b = 0" "gob_norm b = b"
    "ensureBlockHash b p = Inr (h, b)" "ValidateGenesisBlock b g p = Inr b"
    by (rule built_genesis [OF build]) blast
  have ne: "h \<noteq> []" using b(2) by auto
  obtain st0 where st0: "replays ed p [b] st0"
    using rp by (auto simp: replays_def split: prod.splits sum.splits)
  obtain d1 m1 where d1: "boot_chain ed env (BoltChainStore B) g miner cfg d = Ret (d1, Inr (loaded [b] d1 st0 m1 (new_chain g miner cfg d1)))"
    "knows m1 [b]" "holds B d1 [b]" "booted B d1 (RulesHash p) h" "got B d1 blocksBucket = [sl (blk_Hash b) \<mapsto> GobBlock b]"
    using first_boot [OF laws commit fresh miner, of g b ed st0 env cfg] build st0 b(1) unfolding p_def by auto
  have chain': "path_linked ([b] @ cs)" "length ([b] @ cs) \<le> 2 ^ 64" using chain by simp_all
  have nc: "no_conflict (got B d1 blocksBucket) cs" unfolding d1(5) by (rule gen_no_conflict [OF dist])
  have w: "\<forall>x \<in> set cs. writable x" using new by simp
  obtain d2 where d2: "run_all (store_AppendCanonical B) cs d1 = (d2, Inr ())" "holds B d2 ([b] @ cs)" "same_rest B d1 d2"
    "dom (got B d2 blocksBucket) = dom (got B d1 blocksBucket) \<union> (\<lambda>x. sl (blk_Hash x)) ` set cs"
    using append_all_holds [OF laws commit chain' d1(3) _ w nc] by blast
  have boot2: "booted B d2 (RulesHash p) h" using d1(4) d2(3) by (simp add: booted_def same_rest_def)
  have dom2: "dom (got B d2 blocksBucket) = (\<lambda>x. sl (blk_Hash x)) ` set (b # cs)" using d2(4) by (simp add: d1(5))
  have hold2: "holds B d2 (b # cs)" using d2(2) by simp
  have norm: "\<forall>x \<in> set (b # cs). gob_norm x = x" using new b(4) by simp
  obtain m2 where m2: "knows m2 (b # cs)"
    "boot_chain ed env (BoltChainStore B) g miner cfg d2 = Ret (d2, Inr (loaded (b # cs) d2 st m2 (new_chain g miner cfg d2)))"
    using load_stored [OF laws miner hold2 norm dom2, of g h ed st env cfg] b(5,6) ne boot2 rp unfolding p_def by blast
  have p_bc: "bc_consensus (new_chain g miner cfg s) = p" for s by (simp add: new_chain_def p_def)
  have hs: "\<forall>x \<in> set (b # cs). sl (blk_Hash x) \<noteq> []" using new b(1) ne by (simp add: writable_def)
  have "chain_ok ed (loaded [b] d1 st0 m1 (new_chain g miner cfg d1))"
    using d1(2) b(3) hs st0 by (intro loaded_ok) (simp_all add: path_linked_def p_bc)
  moreover have "chain_ok ed (loaded (b # cs) d2 st m2 (new_chain g miner cfg d2))"
    using m2(1) chain hs new rp by (intro loaded_ok) (simp_all add: p_bc)
  ultimately show ?thesis using d1(1) d2(1) m2(2) by (auto simp: loaded_def)
qed

definition boot_demo :: genesis_config where
  "boot_demo = easy_config\<lparr>gc_ConsensusParams := bits0_params\<rparr>"

lemma boot_demo_params [simp]: "gc_ConsensusParams boot_demo = bits0_params"
  by (simp add: boot_demo_def)

lemma boot_demo_builds: "\<exists>b. BuildGenesisBlock boot_demo bits0_params = Some (Inr b)"
proof -
  let ?t = "genesis_template boot_demo bits0_params"
  obtain header where hd: "HeaderBytesForConsensus bits0_params ?t 0 = Inr header"
    by (auto simp: HeaderBytesForConsensus_def BinaryEncodingActive_def bits0_params_def roomy_params_def smoke_params_def
        TxRootLegacyForConsensus_def genesis_template_def txSigningHashForConsensus_def
        signingHashLegacyJSON_def genesis_coinbase_def blockVersionForHeight_def)
  have "blk_DifficultyBits ?t = 0" by (simp add: genesis_template_def bits0_params_def)
  from pow_meets_zero_bits [OF this hd] hd
  have "pow_Run bits0_params ?t = Some (Inr (0, sha256 header))" by (simp add: pow_Run_Inr_iff)
  then show ?thesis by (simp add: BuildGenesisBlock_def)
qed

lemma boot_demo_replays:
  assumes "BuildGenesisBlock boot_demo bits0_params = Some (Inr b)"
  shows "\<exists>st. replays (\<lambda>_ _ _. True) bits0_params [b, reward_at 1 (sl (blk_Hash b)) [8]] st"
proof -
  obtain k h where b: "b = (genesis_template boot_demo bits0_params)\<lparr>blk_Nonce := k, blk_Hash := Some h\<rparr>"
    using genesis_header_nonce [OF assms] by blast
  have "\<exists>st. applyBlockToState (\<lambda>_ _ _. True) bits0_params b [] = (st, Inr ())"
    by (simp add: b applyBlockToState_def bits0_params_def roomy_params_def smoke_params_def genesis_template_def genesis_coinbase_def
        apply_tx_def VerifyForConsensus_def Verify_def verify_coinbase_def Let_def boot_demo_def easy_config_def mainnet_config_def)
  then obtain st where st: "applyBlockToState (\<lambda>_ _ _. True) bits0_params b [] = (st, Inr ())" by blast
  have "\<exists>st'. applyBlockToState (\<lambda>_ _ _. True) bits0_params (reward_at 1 (sl (blk_Hash b)) [8]) st = (st', Inr ())"
    by (auto simp: applyBlockToState_def reward_at_def reward_block_def demo_block_def bits0_params_def roomy_params_def smoke_params_def
        block_fees_def BlockReward_def MinerFeeAmount_def apply_tx_def VerifyForConsensus_def Verify_def verify_coinbase_def Let_def)
  with st show ?thesis by (auto simp: replays_def)
qed

theorem restart_restores_chain_w:
  "\<exists>b d1 bc1 d2 bc2. boot_chain (\<lambda>_ _ _. True) (\<lambda>_. []) (BoltChainStore mem_bolt) boot_demo [] (LoadConfig (\<lambda>_. [])) [] = Ret (d1, Inr bc1) \<and>
     bc_blocks bc1 = [b] \<and> chain_ok (\<lambda>_ _ _. True) bc1 \<and>
     run_all (store_AppendCanonical mem_bolt) [reward_at 1 (sl (blk_Hash b)) [8]] d1 = (d2, Inr ()) \<and>
     boot_chain (\<lambda>_ _ _. True) (\<lambda>_. []) (BoltChainStore mem_bolt) boot_demo [] (LoadConfig (\<lambda>_. [])) d2 = Ret (d2, Inr bc2) \<and>
     bc_blocks bc2 = [b, reward_at 1 (sl (blk_Hash b)) [8]] \<and> chain_ok (\<lambda>_ _ _. True) bc2"
proof -
  obtain b where b: "BuildGenesisBlock boot_demo bits0_params = Some (Inr b)" using boot_demo_builds by blast
  obtain h where h: "blk_Hash b = Some h" "length h = 32" "blk_Height b = 0" by (rule built_genesis [OF b]) blast
  obtain st where st: "replays (\<lambda>_ _ _. True) bits0_params [b, reward_at 1 (sl (blk_Hash b)) [8]] st" using boot_demo_replays [OF b] by blast
  have "path_linked [b, reward_at 1 (sl (blk_Hash b)) [8]]" using h by (simp add: path_linked_def block_hex_def)
  moreover have "distinct (map (\<lambda>x. sl (blk_Hash x)) [b, reward_at 1 (sl (blk_Hash b)) [8]])" using h by (auto simp: reward_at_def)
  moreover have "\<forall>x \<in> set [reward_at 1 (sl (blk_Hash b)) [8]]. writable x \<and> gob_norm x = x \<and> blk_DifficultyBits x \<noteq> 0"
    using h by (auto simp: writable_def reward_at_def gob_norm_def gob_slice_def gob_tx_def reward_block_def demo_block_def)
  moreover have "fresh mem_bolt []" by (simp add: fresh_def got_def mem_bolt_def fun_eq_iff)
  moreover have "\<forall>d. bk_Commit mem_bolt d = Inr ()" by (simp add: mem_bolt_def)
  moreover have "check_miner [] = Inr ()" by (simp add: check_miner_def)
  ultimately show ?thesis
    using restart_restores_chain [OF mem_bolt_laws, where g = boot_demo and b = b and cs = "[reward_at 1 (sl (blk_Hash b)) [8]]" and
        d = "[]" and miner = "[]" and ed = "\<lambda>_ _ _. True" and env = "\<lambda>_. []" and cfg = "LoadConfig (\<lambda>_. [])" and st = st] b st
    by simp blast
qed

lemma not_genesis_refused:
  assumes "cs_ReadCanonical cs s = Inr (b # bs)" and "blk_Height b \<noteq> 0"
  shows "boot_chain ed env cs g miner cfg s \<noteq> Ret (s', Inr bc)"
  using assms by (simp add: boot_chain_def boot_genesis_def ValidateGenesisBlock_def rbind_def split: sum.splits prod.splits)

text \<open>C31. A node that prunes its store cannot be started again: after \<^verbatim>\<open>PruneBelow\<close> at a positive height that leaves a block, the first stored block is
  not the genesis block, and loading ends with an error whatever the environment, the genesis file and the settings.\<close>

theorem pruned_store_cannot_restart:
  assumes laws: "bolt_laws B" and commit: "\<forall>d. bk_Commit B d = Inr ()" and h: "holds B d bs"
    and small: "\<forall>b \<in> set bs. blk_Height b < 2 ^ 63" and dist: "distinct (map (\<lambda>b. sl (blk_Hash b)) bs)"
    and height: "0 < height" "b \<in> set bs" "height \<le> int64_of (blk_Height b)"
  shows "\<exists>d'. store_PruneBelow B height d = (d', Inr ()) \<and>
     (\<forall>ed env gd rf cid miner cfg s bc. LoadBlockchain ed env gd rf (BoltChainStore B) cid miner cfg d' \<noteq> Ret (s, Inr bc))"
proof -
  let ?high = "filter (\<lambda>b. height \<le> int64_of (blk_Height b)) bs"
  obtain d' where d': "store_PruneBelow B height d = (d', Inr ())" "holds B d' ?high"
    using prune_holds [OF laws h small dist commit] by blast
  have "b \<in> set ?high" using height(2,3) by simp
  then obtain c cs where c: "?high = c # cs" by (cases ?high) simp_all
  then have "c \<in> set ?high" by simp
  then have "height \<le> int64_of (blk_Height c)" by simp
  then have "blk_Height c \<noteq> 0" using height(1) by (auto simp: int64_of_def i64_def)
  then have "blk_Height (gob_norm c) \<noteq> 0" by (simp add: gob_norm_def)
  moreover have "cs_ReadCanonical (BoltChainStore B) d' = Inr (gob_norm c # map gob_norm cs)"
    using holds_read [OF laws d'(2)] c by simp
  ultimately show ?thesis
    using d'(1) not_genesis_refused [of "BoltChainStore B" d'] by (auto simp: LoadBlockchain_def split: sum.splits)
qed

theorem pruned_store_cannot_restart_w:
  "\<exists>d d'. holds mem_bolt d [reward_at 0 [] [9], reward_at 1 [9] [8]] \<and> store_PruneBelow mem_bolt 1 d = (d', Inr ()) \<and>
     (\<forall>ed env gd rf cid miner cfg s bc. LoadBlockchain ed env gd rf (BoltChainStore mem_bolt) cid miner cfg d' \<noteq> Ret (s, Inr bc))"
proof -
  let ?bs = "[reward_at 0 [] [9], reward_at 1 [9] [8]]"
  have "\<exists>d. store_RewriteCanonical mem_bolt ?bs [] = (d, Inr ()) \<and> holds mem_bolt d ?bs"
    by (rule rewrite_holds [OF mem_bolt_laws]) (simp_all add: writable_def no_conflict_def got_def mem_bolt_def reward_at_def)
  then obtain d where d: "holds mem_bolt d ?bs" by blast
  then show ?thesis
    using pruned_store_cannot_restart [OF mem_bolt_laws _ d, where height = 1 and b = "reward_at 1 [9] [8]"]
    by (fastforce simp: mem_bolt_def reward_at_def int64_of_def i64_def)
qed

end
