(* ===== verification/Mempool.thy ===== *)
theory Mempool
  imports Encoding "HOL-Library.Multiset"
begin

text \<open>
  The transaction pool of \<^verbatim>\<open>internal/blockchain/mempool.go\<close>: the entries by transaction id and
  the index of ids by sender and nonce.  The lemmas show that the index always is the inverse of
  the entries, what eviction removes, and that the pool stays within its capacity.
\<close>

subsection \<open>State\<close>

record mempoolEntry =
  me_tx :: transaction
  me_txIDHex :: string
  me_received :: int

record mempool =
  pool_maxSize :: int
  pool_entries :: "(string, mempoolEntry) gomap"
  pool_bySenderNonce :: "(string, (u64, string) gomap) gomap"

definition NewMempool :: "int \<Rightarrow> mempool" where
  "NewMempool maxSize =
     \<lparr>pool_maxSize = (if maxSize \<le> 0 then 10000 else maxSize), pool_entries = [], pool_bySenderNonce = []\<rparr>"

definition Mempool_Size :: "mempool \<Rightarrow> nat" where
  "Mempool_Size m = length (pool_entries m)"

text \<open>\<^verbatim>\<open>m.bySenderNonce[a][n]\<close>: reading a missing inner map reads an empty one.\<close>

definition pool_inner :: "mempool \<Rightarrow> string \<Rightarrow> (u64, string) gomap" where
  "pool_inner m a = (case gget (pool_bySenderNonce m) a of None \<Rightarrow> [] | Some im \<Rightarrow> im)"

definition pool_index :: "mempool \<Rightarrow> string \<Rightarrow> u64 \<Rightarrow> string option" where
  "pool_index m a n = gget (pool_inner m a) n"

subsection \<open>Operations\<close>

definition removeLocked :: "string \<Rightarrow> mempool \<Rightarrow> mempool" where
  "removeLocked txid m =
     (case gget (pool_entries m) txid of
        None \<Rightarrow> m
      | Some e \<Rightarrow>
          let m1 = m\<lparr>pool_entries := gdel txid (pool_entries m)\<rparr> in
          case FromAddress (me_tx e) of
            Inl _ \<Rightarrow> m1
          | Inr from_addr \<Rightarrow>
              (case gget (pool_bySenderNonce m) from_addr of
                 None \<Rightarrow> m1
               | Some im \<Rightarrow>
                   let n = tx_Nonce (me_tx e);
                       im' = (if gget im n = Some txid then gdel n im else im)
                   in if im' = [] then m1\<lparr>pool_bySenderNonce := gdel from_addr (pool_bySenderNonce m)\<rparr>
                      else m1\<lparr>pool_bySenderNonce := gput from_addr im' (pool_bySenderNonce m)\<rparr>))"

definition indexLocked :: "string \<Rightarrow> u64 \<Rightarrow> string \<Rightarrow> mempool \<Rightarrow> mempool" where
  "indexLocked fromAddr nonce txid m =
     m\<lparr>pool_bySenderNonce := gput fromAddr (gput nonce txid (pool_inner m fromAddr)) (pool_bySenderNonce m)\<rparr>"

definition lowestFeeLocked :: "mempool \<Rightarrow> string" where
  "lowestFeeLocked m = snd (fold (\<lambda>(id, e) (lowestFee, lowestID).
     if tx_Fee (me_tx e) < lowestFee then (tx_Fee (me_tx e), id) else (lowestFee, lowestID))
     (pool_entries m) (- 1, ''''))"

text \<open>The loop of \<^verbatim>\<open>evictWithDependentsLocked\<close> deletes from the map it ranges over; a round deletes at
  most the entry it visits, so it visits every entry.\<close>

definition dependent :: "string \<Rightarrow> u64 \<Rightarrow> mempoolEntry \<Rightarrow> bool" where
  "dependent a n e \<longleftrightarrow> (case FromAddress (me_tx e) of Inl _ \<Rightarrow> False | Inr addr \<Rightarrow> addr = a \<and> n < tx_Nonce (me_tx e))"

definition evictWithDependentsLocked :: "string \<Rightarrow> mempool \<Rightarrow> mempool" where
  "evictWithDependentsLocked txid m =
     (case gget (pool_entries m) txid of
        None \<Rightarrow> m
      | Some victim \<Rightarrow>
          let m1 = removeLocked txid m in
          case FromAddress (me_tx victim) of
            Inl _ \<Rightarrow> m1
          | Inr a \<Rightarrow> fold (\<lambda>(id, e) m. if dependent a (tx_Nonce (me_tx victim)) e then removeLocked id m else m)
              (pool_entries m1) m1)"

definition Mempool_Add :: "int \<Rightarrow> transaction \<Rightarrow> mempool \<Rightarrow> mempool \<times> string \<times> unit res" where
  "Mempool_Add now tx m =
     (case TxIDHex tx of
        Inl e \<Rightarrow> (m, '''', Inl e)
      | Inr txid \<Rightarrow>
          (case FromAddress tx of
             Inl e \<Rightarrow> (m, '''', Inl e)
           | Inr fromAddr \<Rightarrow>
               if gget (pool_entries m) txid \<noteq> None then (m, txid, Inl ''duplicate transaction'')
               else
                 (case pool_index m fromAddr (tx_Nonce tx) of
                    Some existingID \<Rightarrow> (m, existingID, Inl ''nonce already in mempool'')
                  | None \<Rightarrow>
                      let full = pool_maxSize m \<le> int (Mempool_Size m); lowest = lowestFeeLocked m in
                      if full \<and> lowest = '''' then (m, '''', Inl ''mempool full'')
                      else
                        let m1 = (if full then evictWithDependentsLocked lowest m else m);
                            e = \<lparr>me_tx = tx, me_txIDHex = txid, me_received = now\<rparr>;
                            m2 = m1\<lparr>pool_entries := gput txid e (pool_entries m1)\<rparr>
                        in (indexLocked fromAddr (tx_Nonce tx) txid m2, txid, Inr ()))))"

definition Mempool_Remove :: "string \<Rightarrow> mempool \<Rightarrow> mempool" where
  "Mempool_Remove txid m = removeLocked txid m"

definition Mempool_RemoveMany :: "string list \<Rightarrow> mempool \<Rightarrow> mempool" where
  "Mempool_RemoveMany txids m = fold removeLocked txids m"

definition Snapshot :: "mempool \<Rightarrow> mempoolEntry list" where
  "Snapshot m = map snd (pool_entries m)"

text \<open>Two stable sorts give the order by descending fee, then by time of receipt.\<close>

definition EntriesSortedByFeeDesc :: "mempool \<Rightarrow> mempoolEntry list" where
  "EntriesSortedByFeeDesc m =
     sort_key (\<lambda>e. - int (unat (tx_Fee (me_tx e)))) (sort_key me_received (Snapshot m))"

definition PendingForSender :: "string \<Rightarrow> mempool \<Rightarrow> mempoolEntry list" where
  "PendingForSender fromAddr m =
     sort_key (\<lambda>e. tx_Nonce (me_tx e))
       (List.map_filter (\<lambda>(nonce, txid). gget (pool_entries m) txid) (pool_inner m fromAddr))"

datatype pool_op = OpAdd int transaction | OpRemove string | OpRemoveMany "string list"

primrec pool_step :: "pool_op \<Rightarrow> mempool \<Rightarrow> mempool" where
  "pool_step (OpAdd now tx) m = fst (Mempool_Add now tx m)"
| "pool_step (OpRemove txid) m = Mempool_Remove txid m"
| "pool_step (OpRemoveMany txids) m = Mempool_RemoveMany txids m"

subsection \<open>The invariant\<close>

definition entry_ok :: "string \<Rightarrow> mempoolEntry \<Rightarrow> bool" where
  "entry_ok txid e \<longleftrightarrow> me_txIDHex e = txid \<and> TxIDHex (me_tx e) = Inr txid \<and>
     FromAddress (me_tx e) = Inr (FromAddressSafe (me_tx e))"

definition pool_maps_ok :: "mempool \<Rightarrow> bool" where
  "pool_maps_ok m \<longleftrightarrow> gmap_ok (pool_entries m) \<and> gmap_ok (pool_bySenderNonce m) \<and>
     (\<forall>(a, im) \<in> set (pool_bySenderNonce m). gmap_ok im \<and> im \<noteq> []) \<and>
     (\<forall>(txid, e) \<in> set (pool_entries m). entry_ok txid e)"

definition indexed :: "mempool \<Rightarrow> bool" where
  "indexed m \<longleftrightarrow> (\<forall>a n txid. pool_index m a n = Some txid \<longleftrightarrow>
     (\<exists>e. gget (pool_entries m) txid = Some e \<and> FromAddressSafe (me_tx e) = a \<and> tx_Nonce (me_tx e) = n))"

definition pool_ok :: "mempool \<Rightarrow> bool" where
  "pool_ok m \<longleftrightarrow> 0 < pool_maxSize m \<and> int (length (pool_entries m)) \<le> pool_maxSize m \<and>
     pool_maps_ok m \<and> indexed m"

subsection \<open>Removing\<close>

lemma pool_entries_removeLocked [simp]:
  "pool_entries (removeLocked txid m) = gdel txid (pool_entries m)"
  by (auto simp: removeLocked_def Let_def gdel_id gget_None_iff split: option.splits sum.splits)

lemma pool_maxSize_removeLocked [simp]: "pool_maxSize (removeLocked txid m) = pool_maxSize m"
  by (auto simp: removeLocked_def Let_def split: option.splits sum.splits)

lemma pool_inner_removeLocked:
  assumes "pool_maps_ok m" and "gget (pool_entries m) txid = Some e"
  shows "pool_inner (removeLocked txid m) a =
    (if a = FromAddressSafe (me_tx e) \<and> gget (pool_inner m a) (tx_Nonce (me_tx e)) = Some txid
     then gdel (tx_Nonce (me_tx e)) (pool_inner m a) else pool_inner m a)"
proof -
  have "FromAddress (me_tx e) = Inr (FromAddressSafe (me_tx e))"
    using assms by (auto simp: pool_maps_ok_def entry_ok_def dest!: gget_SomeD)
  then show ?thesis
    using assms(2) by (auto simp: removeLocked_def pool_inner_def Let_def split: option.splits)
qed

lemma pool_maps_ok_removeLocked [simp]:
  assumes "pool_maps_ok m"
  shows "pool_maps_ok (removeLocked txid m)"
  using assms
  by (auto simp: pool_maps_ok_def removeLocked_def Let_def set_gdel set_gput dest!: gget_SomeD
      split: option.splits sum.splits if_splits)

lemma indexedD:
  "indexed m \<Longrightarrow> gget (pool_entries m) txid = Some e \<Longrightarrow>
   pool_index m (FromAddressSafe (me_tx e)) (tx_Nonce (me_tx e)) = Some txid"
  unfolding indexed_def by blast

lemma indexedE:
  assumes "indexed m" and "pool_index m a n = Some txid"
  obtains e where "gget (pool_entries m) txid = Some e" "FromAddressSafe (me_tx e) = a" "tx_Nonce (me_tx e) = n"
  using assms unfolding indexed_def by blast

lemma indexedI:
  assumes "\<And>txid e. gget (pool_entries m) txid = Some e \<Longrightarrow>
      pool_index m (FromAddressSafe (me_tx e)) (tx_Nonce (me_tx e)) = Some txid"
    and "\<And>a n txid. pool_index m a n = Some txid \<Longrightarrow>
      \<exists>e. gget (pool_entries m) txid = Some e \<and> FromAddressSafe (me_tx e) = a \<and> tx_Nonce (me_tx e) = n"
  shows "indexed m"
  using assms unfolding indexed_def by blast

lemma indexed_removeLocked:
  assumes "pool_maps_ok m" and "indexed m"
  shows "indexed (removeLocked txid m)"
proof (cases "gget (pool_entries m) txid")
  case None
  then show ?thesis using assms by (simp add: removeLocked_def)
next
  case (Some e)
  note here = indexedD [OF assms(2) Some]
  then have at: "pool_index (removeLocked txid m) a n =
      (if a = FromAddressSafe (me_tx e) \<and> n = tx_Nonce (me_tx e) then None else pool_index m a n)" for a n
    using pool_inner_removeLocked [OF assms(1) Some] by (auto simp: pool_index_def)
  show ?thesis
  proof (rule indexedI)
    fix txid' e' assume "gget (pool_entries (removeLocked txid m)) txid' = Some e'"
    then have e': "gget (pool_entries m) txid' = Some e'" "txid' \<noteq> txid" by (auto split: if_splits)
    then show "pool_index (removeLocked txid m) (FromAddressSafe (me_tx e')) (tx_Nonce (me_tx e')) = Some txid'"
      using indexedD [OF assms(2) e'(1)] here by (auto simp: at)
  next
    fix a n txid' assume "pool_index (removeLocked txid m) a n = Some txid'"
    then have p: "pool_index m a n = Some txid'" "\<not> (a = FromAddressSafe (me_tx e) \<and> n = tx_Nonce (me_tx e))"
      by (auto simp: at split: if_splits)
    from indexedE [OF assms(2) p(1)] obtain e' where e': "gget (pool_entries m) txid' = Some e'"
      "FromAddressSafe (me_tx e') = a" "tx_Nonce (me_tx e') = n" .
    moreover have "txid' \<noteq> txid" using e' Some p(2) by auto
    ultimately show "\<exists>e. gget (pool_entries (removeLocked txid m)) txid' = Some e \<and>
        FromAddressSafe (me_tx e) = a \<and> tx_Nonce (me_tx e) = n"
      by auto
  qed
qed

lemma pool_ok_removeLocked [intro]:
  assumes "pool_ok m"
  shows "pool_ok (removeLocked txid m)"
proof -
  have "length (gdel txid (pool_entries m)) \<le> length (pool_entries m)"
    using assms by (simp add: pool_ok_def pool_maps_ok_def length_gdel)
  then show ?thesis
    using assms by (auto simp: pool_ok_def indexed_removeLocked)
qed

subsection \<open>Evicting\<close>

lemma gdel_filter: "gdel k m = filter (\<lambda>p. fst p \<noteq> k) m"
  by (induction m) (auto simp: gdel_def)

lemma gget_filter:
  "gmap_ok m \<Longrightarrow> gget (filter (\<lambda>p. P (snd p)) m) k =
     (case gget m k of None \<Rightarrow> None | Some e \<Rightarrow> if P e then Some e else None)"
proof (induction m)
  case (Cons q m)
  then have "gmap_ok m" "fst q \<notin> fst ` set m" by (auto simp: gmap_ok_def)
  then have "gget (filter (\<lambda>p. P (snd p)) m) (fst q) = None" by (auto simp: gget_None_iff)
  with Cons.IH \<open>gmap_ok m\<close> show ?case by (cases q) (auto simp: gget_Cons)
qed simp

lemma fold_removeLocked:
  "pool_entries (fold (\<lambda>(id, e) m. if P e then removeLocked id m else m) xs m) =
     filter (\<lambda>p. \<forall>q \<in> set xs. P (snd q) \<longrightarrow> fst p \<noteq> fst q) (pool_entries m)"
  by (induction xs arbitrary: m) (auto simp: gdel_filter split_def intro!: filter_cong)

lemma pool_ok_fold_removeLocked:
  "pool_ok m \<Longrightarrow> pool_ok (fold (\<lambda>(id, e) m. if P e then removeLocked id m else m) xs m)"
  by (induction xs arbitrary: m) (auto simp: split_def)

lemma pool_ok_evict: "pool_ok m \<Longrightarrow> pool_ok (evictWithDependentsLocked txid m)"
  by (auto simp: evictWithDependentsLocked_def Let_def intro: pool_ok_fold_removeLocked
      split: option.splits sum.splits)

text \<open>The victim goes, and with it the transactions of its sender with a higher nonce.\<close>

definition goes_with :: "mempoolEntry \<Rightarrow> mempoolEntry \<Rightarrow> bool" where
  "goes_with v e \<longleftrightarrow> FromAddressSafe (me_tx e) = FromAddressSafe (me_tx v) \<and> tx_Nonce (me_tx v) \<le> tx_Nonce (me_tx e)"

lemma pool_ok_entry:
  assumes "pool_ok m" and "p \<in> set (pool_entries m)"
  shows "gget (pool_entries m) (fst p) = Some (snd p)" and "entry_ok (fst p) (snd p)"
  using assms by (auto simp: pool_ok_def pool_maps_ok_def gget_Some_iff split_def)

lemma pool_ok_uniq:
  assumes "pool_ok m" and "p \<in> set (pool_entries m)" and "q \<in> set (pool_entries m)"
    and "FromAddressSafe (me_tx (snd p)) = FromAddressSafe (me_tx (snd q))"
    and "tx_Nonce (me_tx (snd p)) = tx_Nonce (me_tx (snd q))"
  shows "p = q"
proof -
  have idx: "pool_index m (FromAddressSafe (me_tx (snd r))) (tx_Nonce (me_tx (snd r))) = Some (fst r)"
    if "r \<in> set (pool_entries m)" for r
    using assms(1) pool_ok_entry(1) [OF assms(1) that] by (auto simp: pool_ok_def intro: indexedD)
  have "fst p = fst q"
    using idx [OF assms(2)] idx [OF assms(3)] assms(4,5) by simp
  then show ?thesis
    using pool_ok_entry(1) [OF assms(1,2)] pool_ok_entry(1) [OF assms(1,3)] by (simp add: prod_eq_iff)
qed

lemma pool_entries_evict:
  assumes ok: "pool_ok m" and v: "gget (pool_entries m) txid = Some v"
  shows "pool_entries (evictWithDependentsLocked txid m) = filter (\<lambda>p. \<not> goes_with v (snd p)) (pool_entries m)"
proof -
  have vin: "(txid, v) \<in> set (pool_entries m)" using v by (rule gget_SomeD)
  have sender: "FromAddress (me_tx (snd p)) = Inr (FromAddressSafe (me_tx (snd p)))" if "p \<in> set (pool_entries m)" for p
    using pool_ok_entry(2) [OF ok that] by (simp add: entry_ok_def)
  let ?d = "dependent (FromAddressSafe (me_tx v)) (tx_Nonce (me_tx v))"
  have "pool_entries (evictWithDependentsLocked txid m) =
      filter (\<lambda>p. \<forall>q \<in> set (gdel txid (pool_entries m)). ?d (snd q) \<longrightarrow> fst p \<noteq> fst q) (gdel txid (pool_entries m))"
    using v sender [OF vin] by (simp add: evictWithDependentsLocked_def Let_def fold_removeLocked)
  also have "\<dots> = filter (\<lambda>p. fst p \<noteq> txid \<and> (\<forall>q \<in> set (gdel txid (pool_entries m)). ?d (snd q) \<longrightarrow> fst p \<noteq> fst q))
      (pool_entries m)"
    by (simp add: gdel_filter conj_commute)
  also have "\<dots> = filter (\<lambda>p. \<not> goes_with v (snd p)) (pool_entries m)"
  proof (rule filter_cong [OF refl])
    fix p assume p: "p \<in> set (pool_entries m)"
    have d: "?d (snd q) \<longleftrightarrow> goes_with v (snd q) \<and> tx_Nonce (me_tx (snd q)) \<noteq> tx_Nonce (me_tx v)"
      if "q \<in> set (pool_entries m)" for q
      using sender [OF that] by (auto simp: dependent_def goes_with_def)
    have same: "q = p" if "q \<in> set (pool_entries m)" "fst p = fst q" for q
      using pool_ok_entry(1) [OF ok p] pool_ok_entry(1) [OF ok that(1)] that(2) by (simp add: prod_eq_iff)
    have "fst p = txid \<longleftrightarrow> goes_with v (snd p) \<and> tx_Nonce (me_tx (snd p)) = tx_Nonce (me_tx v)"
      using pool_ok_uniq [OF ok p vin] same [OF vin] by (cases p) (auto simp: goes_with_def)
    moreover have "(\<forall>q \<in> set (gdel txid (pool_entries m)). ?d (snd q) \<longrightarrow> fst p \<noteq> fst q) \<longleftrightarrow>
        (fst p \<noteq> txid \<longrightarrow> \<not> ?d (snd p))"
      using p by (auto simp: set_gdel simp del: split_paired_All dest: same)
    ultimately show "(fst p \<noteq> txid \<and> (\<forall>q \<in> set (gdel txid (pool_entries m)). ?d (snd q) \<longrightarrow> fst p \<noteq> fst q)) =
        (\<not> goes_with v (snd p))"
      using d [OF p] by auto
  qed
  finally show ?thesis .
qed

subsection \<open>Adding\<close>

lemma lowestFee_fold:
  assumes "fold (\<lambda>(id, e) (lf, lid). if tx_Fee (me_tx e) < lf then (tx_Fee (me_tx e), id) else (lf, lid)) xs (lf, lid)
    = (lf', lid')"
  shows "lf' \<le> lf \<and> (\<forall>q \<in> set xs. lf' \<le> tx_Fee (me_tx (snd q))) \<and>
    (lf' = lf \<and> lid' = lid \<or> (\<exists>q \<in> set xs. fst q = lid' \<and> tx_Fee (me_tx (snd q)) = lf'))"
  using assms
proof (induction xs arbitrary: lf lid)
  case (Cons x xs)
  obtain i e where x: "x = (i, e)" by (cases x)
  show ?case
  proof (cases "tx_Fee (me_tx e) < lf")
    case True
    from Cons.IH [of "tx_Fee (me_tx e)" i] Cons.prems True x show ?thesis by auto
  next
    case False
    from Cons.IH [of lf lid] Cons.prems False x show ?thesis by auto
  qed
qed simp

lemma TxIDHex_neq_Nil: "TxIDHex t = Inr txid \<Longrightarrow> txid \<noteq> ''''"
  by (auto simp: TxIDHex_def SigningHash_def signingHashLegacyJSON_def rbind_Inr_iff split: sum.splits if_splits)

lemma lowestFeeLocked_cases:
  assumes "pool_ok m" and "lowestFeeLocked m = txid"
  shows "if txid = '''' then (\<forall>q \<in> set (pool_entries m). tx_Fee (me_tx (snd q)) = - 1)
    else (\<exists>v. gget (pool_entries m) txid = Some v \<and> (\<forall>q \<in> set (pool_entries m). tx_Fee (me_tx v) \<le> tx_Fee (me_tx (snd q))))"
proof -
  let ?f = "\<lambda>(id, e) (lf, lid). if tx_Fee (me_tx e) < lf then (tx_Fee (me_tx e), id) else (lf, lid)"
  obtain lf lid where f: "fold ?f (pool_entries m) (- 1, '''') = (lf, lid)" by fastforce
  then have "lid = txid" using assms(2) by (simp add: lowestFeeLocked_def)
  note spec = lowestFee_fold [OF f, unfolded this]
  have ne: "fst q \<noteq> ''''" if "q \<in> set (pool_entries m)" for q
    using pool_ok_entry(2) [OF assms(1) that] TxIDHex_neq_Nil by (auto simp: entry_ok_def)
  show ?thesis
  proof (cases "txid = ''''")
    case True
    with spec ne have "lf = - 1" by auto
    with spec True show ?thesis by (simp add: word_order.extremum_unique)
  next
    case False
    with spec obtain q where "q \<in> set (pool_entries m)" "fst q = txid" "tx_Fee (me_tx (snd q)) = lf" by auto
    with spec False pool_ok_entry(1) [OF assms(1), of q] show ?thesis by auto
  qed
qed

lemma indexed_add:
  assumes "pool_maps_ok m" "indexed m" "gget (pool_entries m) txid = None" "pool_index m a n = None"
    and "FromAddressSafe (me_tx e) = a" "tx_Nonce (me_tx e) = n"
  shows "indexed (indexLocked a n txid (m\<lparr>pool_entries := gput txid e (pool_entries m)\<rparr>))" (is "indexed ?m")
proof -
  have at: "pool_index ?m a' n' = (if a' = a \<and> n' = n then Some txid else pool_index m a' n')" for a' n'
    by (auto simp: pool_index_def pool_inner_def indexLocked_def)
  have entries: "pool_entries ?m = gput txid e (pool_entries m)" by (simp add: indexLocked_def)
  show ?thesis
  proof (rule indexedI)
    fix txid' e' assume e': "gget (pool_entries ?m) txid' = Some e'"
    show "pool_index ?m (FromAddressSafe (me_tx e')) (tx_Nonce (me_tx e')) = Some txid'"
    proof (cases "txid' = txid")
      case True
      with e' have "e' = e" by (simp add: entries)
      with True assms(5,6) show ?thesis by (simp add: at)
    next
      case False
      with e' indexedD [OF assms(2), of txid' e'] assms(4) show ?thesis by (auto simp: entries at)
    qed
  next
    fix a' n' txid' assume "pool_index ?m a' n' = Some txid'"
    then show "\<exists>e. gget (pool_entries ?m) txid' = Some e \<and> FromAddressSafe (me_tx e) = a' \<and> tx_Nonce (me_tx e) = n'"
      using assms(3,5,6) by (auto simp: at entries split: if_splits elim!: indexedE [OF assms(2)])
  qed
qed

lemma pool_maps_ok_add:
  assumes "pool_maps_ok m" "entry_ok txid e"
  shows "pool_maps_ok (indexLocked a n txid (m\<lparr>pool_entries := gput txid e (pool_entries m)\<rparr>))"
proof -
  have "gmap_ok (pool_inner m a)"
    using assms(1) by (auto simp: pool_inner_def pool_maps_ok_def dest: gget_SomeD split: option.splits)
  moreover have "gput n txid im \<noteq> []" for im :: "(u64, string) gomap"
    by (cases im) (auto simp: gput_def)
  ultimately show ?thesis
    using assms by (auto simp: pool_maps_ok_def indexLocked_def pool_inner_def set_gput split: option.splits)
qed

lemma evict_shrinks:
  assumes "pool_ok m" and "gget (pool_entries m) txid = Some v"
  shows "length (pool_entries (evictWithDependentsLocked txid m)) < length (pool_entries m)"
  unfolding pool_entries_evict [OF assms]
  by (rule length_filter_less [OF gget_SomeD [OF assms(2)]]) (simp add: goes_with_def)

lemma pool_maxSize_fold [simp]:
  "pool_maxSize (fold (\<lambda>(id, e) m. if P e then removeLocked id m else m) xs m) = pool_maxSize m"
  by (induction xs arbitrary: m) (auto simp: split_def)

lemma pool_maxSize_evict [simp]: "pool_maxSize (evictWithDependentsLocked txid m) = pool_maxSize m"
  unfolding evictWithDependentsLocked_def Let_def by (auto split: option.splits sum.splits)

text \<open>The pool into which a successful \<open>Mempool_Add\<close> inserts: the old one, or the old one without the
  transaction with the lowest fee and those that depend on it.\<close>

definition room_made :: "mempool \<Rightarrow> mempool \<Rightarrow> bool" where
  "room_made m m1 \<longleftrightarrow>
     (if int (length (pool_entries m)) < pool_maxSize m then m1 = m
      else \<exists>vid v. gget (pool_entries m) vid = Some v \<and>
        (\<forall>q \<in> set (pool_entries m). tx_Fee (me_tx v) \<le> tx_Fee (me_tx (snd q))) \<and> m1 = evictWithDependentsLocked vid m)"

lemma room_made_ok:
  assumes "pool_ok m" and "room_made m m1"
  shows "pool_ok m1 \<and> int (length (pool_entries m1)) < pool_maxSize m1 \<and>
    set (pool_entries m1) \<subseteq> set (pool_entries m) \<and> pool_maxSize m1 = pool_maxSize m"
proof (cases "int (length (pool_entries m)) < pool_maxSize m")
  case True
  with assms show ?thesis by (simp add: room_made_def)
next
  case False
  with assms(2) obtain vid v where v: "gget (pool_entries m) vid = Some v" "m1 = evictWithDependentsLocked vid m"
    by (auto simp: room_made_def)
  have "int (length (pool_entries m)) \<le> pool_maxSize m" using assms(1) by (simp add: pool_ok_def)
  moreover have "set (pool_entries m1) \<subseteq> set (pool_entries m)"
    unfolding v(2) pool_entries_evict [OF assms(1) v(1)] by auto
  ultimately show ?thesis
    using pool_ok_evict [OF assms(1)] evict_shrinks [OF assms(1) v(1)] by (simp add: v(2))
qed

lemma Mempool_Add_ok:
  assumes "pool_ok m" and "Mempool_Add now tx m = (m', txid, Inr ())"
  obtains m1 where "TxIDHex tx = Inr txid" "FromAddress tx = Inr (FromAddressSafe tx)"
    "gget (pool_entries m) txid = None" "pool_index m (FromAddressSafe tx) (tx_Nonce tx) = None" "room_made m m1"
    "m' = indexLocked (FromAddressSafe tx) (tx_Nonce tx) txid
       (m1\<lparr>pool_entries := gput txid \<lparr>me_tx = tx, me_txIDHex = txid, me_received = now\<rparr> (pool_entries m1)\<rparr>)"
  using assms lowestFeeLocked_cases [OF assms(1) refl]
  by (auto simp: Mempool_Add_def FromAddressSafe_def Let_def room_made_def Mempool_Size_def
      split: sum.splits option.splits if_splits)

lemma index_none_sub:
  assumes "pool_ok m" "pool_ok m1" "set (pool_entries m1) \<subseteq> set (pool_entries m)"
  shows "gget (pool_entries m) txid = None \<Longrightarrow> gget (pool_entries m1) txid = None"
    and "pool_index m a n = None \<Longrightarrow> pool_index m1 a n = None"
proof -
  show "gget (pool_entries m) txid = None \<Longrightarrow> gget (pool_entries m1) txid = None"
    using assms(3) by (auto simp: gget_None_iff)
  have idx: "indexed m" "indexed m1" "gmap_ok (pool_entries m)"
    using assms(1,2) by (auto simp: pool_ok_def pool_maps_ok_def)
  show "pool_index m a n = None \<Longrightarrow> pool_index m1 a n = None"
  proof (rule ccontr)
    assume none: "pool_index m a n = None" and "pool_index m1 a n \<noteq> None"
    then obtain txid where "pool_index m1 a n = Some txid" by blast
    with idx(2) obtain e where e: "gget (pool_entries m1) txid = Some e" "FromAddressSafe (me_tx e) = a" "tx_Nonce (me_tx e) = n"
      by (rule indexedE)
    then have "gget (pool_entries m) txid = Some e"
      using assms(3) idx(3) by (auto simp: gget_Some_iff dest: gget_SomeD)
    from indexedD [OF idx(1) this] e none show False by simp
  qed
qed

lemma pool_ok_Add: "pool_ok m \<Longrightarrow> pool_ok (fst (Mempool_Add now tx m))"
proof (cases "snd (snd (Mempool_Add now tx m))")
  case (Inl e)
  then show "pool_ok m \<Longrightarrow> ?thesis"
    by (auto simp: Mempool_Add_def Let_def split: sum.splits option.splits if_splits)
next
  case (Inr u)
  assume ok: "pool_ok m"
  obtain m' txid where add: "Mempool_Add now tx m = (m', txid, Inr ())"
    using Inr by (cases "Mempool_Add now tx m") auto
  from Mempool_Add_ok [OF ok add] obtain m1 where m1: "TxIDHex tx = Inr txid" "FromAddress tx = Inr (FromAddressSafe tx)"
    "gget (pool_entries m) txid = None" "pool_index m (FromAddressSafe tx) (tx_Nonce tx) = None" "room_made m m1"
    "m' = indexLocked (FromAddressSafe tx) (tx_Nonce tx) txid
       (m1\<lparr>pool_entries := gput txid \<lparr>me_tx = tx, me_txIDHex = txid, me_received = now\<rparr> (pool_entries m1)\<rparr>)" .
  from room_made_ok [OF ok m1(5)] have room: "pool_ok m1" "int (length (pool_entries m1)) < pool_maxSize m1"
    "set (pool_entries m1) \<subseteq> set (pool_entries m)" "pool_maxSize m1 = pool_maxSize m" by auto
  note fresh = index_none_sub(1) [OF ok room(1,3) m1(3)] index_none_sub(2) [OF ok room(1,3) m1(4)]
  have maps: "pool_maps_ok m1" "indexed m1" using room(1) by (auto simp: pool_ok_def)
  have "pool_maps_ok m'" unfolding m1(6)
    by (rule pool_maps_ok_add [OF maps(1)]) (simp add: entry_ok_def m1(1,2))
  moreover have "indexed m'" unfolding m1(6)
    by (rule indexed_add [OF maps fresh]) simp_all
  moreover have "txid \<notin> fst ` set (pool_entries m1)"
    using fresh(1) by (simp add: gget_None_iff)
  ultimately show ?thesis
    using room ok by (auto simp: add m1(6) pool_ok_def indexLocked_def length_gput)
qed

interpretation pool: kept pool_ok pool_step
proof
  fix m x assume "pool_ok m"
  moreover have "pool_ok (fold removeLocked ids m)" if "pool_ok m" for ids m
    using that by (induction ids arbitrary: m) auto
  ultimately show "pool_ok (pool_step x m)"
    by (cases x) (auto simp: Mempool_Remove_def Mempool_RemoveMany_def pool_ok_Add)
qed

lemma pool_ok_New: "pool_ok (NewMempool n)"
  by (auto simp: pool_ok_def NewMempool_def pool_maps_ok_def indexed_def pool_index_def pool_inner_def)

subsection \<open>Pending transactions\<close>

lemma pool_inner_entry:
  assumes "pool_ok m" and "(n, txid) \<in> set (pool_inner m a)"
  shows "\<exists>e. gget (pool_entries m) txid = Some e \<and> FromAddressSafe (me_tx e) = a \<and> tx_Nonce (me_tx e) = n"
proof -
  have idx: "indexed m" and inner: "gmap_ok (pool_inner m a)"
    using assms(1) by (auto simp: pool_ok_def pool_maps_ok_def pool_inner_def dest: gget_SomeD split: option.splits)
  have "pool_index m a n = Some txid"
    using assms(2) inner by (simp add: pool_index_def gget_Some_iff)
  with idx show ?thesis by (rule indexedE) blast
qed

lemma pending_list:
  assumes "pool_ok m"
  shows "List.map_filter (\<lambda>(nonce, txid). gget (pool_entries m) txid) (pool_inner m a) =
      map (\<lambda>p. the (gget (pool_entries m) (snd p))) (pool_inner m a)"
    and "map (\<lambda>p. tx_Nonce (me_tx (the (gget (pool_entries m) (snd p))))) (pool_inner m a) = map fst (pool_inner m a)"
proof -
  have all: "\<exists>e. gget (pool_entries m) (snd p) = Some e \<and> tx_Nonce (me_tx e) = fst p" if "p \<in> set (pool_inner m a)" for p
    using pool_inner_entry [OF assms, of "fst p" "snd p" a] that by auto
  have mf: "List.map_filter f xs = map (the \<circ> f) xs" if "\<forall>x \<in> set xs. f x \<noteq> None" for f :: "'x \<Rightarrow> 'y option" and xs
    using that by (induction xs) (auto simp: map_filter_simps)
  show "List.map_filter (\<lambda>(nonce, txid). gget (pool_entries m) txid) (pool_inner m a) =
      map (\<lambda>p. the (gget (pool_entries m) (snd p))) (pool_inner m a)"
    using all by (subst mf) (force simp: split_def)+
  show "map (\<lambda>p. tx_Nonce (me_tx (the (gget (pool_entries m) (snd p))))) (pool_inner m a) = map fst (pool_inner m a)"
    using all by fastforce
qed

lemma pending_set:
  assumes "pool_ok m"
  shows "set (PendingForSender a m) = {e. \<exists>txid. gget (pool_entries m) txid = Some e \<and> FromAddressSafe (me_tx e) = a}"
proof -
  have "set (PendingForSender a m) = (\<lambda>p. the (gget (pool_entries m) (snd p))) ` set (pool_inner m a)"
    by (simp add: PendingForSender_def pending_list(1) [OF assms])
  also have "\<dots> = {e. \<exists>txid. gget (pool_entries m) txid = Some e \<and> FromAddressSafe (me_tx e) = a}"
  proof (intro equalityI subsetI)
    fix e assume "e \<in> (\<lambda>p. the (gget (pool_entries m) (snd p))) ` set (pool_inner m a)"
    then show "e \<in> {e. \<exists>txid. gget (pool_entries m) txid = Some e \<and> FromAddressSafe (me_tx e) = a}"
      using pool_inner_entry [OF assms] by force
  next
    fix e assume "e \<in> {e. \<exists>txid. gget (pool_entries m) txid = Some e \<and> FromAddressSafe (me_tx e) = a}"
    then obtain txid where e: "gget (pool_entries m) txid = Some e" "FromAddressSafe (me_tx e) = a" by blast
    have "indexed m" using assms by (simp add: pool_ok_def)
    from indexedD [OF this e(1)] e(2) have "(tx_Nonce (me_tx e), txid) \<in> set (pool_inner m a)"
      by (auto simp: pool_index_def dest: gget_SomeD)
    then show "e \<in> (\<lambda>p. the (gget (pool_entries m) (snd p))) ` set (pool_inner m a)"
      using e(1) by force
  qed
  finally show ?thesis .
qed

subsection \<open>Properties\<close>

text \<open>C12. Whatever transactions are added and removed, in whatever order, the pool holds at most its
  capacity, every entry is filed under its own transaction id and has a sender, and the index by
  sender and nonce is exactly the inverse of the entries.\<close>

theorem mempool_invariant: "pool_ok (fold pool_step ops (NewMempool n))"
  by (rule pool.run_kept [OF pool_ok_New])

text \<open>Adding to the pool: on an error nothing changes; on success the transaction is found under
  its id, below capacity everything else stays, and at capacity exactly the transaction with the
  lowest fee and the later transactions of its sender have gone.\<close>

theorem mempool_add_effect:
  assumes "pool_ok m"
  shows "case Mempool_Add now tx m of
      (m', _, Inl _) \<Rightarrow> m' = m
    | (m', txid, Inr _) \<Rightarrow>
        gget (pool_entries m') txid = Some \<lparr>me_tx = tx, me_txIDHex = txid, me_received = now\<rparr> \<and>
        pool_index m' (FromAddressSafe tx) (tx_Nonce tx) = Some txid \<and>
        (if int (length (pool_entries m)) < pool_maxSize m
         then (\<forall>k. k \<noteq> txid \<longrightarrow> gget (pool_entries m') k = gget (pool_entries m) k)
         else \<exists>vid v. gget (pool_entries m) vid = Some v \<and>
           (\<forall>q \<in> set (pool_entries m). tx_Fee (me_tx v) \<le> tx_Fee (me_tx (snd q))) \<and>
           (\<forall>k. k \<noteq> txid \<longrightarrow> gget (pool_entries m') k =
              (case gget (pool_entries m) k of None \<Rightarrow> None
               | Some e \<Rightarrow> if goes_with v e then None else Some e)))"
proof -
  obtain m' txid r where add: "Mempool_Add now tx m = (m', txid, r)" by (cases "Mempool_Add now tx m") auto
  show ?thesis
  proof (cases r)
    case (Inl e)
    with add show ?thesis
      by (auto simp: Mempool_Add_def Let_def split: sum.splits option.splits if_splits)
  next
    case (Inr u)
    with add have "Mempool_Add now tx m = (m', txid, Inr ())" by simp
    from Mempool_Add_ok [OF assms this] obtain m1 where m1: "room_made m m1"
      "m' = indexLocked (FromAddressSafe tx) (tx_Nonce tx) txid
         (m1\<lparr>pool_entries := gput txid \<lparr>me_tx = tx, me_txIDHex = txid, me_received = now\<rparr> (pool_entries m1)\<rparr>)" .
    have filtered: "gget (filter (\<lambda>p. \<not> goes_with v (snd p)) (pool_entries m)) k =
        (case gget (pool_entries m) k of None \<Rightarrow> None | Some e \<Rightarrow> if goes_with v e then None else Some e)" for v k
      using assms gget_filter [of "pool_entries m" "\<lambda>e. \<not> goes_with v e" k]
      by (simp add: pool_ok_def pool_maps_ok_def split: option.splits)
    have "pool_index m' (FromAddressSafe tx) (tx_Nonce tx) = Some txid"
      by (simp add: m1(2) indexLocked_def pool_index_def pool_inner_def)
    moreover have entries: "gget (pool_entries m') k = (if k = txid then Some \<lparr>me_tx = tx, me_txIDHex = txid, me_received = now\<rparr>
        else gget (pool_entries m1) k)" for k
      by (simp add: m1(2) indexLocked_def)
    moreover have "if int (length (pool_entries m)) < pool_maxSize m then m1 = m
      else \<exists>vid v. gget (pool_entries m) vid = Some v \<and>
        (\<forall>q \<in> set (pool_entries m). tx_Fee (me_tx v) \<le> tx_Fee (me_tx (snd q))) \<and>
        pool_entries m1 = filter (\<lambda>p. \<not> goes_with v (snd p)) (pool_entries m)"
      using m1(1) pool_entries_evict [OF assms] by (fastforce simp: room_made_def)
    ultimately show ?thesis
      by (cases "int (length (pool_entries m)) < pool_maxSize m") (auto simp: add Inr filtered [symmetric], blast)
  qed
qed

lemma demo_tx_added:
  obtains m txid where "Mempool_Add 5 demo_tx (NewMempool 1) = (m, txid, Inr ())"
  by (simp add: Mempool_Add_def TxIDHex_def SigningHash_def signingHashLegacyJSON_def FromAddress_def demo_tx_def
      pool_index_def pool_inner_def NewMempool_def Mempool_Size_def Let_def)

theorem mempool_add_effect_witness:
  "\<exists>m txid. Mempool_Add 5 demo_tx (NewMempool 1) = (m, txid, Inr ()) \<and>
     gget (pool_entries m) txid = Some \<lparr>me_tx = demo_tx, me_txIDHex = txid, me_received = 5\<rparr>"
proof -
  obtain m txid where "Mempool_Add 5 demo_tx (NewMempool 1) = (m, txid, Inr ())" by (rule demo_tx_added)
  with mempool_add_effect [where m = "NewMempool 1" and now = 5 and tx = demo_tx, OF pool_ok_New] show ?thesis by simp
qed

text \<open>\<^verbatim>\<open>PendingForSender\<close> returns exactly the pool's transactions of that sender, one per nonce, in the
  order of their nonces.\<close>

theorem pending_sorted:
  assumes "pool_ok m"
  shows "set (PendingForSender a m) = {e. \<exists>txid. gget (pool_entries m) txid = Some e \<and> FromAddressSafe (me_tx e) = a} \<and>
    sorted (map (\<lambda>e. tx_Nonce (me_tx e)) (PendingForSender a m)) \<and>
    distinct (map (\<lambda>e. tx_Nonce (me_tx e)) (PendingForSender a m))"
proof (intro conjI)
  let ?k = "\<lambda>e. tx_Nonce (me_tx e)"
  let ?xs = "List.map_filter (\<lambda>(nonce, txid). gget (pool_entries m) txid) (pool_inner m a)"
  show "sorted (map ?k (PendingForSender a m))" by (simp add: PendingForSender_def)
  have "gmap_ok (pool_inner m a)"
    using assms by (auto simp: pool_ok_def pool_maps_ok_def pool_inner_def dest: gget_SomeD split: option.splits)
  then have "distinct (map ?k ?xs)"
    by (simp add: pending_list [OF assms] comp_def gmap_ok_def)
  moreover have "mset (map ?k (PendingForSender a m)) = mset (map ?k ?xs)"
    by (simp add: PendingForSender_def mset_map)
  ultimately show "distinct (map ?k (PendingForSender a m))"
    by (metis mset_eq_imp_distinct_iff)
qed (rule pending_set [OF assms])

theorem pending_sorted_witness:
  "map me_tx (PendingForSender (GenerateAddress (replicate 32 1)) (fst (Mempool_Add 5 demo_tx (NewMempool 1)))) \<noteq> []"
proof -
  obtain m txid where m: "Mempool_Add 5 demo_tx (NewMempool 1) = (m, txid, Inr ())" by (rule demo_tx_added)
  from Mempool_Add_ok [OF pool_ok_New m] obtain m1 where
    "m = indexLocked (FromAddressSafe demo_tx) (tx_Nonce demo_tx) txid
       (m1\<lparr>pool_entries := gput txid \<lparr>me_tx = demo_tx, me_txIDHex = txid, me_received = 5\<rparr> (pool_entries m1)\<rparr>)" .
  then have "gget (pool_entries m) txid = Some \<lparr>me_tx = demo_tx, me_txIDHex = txid, me_received = 5\<rparr>"
    by (simp add: indexLocked_def)
  moreover have "FromAddressSafe demo_tx = GenerateAddress (replicate 32 1)"
    by (simp add: FromAddressSafe_def FromAddress_def demo_tx_def)
  moreover have "pool_ok m" using pool_ok_Add [where m = "NewMempool 1" and now = 5 and tx = demo_tx, OF pool_ok_New] m by simp
  ultimately have "\<lparr>me_tx = demo_tx, me_txIDHex = txid, me_received = 5\<rparr> \<in>
      set (PendingForSender (GenerateAddress (replicate 32 1)) m)"
    using pending_sorted [of m "GenerateAddress (replicate 32 1)"] by auto
  then have "set (PendingForSender (GenerateAddress (replicate 32 1)) m) \<noteq> {}" by (intro notI) simp
  then show ?thesis by (simp add: m)
qed

end
