(* ===== verification/VM.thy ===== *)
theory VM
  imports Accounts
begin

text \<open>
  The contract virtual machine of \<^verbatim>\<open>internal/vm/vm.go\<close>: the stack, the twenty opcodes, the execution loop with its gas
  counter, and deployment and calls of contracts.  Stack values are 64-bit signed integers, kept as integers with
  the wrap-around written out; a stack grows at its end, as the slice does.  An index out of range
  is the outcome \<open>Panic\<close>.  The map of contracts and the storage are shared between the machine that calls a contract and
  the machine that runs it, so a call returns both.
\<close>

subsection \<open>Opcodes and gas\<close>

definition OpInvalid :: u8 where "OpInvalid = 0"
definition OpPUSH :: u8 where "OpPUSH = 1"
definition OpPOP :: u8 where "OpPOP = 2"
definition OpADD :: u8 where "OpADD = 3"
definition OpSUB :: u8 where "OpSUB = 4"
definition OpMUL :: u8 where "OpMUL = 5"
definition OpDIV :: u8 where "OpDIV = 6"
definition OpSTORE :: u8 where "OpSTORE = 7"
definition OpLOAD :: u8 where "OpLOAD = 8"
definition OpJUMP :: u8 where "OpJUMP = 9"
definition OpJUMPI :: u8 where "OpJUMPI = 10"
definition OpEQ :: u8 where "OpEQ = 11"
definition OpLT :: u8 where "OpLT = 12"
definition OpGT :: u8 where "OpGT = 13"
definition OpAND :: u8 where "OpAND = 14"
definition OpOR :: u8 where "OpOR = 15"
definition OpNOT :: u8 where "OpNOT = 16"
definition OpRETURN :: u8 where "OpRETURN = 17"
definition OpCALL :: u8 where "OpCALL = 18"
definition OpDUP :: u8 where "OpDUP = 19"
definition OpSWAP :: u8 where "OpSWAP = 20"

lemmas opcode_defs = OpInvalid_def OpPUSH_def OpPOP_def OpADD_def OpSUB_def OpMUL_def OpDIV_def OpSTORE_def OpLOAD_def OpJUMP_def
  OpJUMPI_def OpEQ_def OpLT_def OpGT_def OpAND_def OpOR_def OpNOT_def OpRETURN_def OpCALL_def OpDUP_def OpSWAP_def

text \<open>A missing key of the map reads as 0.\<close>

definition gas_table :: "(u8, u64) gomap" where
  "gas_table = [(OpPUSH, 1), (OpPOP, 1), (OpADD, 2), (OpSUB, 2), (OpMUL, 3), (OpDIV, 3), (OpSTORE, 5), (OpLOAD, 3), (OpJUMP, 2),
     (OpJUMPI, 3), (OpEQ, 2), (OpLT, 2), (OpGT, 2), (OpAND, 2), (OpOR, 2), (OpNOT, 1), (OpRETURN, 1), (OpCALL, 5), (OpDUP, 1), (OpSWAP, 1)]"

definition GasCosts :: "u8 \<Rightarrow> u64" where
  "GasCosts op = (case gget gas_table op of None \<Rightarrow> 0 | Some c \<Rightarrow> c)"

subsection \<open>The stack\<close>

definition Stack_Push :: "int \<Rightarrow> int list \<Rightarrow> int list" where
  "Stack_Push v s = s @ [v]"

definition Stack_Pop :: "int list \<Rightarrow> (int \<times> int list) res" where
  "Stack_Pop s = (if s = [] then Inl ''stack underflow'' else Inr (last s, butlast s))"

definition Stack_Peek :: "int list \<Rightarrow> int res" where
  "Stack_Peek s = (if s = [] then Inl ''stack underflow'' else Inr (last s))"

text \<open>\<^verbatim>\<open>n+1\<close> wraps, and a negative \<^verbatim>\<open>n\<close> passes the length check.\<close>

definition Stack_Swap :: "int \<Rightarrow> int list \<Rightarrow> int list res outcome" where
  "Stack_Swap n s =
     (let l = int (length s); i = i64 (l - 1 - n) in
      if l < i64 (n + 1) then Ret (Inl ''stack underflow'')
      else if l = 0 \<or> i < 0 \<or> l \<le> i then Panic
      else Ret (Inr (s[nat (l - 1) := s ! nat i, nat i := s ! nat (l - 1)])))"

definition Stack_Dup :: "int list \<Rightarrow> int list res" where
  "Stack_Dup s = (if s = [] then Inl ''stack underflow'' else Inr (s @ [last s]))"

subsection \<open>The machine\<close>

record contract =
  ct_Code :: bytes
  ct_Storage :: "(string, bytes) gomap"
  ct_Owner :: string
  ct_Name :: string
  ct_GasLimit :: u64

record vm =
  vm_stack :: "int list"
  vm_memory :: bytes
  vm_pc :: int
  vm_gas :: u64
  vm_gasLimit :: u64
  vm_code :: bytes
  vm_contractStore :: "(string, contract) gomap"
  vm_storage :: "(string, (string, bytes) gomap) gomap"
  vm_callStack :: "int list"
  vm_returnStack :: "int list"
  vm_currentContract :: string

record ExecutionResult =
  er_Success :: bool
  er_GasUsed :: u64
  er_ReturnVal :: int
  er_Logs :: "string list"

definition NewVM :: "u64 \<Rightarrow> vm" where
  "NewVM gasLimit = \<lparr>vm_stack = [], vm_memory = replicate 1024 0, vm_pc = 0, vm_gas = gasLimit, vm_gasLimit = gasLimit, vm_code = [],
     vm_contractStore = [], vm_storage = [], vm_callStack = [], vm_returnStack = [], vm_currentContract = []\<rparr>"

subsection \<open>Opcodes\<close>

definition with_pop :: "(int \<Rightarrow> vm \<Rightarrow> (vm \<times> unit res) outcome) \<Rightarrow> vm \<Rightarrow> (vm \<times> unit res) outcome" where
  "with_pop k v = (case Stack_Pop (vm_stack v) of Inl e \<Rightarrow> Ret (v, Inl e) | Inr (x, s) \<Rightarrow> k x (v\<lparr>vm_stack := s\<rparr>))"

definition push_next :: "int \<Rightarrow> vm \<Rightarrow> (vm \<times> unit res) outcome" where
  "push_next x v = Ret (v\<lparr>vm_stack := Stack_Push x (vm_stack v), vm_pc := vm_pc v + 1\<rparr>, Inr ())"

definition binary_op :: "(int \<Rightarrow> int \<Rightarrow> int) \<Rightarrow> vm \<Rightarrow> (vm \<times> unit res) outcome" where
  "binary_op f = with_pop (\<lambda>a. with_pop (\<lambda>b. push_next (f b a)))"

definition op_PUSH :: "vm \<Rightarrow> (vm \<times> unit res) outcome" where
  "op_PUSH v =
     (let v1 = v\<lparr>vm_pc := vm_pc v + 1\<rparr> in
      if int (length (vm_code v1)) \<le> vm_pc v1 then Ret (v1, Inl ''unexpected end of code during PUSH'')
      else push_next (uint (vm_code v1 ! nat (vm_pc v1))) v1)"

definition op_DIV :: "vm \<Rightarrow> (vm \<times> unit res) outcome" where
  "op_DIV = with_pop (\<lambda>a v. if a = 0 then Ret (v, Inl ''division by zero'') else with_pop (\<lambda>b. push_next (i64 (tdiv b a))) v)"

text \<open>\<^verbatim>\<open>Sprintf\<close> and \<^verbatim>\<open>Sscanf\<close> with \<^verbatim>\<open>%d\<close>; a stored value never starts with a space.\<close>

definition sprint_d :: "int \<Rightarrow> bytes" where
  "sprint_d i = bytes_of_string (dec_int i)"

definition sscan_d :: "bytes \<Rightarrow> int" where
  "sscan_d bs =
     (let s = map (\<lambda>b. char_of (unat b)) bs; neg = (s \<noteq> [] \<and> hd s = CHR ''-''); d = takeWhile is_digit (if neg then tl s else s);
          x = (if neg then - int (dec_val d) else int (dec_val d))
      in if d = [] \<or> x < - (2 ^ 63) \<or> 2 ^ 63 \<le> x then 0 else x)"

definition op_STORE :: "vm \<Rightarrow> (vm \<times> unit res) outcome" where
  "op_STORE = with_pop (\<lambda>val. with_pop (\<lambda>key v.
     let m = (case gget (vm_storage v) (vm_currentContract v) of None \<Rightarrow> [] | Some m \<Rightarrow> m) in
     Ret (v\<lparr>vm_storage := gput (vm_currentContract v) (gput (dec_int key) (sprint_d val) m) (vm_storage v), vm_pc := vm_pc v + 1\<rparr>, Inr ())))"

definition load_value :: "vm \<Rightarrow> int \<Rightarrow> int" where
  "load_value v key =
     (case gget (vm_storage v) (vm_currentContract v) of
        None \<Rightarrow> 0
      | Some m \<Rightarrow> (case gget m (dec_int key) of None \<Rightarrow> 0 | Some val \<Rightarrow> if val = [] then 0 else sscan_d val))"

definition op_LOAD :: "vm \<Rightarrow> (vm \<times> unit res) outcome" where
  "op_LOAD = with_pop (\<lambda>key v. push_next (load_value v key) v)"

definition jump_to :: "int \<Rightarrow> vm \<Rightarrow> (vm \<times> unit res) outcome" where
  "jump_to target v =
     (if target < 0 \<or> int (length (vm_code v)) \<le> target then Ret (v, Inl ''jump target out of bounds'')
      else Ret (v\<lparr>vm_pc := target\<rparr>, Inr ()))"

definition op_JUMPI :: "vm \<Rightarrow> (vm \<times> unit res) outcome" where
  "op_JUMPI = with_pop (\<lambda>cond. with_pop (\<lambda>target v. if cond \<noteq> 0 then jump_to target v else Ret (v\<lparr>vm_pc := vm_pc v + 1\<rparr>, Inr ())))"

definition op_CALL :: "vm \<Rightarrow> (vm \<times> unit res) outcome" where
  "op_CALL = with_pop (\<lambda>addr v. Ret (v\<lparr>vm_callStack := vm_callStack v @ [vm_pc v + 1], vm_pc := addr\<rparr>, Inr ()))"

definition op_RETURN :: "vm \<Rightarrow> (vm \<times> unit res) outcome" where
  "op_RETURN v =
     (if vm_callStack v \<noteq> [] then Ret (v\<lparr>vm_pc := last (vm_callStack v), vm_callStack := butlast (vm_callStack v)\<rparr>, Inr ())
      else Ret (v, Inr ()))"

definition op_DUP :: "vm \<Rightarrow> (vm \<times> unit res) outcome" where
  "op_DUP v =
     (case Stack_Dup (vm_stack v) of
        Inl e \<Rightarrow> Ret (v, Inl e)
      | Inr s \<Rightarrow> Ret (v\<lparr>vm_stack := s, vm_pc := vm_pc v + 1\<rparr>, Inr ()))"

definition op_SWAP :: "vm \<Rightarrow> (vm \<times> unit res) outcome" where
  "op_SWAP = with_pop (\<lambda>n v. obind (Stack_Swap n (vm_stack v)) (\<lambda>r.
     case r of Inl e \<Rightarrow> Ret (v, Inl e) | Inr s \<Rightarrow> Ret (v\<lparr>vm_stack := s, vm_pc := vm_pc v + 1\<rparr>, Inr ())))"

definition bool_val :: "bool \<Rightarrow> int" where
  "bool_val b = (if b then 1 else 0)"

definition executeOpcode :: "u8 \<Rightarrow> vm \<Rightarrow> (vm \<times> unit res) outcome" where
  "executeOpcode op v =
     (if op = OpPUSH then op_PUSH v
      else if op = OpPOP then with_pop (\<lambda>_ v. Ret (v\<lparr>vm_pc := vm_pc v + 1\<rparr>, Inr ())) v
      else if op = OpADD then binary_op (\<lambda>b a. i64 (b + a)) v
      else if op = OpSUB then binary_op (\<lambda>b a. i64 (b - a)) v
      else if op = OpMUL then binary_op (\<lambda>b a. i64 (b * a)) v
      else if op = OpDIV then op_DIV v
      else if op = OpSTORE then op_STORE v
      else if op = OpLOAD then op_LOAD v
      else if op = OpJUMP then with_pop jump_to v
      else if op = OpJUMPI then op_JUMPI v
      else if op = OpEQ then binary_op (\<lambda>b a. bool_val (b = a)) v
      else if op = OpLT then binary_op (\<lambda>b a. bool_val (b < a)) v
      else if op = OpGT then binary_op (\<lambda>b a. bool_val (a < b)) v
      else if op = OpAND then binary_op (\<lambda>b a. bool_val (b \<noteq> 0 \<and> a \<noteq> 0)) v
      else if op = OpOR then binary_op (\<lambda>b a. bool_val (b \<noteq> 0 \<or> a \<noteq> 0)) v
      else if op = OpNOT then with_pop (\<lambda>a. push_next (bool_val (a = 0))) v
      else if op = OpCALL then op_CALL v
      else if op = OpRETURN then op_RETURN v
      else if op = OpDUP then op_DUP v
      else if op = OpSWAP then op_SWAP v
      else Ret (v, Inl ''unimplemented opcode''))"

subsection \<open>What every opcode keeps\<close>

definition in64 :: "int \<Rightarrow> bool" where
  "in64 x \<longleftrightarrow> - (2 ^ 63) \<le> x \<and> x < 2 ^ 63"

lemma in64_simps [simp]: "in64 (i64 x)" "in64 (bool_val b)" "in64 (uint (w :: u8))" "in64 (sscan_d bs)" "in64 0"
proof -
  have "uint w < 256" using uint_bounded [of w] by simp
  then have "uint w < 2 ^ 63" by simp
  moreover have "- (2 ^ 63) \<le> uint w" by (rule order_trans [of _ 0]) simp_all
  ultimately show "in64 (uint w)" by (simp add: in64_def)
qed (use i64_range [of x] in \<open>simp_all add: in64_def bool_val_def sscan_d_def Let_def\<close>)

definition result_sat :: "(vm \<Rightarrow> bool) \<Rightarrow> (vm \<times> unit res) outcome \<Rightarrow> bool" where
  "result_sat P r \<longleftrightarrow> (case r of Ret (v, _) \<Rightarrow> P v | Blocked \<Rightarrow> False | Panic \<Rightarrow> True)"

lemma result_sat_simps [simp]: "result_sat P (Ret (v, r)) = P v" "result_sat P Panic" "\<not> result_sat P Blocked"
  by (simp_all add: result_sat_def)

text \<open>An invariant \<open>P\<close> of machines with stack values in \<open>Q\<close>: it suffices that the elementary changes keep it.\<close>

locale vm_invariant =
  fixes P :: "vm \<Rightarrow> bool" and Q :: "int \<Rightarrow> bool"
  assumes stack_in: "P v \<Longrightarrow> x \<in> set (vm_stack v) \<Longrightarrow> Q x"
    and stack_to: "P v \<Longrightarrow> (\<And>x. x \<in> set s \<Longrightarrow> Q x) \<Longrightarrow> P (v\<lparr>vm_stack := s\<rparr>)"
    and in64_Q: "in64 x \<Longrightarrow> Q x"
    and pc_to: "P v \<Longrightarrow> P (v\<lparr>vm_pc := i\<rparr>)"
    and calls_to: "P v \<Longrightarrow> P (v\<lparr>vm_callStack := cs\<rparr>)"
    and store_to: "P v \<Longrightarrow> Q val \<Longrightarrow> m = (case gget (vm_storage v) (vm_currentContract v) of None \<Rightarrow> [] | Some m \<Rightarrow> m) \<Longrightarrow>
      P (v\<lparr>vm_storage := gput (vm_currentContract v) (gput key (sprint_d val) m) (vm_storage v)\<rparr>)"
begin

lemma with_pop_sat:
  assumes v: "P v" and k: "\<And>x v. P v \<Longrightarrow> Q x \<Longrightarrow> result_sat P (k x v)"
  shows "result_sat P (with_pop k v)"
proof (cases "vm_stack v = []")
  case True
  with v show ?thesis by (simp add: with_pop_def Stack_Pop_def)
next
  case False
  have "P (v\<lparr>vm_stack := butlast (vm_stack v)\<rparr>)" by (rule stack_to [OF v], rule stack_in [OF v], erule in_set_butlastD)
  moreover have "Q (last (vm_stack v))" by (rule stack_in [OF v]) (use False in simp)
  ultimately show ?thesis using False by (simp add: with_pop_def Stack_Pop_def k)
qed

lemma push_next_sat: "P v \<Longrightarrow> Q x \<Longrightarrow> result_sat P (push_next x v)"
  unfolding push_next_def Stack_Push_def result_sat_simps by (intro pc_to stack_to) (auto dest: stack_in)

lemma binary_op_sat: "P v \<Longrightarrow> (\<And>a b. Q (f b a)) \<Longrightarrow> result_sat P (binary_op f v)"
  unfolding binary_op_def by (intro with_pop_sat push_next_sat)

lemma jump_to_sat: "P v \<Longrightarrow> result_sat P (jump_to target v)"
  by (simp add: jump_to_def pc_to)

lemma op_PUSH_sat: "P v \<Longrightarrow> result_sat P (op_PUSH v)"
  by (simp add: op_PUSH_def Let_def pc_to push_next_sat in64_Q)

lemma op_DIV_sat: "P v \<Longrightarrow> result_sat P (op_DIV v)"
  unfolding op_DIV_def by (intro with_pop_sat) (auto intro!: with_pop_sat push_next_sat in64_Q)

lemma op_STORE_sat: "P v \<Longrightarrow> result_sat P (op_STORE v)"
  unfolding op_STORE_def Let_def by (intro with_pop_sat) (auto intro!: pc_to store_to)

lemma load_in64: "in64 (load_value v key)"
  by (simp add: load_value_def split: option.split)

lemma op_LOAD_sat: "P v \<Longrightarrow> result_sat P (op_LOAD v)"
  unfolding op_LOAD_def by (intro with_pop_sat push_next_sat in64_Q load_in64)

lemma op_JUMPI_sat: "P v \<Longrightarrow> result_sat P (op_JUMPI v)"
  unfolding op_JUMPI_def by (intro with_pop_sat) (auto intro: jump_to_sat pc_to)

lemma op_CALL_sat: "P v \<Longrightarrow> result_sat P (op_CALL v)"
  unfolding op_CALL_def by (intro with_pop_sat) (auto intro: calls_to pc_to)

lemma op_RETURN_sat: "P v \<Longrightarrow> result_sat P (op_RETURN v)"
  by (simp add: op_RETURN_def calls_to pc_to)

lemma op_DUP_sat:
  assumes v: "P v"
  shows "result_sat P (op_DUP v)"
proof (cases "vm_stack v = []")
  case False
  have "P (v\<lparr>vm_stack := vm_stack v @ [last (vm_stack v)]\<rparr>)" by (rule stack_to [OF v], rule stack_in [OF v]) (use False in auto)
  from pc_to [OF this, of "vm_pc v + 1"] False show ?thesis by (simp add: op_DUP_def Stack_Dup_def)
qed (simp add: op_DUP_def Stack_Dup_def v)

lemma swap_in:
  assumes "Stack_Swap n s = Ret (Inr s')"
  shows "set s' \<subseteq> set s"
proof -
  define i where "i = nat (i64 (int (length s) - 1 - n))"
  have s': "s' = s[length s - 1 := s ! i, i := s ! (length s - 1)]" "i < length s" "s \<noteq> []"
    using assms by (auto simp: Stack_Swap_def Let_def i_def nat_diff_distrib split: if_splits)
  then have "s ! i \<in> set s" "s ! (length s - 1) \<in> set s" by simp_all
  moreover have "set s' \<subseteq> insert (s ! (length s - 1)) (insert (s ! i) (set s))"
    unfolding s'(1) by (meson insert_mono order_trans set_update_subset_insert)
  ultimately show ?thesis by blast
qed

lemma op_SWAP_sat:
  assumes "P v"
  shows "result_sat P (op_SWAP v)"
  unfolding op_SWAP_def
proof (rule with_pop_sat [OF assms])
  fix n v assume v: "P v"
  show "result_sat P (obind (Stack_Swap n (vm_stack v)) (\<lambda>r.
      case r of Inl e \<Rightarrow> Ret (v, Inl e) | Inr s \<Rightarrow> Ret (v\<lparr>vm_stack := s, vm_pc := vm_pc v + 1\<rparr>, Inr ())))"
  proof (cases "Stack_Swap n (vm_stack v)")
    case (Ret r)
    show ?thesis
    proof (cases r)
      case (Inr s)
      have "P (v\<lparr>vm_stack := s\<rparr>)" by (rule stack_to [OF v], rule stack_in [OF v]) (use swap_in Ret Inr in blast)
      from pc_to [OF this, of "vm_pc v + 1"] show ?thesis by (simp add: Ret Inr)
    qed (simp add: Ret v)
  qed (simp_all add: Stack_Swap_def Let_def split: if_splits)
qed

lemma op_JUMP_sat: "P v \<Longrightarrow> result_sat P (with_pop jump_to v)"
  by (intro with_pop_sat jump_to_sat)

lemma op_POP_sat: "P v \<Longrightarrow> result_sat P (with_pop (\<lambda>_ v. Ret (v\<lparr>vm_pc := vm_pc v + 1\<rparr>, Inr ())) v)"
  by (rule with_pop_sat) (simp_all add: pc_to)

lemma op_NOT_sat: "P v \<Longrightarrow> result_sat P (with_pop (\<lambda>a. push_next (bool_val (a = 0))) v)"
  by (intro with_pop_sat push_next_sat in64_Q) simp_all

lemmas op_sats = op_PUSH_sat op_POP_sat op_DIV_sat op_STORE_sat op_LOAD_sat op_JUMP_sat op_JUMPI_sat op_NOT_sat op_CALL_sat op_RETURN_sat
  op_DUP_sat op_SWAP_sat

lemma executeOpcode_sat:
  assumes v: "P v"
  shows "result_sat P (executeOpcode op v)"
proof -
  have bin: "(\<And>a b. in64 (f b a)) \<Longrightarrow> result_sat P (binary_op f v)" for f by (intro binary_op_sat v in64_Q)
  show ?thesis unfolding executeOpcode_def by (simp add: op_sats [OF v] bin v)
qed

end

text \<open>The gas, the code, the contracts and the running contract never change.\<close>

definition same_frame :: "vm \<Rightarrow> vm \<Rightarrow> bool" where
  "same_frame v v' \<longleftrightarrow> vm_gas v' = vm_gas v \<and> vm_gasLimit v' = vm_gasLimit v \<and> vm_code v' = vm_code v \<and>
     vm_contractStore v' = vm_contractStore v \<and> vm_currentContract v' = vm_currentContract v"

interpretation frame: vm_invariant "same_frame v0" "\<lambda>_. True" for v0
  by unfold_locales (simp_all add: same_frame_def)

lemma executeOpcode_frame: "executeOpcode op v = Ret (v', r) \<Longrightarrow> same_frame v v'"
  using frame.executeOpcode_sat [of v v op] by (simp add: same_frame_def)

text \<open>Only the storage of the running contract changes.\<close>

definition stores_apart :: "vm \<Rightarrow> vm \<Rightarrow> bool" where
  "stores_apart v v' \<longleftrightarrow> vm_currentContract v' = vm_currentContract v \<and>
     (\<forall>a. a \<noteq> vm_currentContract v \<longrightarrow> gget (vm_storage v') a = gget (vm_storage v) a)"

interpretation apart: vm_invariant "stores_apart v0" "\<lambda>_. True" for v0
  by unfold_locales (simp_all add: stores_apart_def)

text \<open>Stack values are 64-bit integers and stored values are the decimal text of such integers.\<close>

definition value_map :: "(string, bytes) gomap \<Rightarrow> bool" where
  "value_map m \<longleftrightarrow> gmap_ok m \<and> (\<forall>k b. gget m k = Some b \<longrightarrow> (\<exists>x. in64 x \<and> b = sprint_d x))"

definition vm_ok :: "vm \<Rightarrow> bool" where
  "vm_ok v \<longleftrightarrow> (\<forall>x \<in> set (vm_stack v). in64 x) \<and> gmap_ok (vm_storage v) \<and>
     (\<forall>a m. gget (vm_storage v) a = Some m \<longrightarrow> value_map m)"

lemma value_map_put: "value_map m \<Longrightarrow> in64 x \<Longrightarrow> value_map (gput k (sprint_d x) m)"
  by (auto simp: value_map_def)

lemma value_map_Nil [simp]: "value_map []"
  by (simp add: value_map_def gmap_ok_def)

interpretation typed: vm_invariant vm_ok in64
proof
  fix v val m key
  assume v: "vm_ok v" "in64 val" and m: "m = (case gget (vm_storage v) (vm_currentContract v) of None \<Rightarrow> [] | Some m \<Rightarrow> m)"
  have "value_map m" using v(1) by (auto simp: m vm_ok_def split: option.split)
  then have "value_map (gput key (sprint_d val) m)" using v(2) by (rule value_map_put)
  with v(1) show "vm_ok (v\<lparr>vm_storage := gput (vm_currentContract v) (gput key (sprint_d val) m) (vm_storage v)\<rparr>)"
    by (simp add: vm_ok_def)
qed (simp_all add: vm_ok_def)

subsection \<open>Running code\<close>

definition valid_op :: "u8 \<Rightarrow> bool" where
  "valid_op op \<longleftrightarrow> \<not> (op = OpInvalid \<or> OpCALL < op \<and> op \<noteq> OpDUP \<and> op \<noteq> OpSWAP)"

lemma valid_op_cost:
  assumes "valid_op op"
  shows "GasCosts op \<noteq> 0"
proof -
  have all: "\<forall>n \<in> {1, 2, 3, 4, 5, 6, 7, 8, 9, 10, 11, 12, 13, 14, 15, 16, 17, 18, 19, 20}. GasCosts (word_of_nat n) \<noteq> 0"
    by (simp add: GasCosts_def gas_table_def gget_Cons opcode_defs)
  have "op \<noteq> 0" "op \<le> 20"
    using assms by (auto simp: valid_op_def opcode_defs not_less intro: order_trans)
  then have "0 < unat op" "unat op \<le> 20" by (simp_all add: word_le_nat_alt unat_gt_0)
  then have "unat op \<in> {1, 2, 3, 4, 5, 6, 7, 8, 9, 10, 11, 12, 13, 14, 15, 16, 17, 18, 19, 20}" unfolding insert_iff empty_iff by presburger
  with all have "GasCosts (word_of_nat (unat op)) \<noteq> 0" by blast
  then show ?thesis by simp
qed

function vm_loop :: "vm \<Rightarrow> ExecutionResult \<Rightarrow> (vm \<times> ExecutionResult \<times> unit res) outcome" where
  "vm_loop v r =
     (if int (length (vm_code v)) \<le> vm_pc v
      then Ret (v, r\<lparr>er_Success := True, er_ReturnVal := if vm_stack v \<noteq> [] then last (vm_stack v) else er_ReturnVal r\<rparr>, Inr ())
      else if vm_gas v < GasCosts OpInvalid then Ret (v, r, Inl ''out of gas'')
      else if vm_pc v < 0 then Panic
      else
        let op = vm_code v ! nat (vm_pc v); cost = GasCosts op in
        if \<not> valid_op op then Ret (v, r, Inl ''invalid opcode'')
        else if vm_gas v < cost then Ret (v, r, Inl ''out of gas'')
        else
          let v1 = v\<lparr>vm_gas := vm_gas v - cost\<rparr>; r1 = r\<lparr>er_GasUsed := vm_gasLimit v1 - vm_gas v1\<rparr> in
          (case executeOpcode op v1 of
             Ret (v2, Inl e) \<Rightarrow> Ret (v2, r1, Inl e)
           | Ret (v2, Inr _) \<Rightarrow> vm_loop v2 r1
           | Blocked \<Rightarrow> Blocked
           | Panic \<Rightarrow> Panic))"
  by pat_completeness auto
termination
proof (relation "measure (\<lambda>(v, r). unat (vm_gas v))")
  fix v r op cost v1 r1 v2 x and y :: "vm \<times> unit res" and z :: "unit res"
  assume op: "op = vm_code v ! nat (vm_pc v)" "cost = GasCosts op" "\<not> \<not> valid_op op" "\<not> vm_gas v < cost"
    and v1: "v1 = v\<lparr>vm_gas := vm_gas v - cost\<rparr>" "executeOpcode op v1 = Ret y" "(v2, z) = y"
  have "vm_gas v2 = vm_gas v - cost" using executeOpcode_frame [of op v1 v2 z] v1 by (simp add: same_frame_def)
  moreover have "0 < cost" using valid_op_cost [of op] op by (simp add: word_gt_0)
  moreover have "cost \<le> vm_gas v" using op(4) by simp
  ultimately have "unat (vm_gas v2) < unat (vm_gas v)" by (simp add: unat_sub word_less_nat_alt word_le_nat_alt)
  then show "((v2, r1), v, r) \<in> measure (\<lambda>(v, r). unat (vm_gas v))" by simp
qed simp

declare vm_loop.simps [simp del]

definition Execute :: "bytes \<Rightarrow> vm \<Rightarrow> (vm \<times> ExecutionResult \<times> unit res) outcome" where
  "Execute code v =
     vm_loop (v\<lparr>vm_code := code, vm_pc := 0, vm_stack := [],
         vm_currentContract := (if vm_currentContract v = [] then ''default'' else vm_currentContract v)\<rparr>)
       \<lparr>er_Success = False, er_GasUsed = 0, er_ReturnVal = 0, er_Logs = []\<rparr>"

subsection \<open>Contracts\<close>

definition Deploy :: "bytes \<Rightarrow> string \<Rightarrow> string \<Rightarrow> u64 \<Rightarrow> vm \<Rightarrow> vm \<times> string" where
  "Deploy code owner name gasLimit v =
     (let addr = GenerateAddress (bytes_of_string (name @ owner)) in
      (v\<lparr>vm_contractStore := gput addr \<lparr>ct_Code = code, ct_Storage = [], ct_Owner = owner, ct_Name = name, ct_GasLimit = gasLimit\<rparr>
           (vm_contractStore v)\<rparr>, addr))"

text \<open>The loop that copies the entries of one map into another.\<close>

definition copy_entries :: "(string, bytes) gomap \<Rightarrow> (string, bytes) gomap \<Rightarrow> (string, bytes) gomap" where
  "copy_entries src dst = fold (\<lambda>(k, x). gput k x) src dst"

definition storage_of :: "(string, (string, bytes) gomap) gomap \<Rightarrow> string \<Rightarrow> (string, bytes) gomap" where
  "storage_of st a = (case gget st a of None \<Rightarrow> [] | Some m \<Rightarrow> m)"

definition Call :: "string \<Rightarrow> u64 \<Rightarrow> vm \<Rightarrow> (vm \<times> ExecutionResult option \<times> unit res) outcome" where
  "Call contractAddr gasLimit v =
     (case gget (vm_contractStore v) contractAddr of
        None \<Rightarrow> Ret (v, None, Inl ''contract not found'')
      | Some contract \<Rightarrow>
          let st = gput contractAddr (copy_entries (ct_Storage contract) (storage_of (vm_storage v) contractAddr)) (vm_storage v) in
          obind (Execute (ct_Code contract) ((NewVM gasLimit)\<lparr>vm_contractStore := vm_contractStore v, vm_storage := st\<rparr>)) (\<lambda>(m, result, err).
            let v1 = v\<lparr>vm_storage := vm_storage m\<rparr> in
            case err of
              Inl e \<Rightarrow> Ret (v1, Some result, Inl e)
            | Inr _ \<Rightarrow>
                Ret (v1\<lparr>vm_contractStore := gput contractAddr
                       (contract\<lparr>ct_Storage := copy_entries (storage_of (vm_storage m) contractAddr) (ct_Storage contract)\<rparr>)
                       (vm_contractStore v)\<rparr>, Some result, Inr ())))"

definition GetStorage :: "string \<Rightarrow> vm \<Rightarrow> (string, bytes) gomap res" where
  "GetStorage contractAddr v =
     (case gget (vm_contractStore v) contractAddr of None \<Rightarrow> Inl ''contract not found'' | Some c \<Rightarrow> Inr (ct_Storage c))"

definition GetContract :: "string \<Rightarrow> vm \<Rightarrow> contract res" where
  "GetContract addr v = (case gget (vm_contractStore v) addr of None \<Rightarrow> Inl ''contract not found'' | Some c \<Rightarrow> Inr c)"

subsection \<open>What a run keeps\<close>

locale vm_run = vm_invariant +
  assumes gas_to: "P v \<Longrightarrow> P (v\<lparr>vm_gas := x\<rparr>)"
begin

lemma vm_loop_sat: "P v \<Longrightarrow> vm_loop v r = Ret (v', r', e) \<Longrightarrow> P v'"
proof (induction v r rule: vm_loop.induct)
  case (1 v r)
  let ?op = "vm_code v ! nat (vm_pc v)"
  let ?v1 = "v\<lparr>vm_gas := vm_gas v - GasCosts ?op\<rparr>"
  have "result_sat P (executeOpcode ?op ?v1)" by (rule executeOpcode_sat [OF gas_to [OF 1(2)]])
  then show ?case
    using 1 by (subst (asm) (2) vm_loop.simps) (auto simp: Let_def split: if_splits outcome.splits prod.splits sum.splits)
qed

end

interpretation typed_run: vm_run vm_ok in64
  by unfold_locales (simp add: vm_ok_def)

interpretation apart_run: vm_run "stores_apart v0" "\<lambda>_. True" for v0
  by unfold_locales (simp add: stores_apart_def)

subsection \<open>Properties\<close>

lemma bytes_back: "map (\<lambda>b. char_of (unat b)) (bytes_of_string s) = s"
proof -
  have "char_of (unat (of_char c :: byte)) = c" for c
  proof -
    have "of_char c = (word_of_nat (of_char c) :: byte)" by (simp add: of_char_def)
    moreover have "of_char c < (256 :: nat)" by simp
    ultimately have "unat (of_char c :: byte) = of_char c" by (simp add: unsigned_of_nat take_bit_nat_eq_self)
    then show ?thesis by simp
  qed
  then show ?thesis by (simp add: bytes_of_string_def comp_def)
qed

lemma dec_nat_nonempty: "dec_nat n \<noteq> []"
  by (subst dec_nat.simps) simp

lemma sscan_sprint: "in64 x \<Longrightarrow> sscan_d (sprint_d x) = x"
proof -
  assume x: "in64 x"
  have tw: "takeWhile is_digit (dec_nat n) = dec_nat n" for n using dec_nat_digits by simp
  have nd: "hd (dec_nat n) \<noteq> CHR ''-''" for n
    using dec_nat_digits [of "hd (dec_nat n)" n] dec_nat_nonempty [of n] by (auto simp: is_digit_def)
  show ?thesis
    using x nd by (auto simp: sscan_d_def sprint_d_def bytes_back dec_int_def tw dec_nat_nonempty in64_def Let_def)
qed

lemma copy_entries_get: "gmap_ok src \<Longrightarrow> gget (copy_entries src dst) k = (case gget src k of Some x \<Rightarrow> Some x | None \<Rightarrow> gget dst k)"
proof (induction src arbitrary: dst)
  case (Cons e src)
  obtain k' x where e: "e = (k', x)" by fastforce
  have "gget src k' = None" using Cons.prems by (simp add: e gmap_ok_def gget_None_iff)
  then show ?case using Cons by (auto simp: e copy_entries_def gget_Cons gmap_ok_def split: option.split)
qed (simp add: copy_entries_def)

lemma copy_entries_ok: "gmap_ok dst \<Longrightarrow> gmap_ok (copy_entries src dst)"
  by (induction src arbitrary: dst) (auto simp: copy_entries_def)

lemma copy_value_map: "value_map src \<Longrightarrow> value_map dst \<Longrightarrow> value_map (copy_entries src dst)"
  by (auto simp: value_map_def copy_entries_get copy_entries_ok split: option.splits)

text \<open>A machine as its users drive it: deployments, calls and runs of code, in any order.\<close>

datatype vm_op = DoDeploy bytes string string u64 | DoCall string u64 | DoExecute bytes

fun vm_step :: "vm_op \<Rightarrow> vm \<Rightarrow> vm outcome" where
  "vm_step (DoDeploy code owner name gasLimit) v = Ret (fst (Deploy code owner name gasLimit v))"
| "vm_step (DoCall addr gasLimit) v = obind (Call addr gasLimit v) (\<lambda>(v', _). Ret v')"
| "vm_step (DoExecute code) v = obind (Execute code v) (\<lambda>(v', _). Ret v')"

fun vm_steps :: "vm_op list \<Rightarrow> vm \<Rightarrow> vm outcome" where
  "vm_steps [] v = Ret v"
| "vm_steps (oper # ops) v = obind (vm_step oper v) (vm_steps ops)"

definition contracts_ok :: "vm \<Rightarrow> bool" where
  "contracts_ok v \<longleftrightarrow> gmap_ok (vm_contractStore v) \<and> (\<forall>a c. gget (vm_contractStore v) a = Some c \<longrightarrow> value_map (ct_Storage c))"

lemma vm_ok_Execute: "vm_ok v \<Longrightarrow> Execute code v = Ret (v', r, e) \<Longrightarrow> vm_ok v'"
  unfolding Execute_def by (erule typed_run.vm_loop_sat [rotated]) (simp add: vm_ok_def)

definition same_contracts :: "vm \<Rightarrow> vm \<Rightarrow> bool" where
  "same_contracts v v' \<longleftrightarrow> vm_contractStore v' = vm_contractStore v \<and> vm_gasLimit v' = vm_gasLimit v \<and> vm_code v' = vm_code v"

interpretation contracts_run: vm_run "same_contracts v0" "\<lambda>_. True" for v0
  by unfold_locales (simp_all add: same_contracts_def)

lemma Execute_contracts: "Execute code v = Ret (v', r, e) \<Longrightarrow> vm_contractStore v' = vm_contractStore v \<and> vm_gasLimit v' = vm_gasLimit v"
  unfolding Execute_def by (drule contracts_run.vm_loop_sat [rotated, where ?v0.0 = "v\<lparr>vm_code := code\<rparr>"]) (simp_all add: same_contracts_def)

lemma storage_of_ok: "vm_ok v \<Longrightarrow> value_map (storage_of (vm_storage v) a)"
  by (auto simp: vm_ok_def storage_of_def split: option.split)

definition call_vm :: "contract \<Rightarrow> string \<Rightarrow> u64 \<Rightarrow> vm \<Rightarrow> vm" where
  "call_vm c addr gl v = (NewVM gl)\<lparr>vm_contractStore := vm_contractStore v,
     vm_storage := gput addr (copy_entries (ct_Storage c) (storage_of (vm_storage v) addr)) (vm_storage v)\<rparr>"

lemma Call_cases:
  assumes "Call addr gl v = Ret (v', r, e)" and "gget (vm_contractStore v) addr = Some c"
  obtains m res x where "Execute (ct_Code c) (call_vm c addr gl v) = Ret (m, res, Inl x)" "v' = v\<lparr>vm_storage := vm_storage m\<rparr>" "e = Inl x"
  | m res where "Execute (ct_Code c) (call_vm c addr gl v) = Ret (m, res, Inr ())" "e = Inr ()"
      "v' = v\<lparr>vm_storage := vm_storage m, vm_contractStore := gput addr
         (c\<lparr>ct_Storage := copy_entries (storage_of (vm_storage m) addr) (ct_Storage c)\<rparr>) (vm_contractStore v)\<rparr>"
proof -
  obtain m res err where ex: "Execute (ct_Code c) (call_vm c addr gl v) = Ret (m, res, err)"
    using assms by (auto simp: Call_def call_vm_def Let_def obind_Ret_iff)
  show thesis
  proof (cases err)
    case (Inl x)
    then show thesis using assms ex by (intro that(1) [of m res x]) (simp_all add: Call_def call_vm_def)
  next
    case (Inr u)
    then show thesis using assms ex by (intro that(2) [of m res]) (simp_all add: Call_def call_vm_def)
  qed
qed

lemma vm_step_ok:
  assumes "vm_ok v" and "contracts_ok v" and "vm_step oper v = Ret v'"
  shows "vm_ok v' \<and> contracts_ok v'"
proof (cases oper)
  case (DoDeploy code owner name gl)
  then show ?thesis using assms by (auto simp: Deploy_def Let_def vm_ok_def contracts_ok_def split: if_splits)
next
  case (DoExecute code)
  then obtain r e where "Execute code v = Ret (v', r, e)" using assms(3) by (auto simp: obind_Ret_iff)
  then show ?thesis using vm_ok_Execute assms(1,2) Execute_contracts by (auto simp: contracts_ok_def)
next
  case (DoCall addr gl)
  show ?thesis
  proof (cases "gget (vm_contractStore v) addr")
    case None
    then show ?thesis using DoCall assms by (simp add: Call_def)
  next
    case (Some c)
    have c: "value_map (ct_Storage c)" using assms(2) Some by (auto simp: contracts_ok_def)
    have n: "vm_ok (call_vm c addr gl v)"
      using assms(1) copy_value_map [OF c storage_of_ok [OF assms(1)]] by (simp add: vm_ok_def NewVM_def call_vm_def)
    obtain r e where "Call addr gl v = Ret (v', r, e)" using assms(3) DoCall by (auto simp: obind_Ret_iff)
    then show ?thesis using Some
    proof (cases rule: Call_cases)
      case (1 m res x)
      then show ?thesis using vm_ok_Execute [OF n 1(1)] assms(1,2) by (simp add: vm_ok_def contracts_ok_def)
    next
      case (2 m res)
      have m: "vm_ok m" by (rule vm_ok_Execute [OF n 2(1)])
      have "value_map (copy_entries (storage_of (vm_storage m) addr) (ct_Storage c))" by (rule copy_value_map [OF storage_of_ok [OF m] c])
      then show ?thesis using m assms(1,2) 2(3) by (simp add: vm_ok_def contracts_ok_def)
    qed
  qed
qed



text \<open>Machines whose program counter and return addresses are not negative; only \<^verbatim>\<open>CALL\<close> and \<^verbatim>\<open>SWAP\<close> endanger this.\<close>

definition good :: "vm \<Rightarrow> bool" where
  "good v \<longleftrightarrow> 0 \<le> vm_pc v \<and> (\<forall>c \<in> set (vm_callStack v). 0 \<le> c)"

definition safe :: "(vm \<times> unit res) outcome \<Rightarrow> bool" where
  "safe r \<longleftrightarrow> (case r of Ret (v, _) \<Rightarrow> good v | _ \<Rightarrow> False)"

lemma good_simps [simp]: "safe (Ret (v, e)) = good v" "good (v\<lparr>vm_stack := s\<rparr>) = good v" "good (v\<lparr>vm_storage := st\<rparr>) = good v"
  "good (v\<lparr>vm_gas := x\<rparr>) = good v"
  by (simp_all add: safe_def good_def)

lemma good_next: "good v \<Longrightarrow> good (v\<lparr>vm_pc := vm_pc v + 1\<rparr>)"
  by (simp add: good_def)

lemma with_pop_safe: "good v \<Longrightarrow> (\<And>x v. good v \<Longrightarrow> safe (k x v)) \<Longrightarrow> safe (with_pop k v)"
  by (simp add: with_pop_def Stack_Pop_def)

lemma push_next_safe: "good v \<Longrightarrow> safe (push_next x v)"
  by (simp add: push_next_def good_def)

lemma binary_op_safe: "good v \<Longrightarrow> safe (binary_op f v)"
  unfolding binary_op_def by (intro with_pop_safe push_next_safe)

lemma jump_to_safe: "good v \<Longrightarrow> safe (jump_to t v)"
  by (simp add: jump_to_def good_def)

lemma op_safe:
  assumes v: "good v"
  shows "safe (op_PUSH v)" "safe (with_pop (\<lambda>_ v. Ret (v\<lparr>vm_pc := vm_pc v + 1\<rparr>, Inr ())) v)" "safe (op_DIV v)" "safe (op_STORE v)"
    "safe (op_LOAD v)" "safe (with_pop jump_to v)" "safe (op_JUMPI v)" "safe (with_pop (\<lambda>a. push_next (bool_val (a = 0))) v)"
    "safe (op_RETURN v)" "safe (op_DUP v)"
proof -
  show "safe (op_PUSH v)" using v by (simp add: op_PUSH_def Let_def good_next push_next_safe)
  show "safe (with_pop (\<lambda>_ v. Ret (v\<lparr>vm_pc := vm_pc v + 1\<rparr>, Inr ())) v)" by (rule with_pop_safe [OF v]) (simp add: good_next)
  show "safe (op_DIV v)" unfolding op_DIV_def by (rule with_pop_safe [OF v]) (simp add: with_pop_safe push_next_safe)
  show "safe (op_STORE v)" unfolding op_STORE_def Let_def by (intro with_pop_safe [OF v] with_pop_safe) (simp_all add: good_def)
  show "safe (op_LOAD v)" unfolding op_LOAD_def by (intro with_pop_safe [OF v] push_next_safe)
  show "safe (with_pop jump_to v)" by (intro with_pop_safe [OF v] jump_to_safe)
  show "safe (op_JUMPI v)" unfolding op_JUMPI_def by (intro with_pop_safe [OF v] with_pop_safe) (simp_all add: jump_to_safe good_next)
  show "safe (with_pop (\<lambda>a. push_next (bool_val (a = 0))) v)" by (intro with_pop_safe [OF v] push_next_safe)
  show "safe (op_RETURN v)" using v by (auto simp: op_RETURN_def good_def dest: in_set_butlastD)
  show "safe (op_DUP v)" using v by (simp add: op_DUP_def Stack_Dup_def good_def)
qed

lemma executeOpcode_safe: "good v \<Longrightarrow> op \<noteq> OpCALL \<Longrightarrow> op \<noteq> OpSWAP \<Longrightarrow> safe (executeOpcode op v)"
  unfolding executeOpcode_def by (simp add: op_safe binary_op_safe)

text \<open>One round of the loop.\<close>

lemma vm_loop_round:
  assumes "vm_pc v < int (length (vm_code v))" and "0 \<le> vm_pc v" and "op = vm_code v ! nat (vm_pc v)" and "valid_op op" and "GasCosts op \<le> vm_gas v"
    and "v1 = v\<lparr>vm_gas := vm_gas v - GasCosts op\<rparr>"
  shows "vm_loop v r = (case executeOpcode op v1 of
      Ret (v2, Inl e) \<Rightarrow> Ret (v2, r\<lparr>er_GasUsed := vm_gasLimit v1 - vm_gas v1\<rparr>, Inl e)
    | Ret (v2, Inr _) \<Rightarrow> vm_loop v2 (r\<lparr>er_GasUsed := vm_gasLimit v1 - vm_gas v1\<rparr>)
    | Blocked \<Rightarrow> Blocked | Panic \<Rightarrow> Panic)"
proof -
  have z: "\<not> vm_gas v < GasCosts OpInvalid" by (simp add: GasCosts_def gas_table_def gget_Cons opcode_defs)
  have c: "\<not> int (length (vm_code v)) \<le> vm_pc v" "\<not> vm_pc v < 0" "\<not> vm_gas v < GasCosts op" using assms by simp_all
  show ?thesis
    unfolding assms(6)
    by (subst vm_loop.simps) (simp only: Let_def z c assms(4) if_False if_True not_True_eq_False flip: assms(3))
qed

lemma vm_loop_cases:
  obtains (stop) "\<And>r. vm_loop v r \<noteq> Blocked" "\<And>r. 0 \<le> vm_pc v \<Longrightarrow> vm_loop v r \<noteq> Panic"
      "\<And>r v' r' e. vm_loop v r = Ret (v', r', e) \<Longrightarrow> v' = v \<and> er_GasUsed r' = er_GasUsed r"
  | (round) op v1 where "op = vm_code v ! nat (vm_pc v)" "op \<in> set (vm_code v)" "0 \<le> vm_pc v" "GasCosts op \<le> vm_gas v"
      "v1 = v\<lparr>vm_gas := vm_gas v - GasCosts op\<rparr>"
      "\<And>r. vm_loop v r = (case executeOpcode op v1 of
          Ret (v2, Inl e) \<Rightarrow> Ret (v2, r\<lparr>er_GasUsed := vm_gasLimit v1 - vm_gas v1\<rparr>, Inl e)
        | Ret (v2, Inr _) \<Rightarrow> vm_loop v2 (r\<lparr>er_GasUsed := vm_gasLimit v1 - vm_gas v1\<rparr>)
        | Blocked \<Rightarrow> Blocked | Panic \<Rightarrow> Panic)"
      "\<And>v2 e. executeOpcode op v1 = Ret (v2, e) \<Longrightarrow> unat (vm_gas v2) < unat (vm_gas v)"
proof -
  let ?op = "vm_code v ! nat (vm_pc v)"
  let ?v1 = "v\<lparr>vm_gas := vm_gas v - GasCosts ?op\<rparr>"
  show thesis
  proof (cases "int (length (vm_code v)) \<le> vm_pc v \<or> vm_gas v < GasCosts OpInvalid \<or> vm_pc v < 0 \<or> \<not> valid_op ?op \<or> vm_gas v < GasCosts ?op")
    case True
    then have d: "vm_loop v r = Panic \<and> vm_pc v < 0 \<or> (\<exists>r' e. vm_loop v r = Ret (v, r', e) \<and> er_GasUsed r' = er_GasUsed r)" for r
      by (subst vm_loop.simps, subst vm_loop.simps) (auto simp: Let_def)
    show thesis
    proof (rule stop)
      fix r
      show "vm_loop v r \<noteq> Blocked" using d [of r] by auto
      show "vm_loop v r \<noteq> Panic" if "0 \<le> vm_pc v" using d [of r] that by auto
      show "v' = v \<and> er_GasUsed r' = er_GasUsed r" if "vm_loop v r = Ret (v', r', e)" for v' r' e using d [of r] that by auto
    qed
  next
    case False
    then have c: "vm_pc v < int (length (vm_code v))" "0 \<le> vm_pc v" "valid_op ?op" "GasCosts ?op \<le> vm_gas v" by auto
    have "unat (vm_gas v2) < unat (vm_gas v)" if "executeOpcode ?op ?v1 = Ret (v2, e)" for v2 e
    proof -
      have "vm_gas v2 = vm_gas v - GasCosts ?op" using executeOpcode_frame [OF that] by (simp add: same_frame_def)
      moreover have "0 < GasCosts ?op" using valid_op_cost [OF c(3)] by (simp add: word_gt_0)
      ultimately show ?thesis using c(4) by (simp add: unat_sub word_less_nat_alt word_le_nat_alt)
    qed
    moreover have "?op \<in> set (vm_code v)" using c(1,2) by simp
    ultimately show thesis using c by (intro round [OF refl _ c(2,4) refl vm_loop_round [OF c(1,2) refl c(3,4) refl]])
  qed
qed

lemma vm_loop_total:
  "vm_loop v r \<noteq> Blocked \<and> (good v \<and> OpCALL \<notin> set (vm_code v) \<and> OpSWAP \<notin> set (vm_code v) \<longrightarrow> vm_loop v r \<noteq> Panic)"
proof (induction "unat (vm_gas v)" arbitrary: v r rule: less_induct)
  case less
  show ?case
  proof (cases v rule: vm_loop_cases)
    case stop
    then show ?thesis by (simp add: good_def)
  next
    case (round op v1)
    have sat: "result_sat (same_frame v1) (executeOpcode op v1)" by (rule frame.executeOpcode_sat) (simp add: same_frame_def)
    have sf: "safe (executeOpcode op v1)" if "good v" "OpCALL \<notin> set (vm_code v)" "OpSWAP \<notin> set (vm_code v)"
      using that round(2,5) by (intro executeOpcode_safe) auto
    show ?thesis
    proof (cases "executeOpcode op v1")
      case (Ret p)
      obtain v2 e where p: "p = (v2, e)" by fastforce
      have "same_frame v1 v2" using sat unfolding Ret p by simp
      then have code: "vm_code v2 = vm_code v" by (simp add: same_frame_def round(5))
      have ih: "vm_loop v2 r' \<noteq> Blocked \<and> (good v2 \<and> OpCALL \<notin> set (vm_code v) \<and> OpSWAP \<notin> set (vm_code v) \<longrightarrow> vm_loop v2 r' \<noteq> Panic)" for r'
        using less [OF round(7)] code by (simp add: Ret p)
      have "good v2" if "good v" "OpCALL \<notin> set (vm_code v)" "OpSWAP \<notin> set (vm_code v)" using sf [OF that] by (simp add: Ret p)
      with ih show ?thesis by (cases e) (simp_all add: round(6) Ret p)
    qed (use sat sf in \<open>auto simp: round(6) safe_def\<close>)
  qed
qed

lemma vm_loop_gas:
  "vm_loop v r = Ret (v', r', e) \<Longrightarrow> er_GasUsed r = vm_gasLimit v - vm_gas v \<Longrightarrow>
     er_GasUsed r' = vm_gasLimit v - vm_gas v' \<and> vm_gas v' \<le> vm_gas v"
proof (induction "unat (vm_gas v)" arbitrary: v r rule: less_induct)
  case less
  show ?case
  proof (cases v rule: vm_loop_cases)
    case stop
    then show ?thesis using less by (metis order_refl)
  next
    case (round op v1)
    obtain v2 x where ex: "executeOpcode op v1 = Ret (v2, x)" using less(2) by (auto simp: round(6) split: outcome.splits)
    have fr: "vm_gas v2 = vm_gas v1" "vm_gasLimit v2 = vm_gasLimit v" using executeOpcode_frame [OF ex] by (simp_all add: same_frame_def round(5))
    have le: "vm_gas v2 \<le> vm_gas v" using round(7) [OF ex] by (simp add: word_le_nat_alt)
    show ?thesis
    proof (cases x)
      case (Inl y)
      then have "v' = v2" "r' = r\<lparr>er_GasUsed := vm_gasLimit v1 - vm_gas v1\<rparr>" using less(2) ex by (simp_all add: round(6))
      then show ?thesis using fr le by (simp add: round(5))
    next
      case (Inr u)
      then have "vm_loop v2 (r\<lparr>er_GasUsed := vm_gasLimit v1 - vm_gas v1\<rparr>) = Ret (v', r', e)" using less(2) ex by (simp add: round(6))
      from less(1) [OF round(7) [OF ex] this] fr le show ?thesis by (simp add: round(5)) (metis order_trans)
    qed
  qed
qed

text \<open>C17. Every run of a fresh machine ends: it returns with the gas it reports as used taken from its limit, or it panics, and then
  its code contains a call or a swap.  The loop has no other bound than the gas.\<close>

theorem Execute_ends:
  assumes "vm_gas v = vm_gasLimit v" and "vm_callStack v = []"
  shows "(\<exists>v' r e. Execute code v = Ret (v', r, e) \<and> er_GasUsed r = vm_gasLimit v - vm_gas v' \<and> vm_gas v' \<le> vm_gasLimit v) \<or>
     Execute code v = Panic \<and> (OpCALL \<in> set code \<or> OpSWAP \<in> set code)"
proof -
  let ?v = "v\<lparr>vm_code := code, vm_pc := 0, vm_stack := [],
    vm_currentContract := (if vm_currentContract v = [] then ''default'' else vm_currentContract v)\<rparr>"
  have good: "good ?v" using assms(2) by (simp add: good_def)
  let ?r = "\<lparr>er_Success = False, er_GasUsed = 0, er_ReturnVal = 0, er_Logs = []\<rparr>"
  have eq: "Execute code v = vm_loop ?v ?r" by (simp add: Execute_def)
  show ?thesis
  proof (cases "Execute code v")
    case (Ret p)
    then obtain v' r e where p: "Execute code v = Ret (v', r, e)" by (cases p) auto
    from vm_loop_gas [OF p [unfolded eq]] assms(1) p show ?thesis by auto
  next
    case Blocked
    then show ?thesis using vm_loop_total [of ?v ?r] unfolding eq by blast
  next
    case Panic
    then have "\<not> (good ?v \<and> OpCALL \<notin> set (vm_code ?v) \<and> OpSWAP \<notin> set (vm_code ?v))" using vm_loop_total [of ?v ?r] unfolding eq by blast
    then have "OpCALL \<in> set code \<or> OpSWAP \<in> set code" using good by auto
    with Panic show ?thesis by blast
  qed
qed

theorem Execute_ends_w:
  "(\<exists>v' r e. Execute [OpPUSH, 0, OpJUMP] (NewVM 50) = Ret (v', r, e) \<and> er_GasUsed r = 50 - vm_gas v' \<and> vm_gas v' \<le> 50) \<or>
     Execute [OpPUSH, 0, OpJUMP] (NewVM 50) = Panic \<and> (OpCALL \<in> set [OpPUSH, 0, OpJUMP] \<or> OpSWAP \<in> set [OpPUSH, 0, OpJUMP])"
  using Execute_ends [of "NewVM 50" "[OpPUSH, 0, OpJUMP]"] by (simp add: NewVM_def)

text \<open>A return outside of every call consumes all gas: the program counter does not move, so the machine executes the same
  opcode until it runs out of gas, and the run fails.\<close>

theorem return_outside_call_burns_gas:
  assumes "vm_callStack v = []" and "0 \<le> vm_pc v" and "vm_pc v < int (length (vm_code v))" and "vm_code v ! nat (vm_pc v) = OpRETURN"
  shows "\<exists>r'. vm_loop v r = Ret (v\<lparr>vm_gas := 0\<rparr>, r', Inl ''out of gas'')"
  using assms
proof (induction "unat (vm_gas v)" arbitrary: v r)
  case 0
  have cost: "GasCosts OpRETURN = 1" and inv: "GasCosts OpInvalid = 0" by (simp_all add: GasCosts_def gas_table_def gget_Cons opcode_defs)
  have z: "vm_gas v = 0" using 0(1) by (simp add: unat_eq_zero)
  then have "v\<lparr>vm_gas := 0\<rparr> = v" by simp
  moreover have "valid_op OpRETURN" by (simp add: valid_op_def opcode_defs)
  ultimately show ?case using 0 z cost inv by (subst vm_loop.simps) (simp add: Let_def)
next
  case (Suc n)
  have cost: "GasCosts OpRETURN = 1" by (simp add: GasCosts_def gas_table_def gget_Cons opcode_defs)
  have valid: "valid_op OpRETURN" by (simp add: valid_op_def opcode_defs)
  have pos: "1 \<le> vm_gas v" using Suc(2) by (metis One_nat_def Suc_le_eq unat_1 word_le_nat_alt zero_less_Suc)
  let ?v1 = "v\<lparr>vm_gas := vm_gas v - 1\<rparr>"
  have ex: "executeOpcode OpRETURN ?v1 = Ret (?v1, Inr ())" using Suc(3) by (simp add: executeOpcode_def op_RETURN_def opcode_defs)
  have step: "vm_loop v r = vm_loop ?v1 (r\<lparr>er_GasUsed := vm_gasLimit ?v1 - vm_gas ?v1\<rparr>)"
    using vm_loop_round [OF Suc(5,4) Suc(6) [symmetric] valid, of ?v1 r] pos ex by (simp add: cost)
  have "n = unat (vm_gas ?v1)" using Suc(2) pos by (simp add: unat_sub word_le_nat_alt)
  from Suc(1) [OF this, of "r\<lparr>er_GasUsed := vm_gasLimit ?v1 - vm_gas ?v1\<rparr>"] Suc(3-6) show ?case unfolding step by simp
qed

theorem return_outside_call_burns_gas_w:
  "\<exists>r'. vm_loop ((NewVM 100)\<lparr>vm_code := [OpRETURN]\<rparr>) \<lparr>er_Success = False, er_GasUsed = 0, er_ReturnVal = 0, er_Logs = []\<rparr> =
     Ret ((NewVM 100)\<lparr>vm_code := [OpRETURN], vm_gas := 0\<rparr>, r', Inl ''out of gas'')"
  using return_outside_call_burns_gas [of "(NewVM 100)\<lparr>vm_code := [OpRETURN]\<rparr>"] by (simp add: NewVM_def)

lemma Execute_apart:
  assumes "Execute code v = Ret (v', r, e)" and "vm_currentContract v = []" and "a \<noteq> ''default''"
  shows "gget (vm_storage v') a = gget (vm_storage v) a"
proof -
  let ?v = "v\<lparr>vm_code := code, vm_pc := 0, vm_stack := [], vm_currentContract := ''default''\<rparr>"
  have "vm_loop ?v \<lparr>er_Success = False, er_GasUsed = 0, er_ReturnVal = 0, er_Logs = []\<rparr> = Ret (v', r, e)"
    using assms(1,2) by (simp add: Execute_def)
  then have "stores_apart ?v v'" by (rule apart_run.vm_loop_sat [rotated]) (simp add: stores_apart_def)
  then show ?thesis using assms(3) by (simp add: stores_apart_def)
qed

text \<open>C27. A called contract cannot write its own storage: the machine that runs it works on the storage of the name \<^verbatim>\<open>default\<close>,
  which all contracts share, so a successful call leaves the storage of the contract, and the entries of every other name, as they were.\<close>

theorem contract_storage_never_written:
  assumes "vm_ok v" and "contracts_ok v" and "gget (vm_contractStore v) addr = Some c" and "addr \<noteq> ''default''"
    and own: "\<And>k x. gget (storage_of (vm_storage v) addr) k = Some x \<Longrightarrow> gget (ct_Storage c) k = Some x"
    and call: "Call addr gl v = Ret (v', r, Inr ())"
  shows "\<exists>m. GetStorage addr v' = Inr m \<and> (\<forall>k. gget m k = gget (ct_Storage c) k) \<and>
     (\<forall>a. a \<noteq> ''default'' \<and> a \<noteq> addr \<longrightarrow> gget (vm_storage v') a = gget (vm_storage v) a)"
  using call assms(3)
proof (cases rule: Call_cases)
  case (2 m res)
  have ok: "gmap_ok (ct_Storage c)" "gmap_ok (storage_of (vm_storage v) addr)"
    using assms(1-3) storage_of_ok [OF assms(1)] by (auto simp: contracts_ok_def value_map_def)
  have cur: "vm_currentContract (call_vm c addr gl v) = []" by (simp add: call_vm_def NewVM_def)
  have same: "gget (vm_storage m) a = gget (vm_storage (call_vm c addr gl v)) a" if "a \<noteq> ''default''" for a
    by (rule Execute_apart [OF 2(1) cur that])
  let ?own = "copy_entries (ct_Storage c) (storage_of (vm_storage v) addr)"
  have st: "storage_of (vm_storage m) addr = ?own" using same [OF assms(4)] by (simp add: storage_of_def call_vm_def)
  have get: "gget ?own k = gget (ct_Storage c) k" for k
    using own [of k] by (auto simp: copy_entries_get [OF ok(1)] split: option.split) (metis not_None_eq option.distinct(1))
  have "gmap_ok ?own" by (rule copy_entries_ok [OF ok(2)])
  then have "gget (copy_entries ?own (ct_Storage c)) k = gget (ct_Storage c) k" for k
    by (simp add: copy_entries_get get split: option.split)
  moreover have "GetStorage addr v' = Inr (copy_entries ?own (ct_Storage c))" by (simp add: GetStorage_def 2(3) st)
  moreover have "gget (vm_storage v') a = gget (vm_storage v) a" if "a \<noteq> ''default''" "a \<noteq> addr" for a
    using same [OF that(1)] that(2) by (simp add: 2(3) call_vm_def)
  ultimately show ?thesis by blast
qed (use call in simp)

definition keeper :: contract where
  "keeper = \<lparr>ct_Code = [OpPUSH, 5, OpPUSH, 7, OpSTORE], ct_Storage = [], ct_Owner = ''o'', ct_Name = ''n'', ct_GasLimit = 100\<rparr>"

theorem contract_storage_never_written_w:
  "\<exists>v' r m. Call ''a'' 100 ((NewVM 0)\<lparr>vm_contractStore := [(''a'', keeper)]\<rparr>) = Ret (v', r, Inr ()) \<and> GetStorage ''a'' v' = Inr m \<and>
     (\<forall>k. gget m k = None) \<and> load_value (v'\<lparr>vm_currentContract := ''default''\<rparr>) 5 = 7"
proof -
  let ?v = "(NewVM 0)\<lparr>vm_contractStore := [(''a'', keeper)]\<rparr>"
  have "case Call ''a'' 100 ?v of Ret (v', r, Inr _) \<Rightarrow> load_value (v'\<lparr>vm_currentContract := ''default''\<rparr>) 5 = 7 | _ \<Rightarrow> False"
    by code_simp
  then obtain v' r where call: "Call ''a'' 100 ?v = Ret (v', r, Inr ())" and l: "load_value (v'\<lparr>vm_currentContract := ''default''\<rparr>) 5 = 7"
    by (auto split: outcome.splits prod.splits sum.splits)
  have "vm_ok ?v" "contracts_ok ?v" by (simp_all add: vm_ok_def contracts_ok_def NewVM_def gmap_ok_def gget_Cons keeper_def)
  from contract_storage_never_written [OF this _ _ _ call, of keeper] call l show ?thesis
    by (auto simp: NewVM_def gget_Cons storage_of_def keeper_def)
qed

end
