(* ===== verification/Trie.thy ===== *)
theory Trie
  imports Accounts "HOL-Library.List_Lexorder" "HOL-Library.Char_ord"
begin

text \<open>
  The trie of \<^verbatim>\<open>internal/trie/trie.go\<close>: a radix tree over the nibbles of a key, with leaf, extension and branch nodes and a hash
  in each node.  A node is a value of the datatype \<open>node\<close>, a nil pointer is \<open>None\<close>; the operations
  return the new node, where the code updates it in place.  A child index outside the array is the outcome \<open>Panic\<close>.
\<close>

subsection \<open>Nodes and hashes\<close>

datatype node_type = EmptyNode | LeafNode | ExtensionNode | BranchNode

datatype node = Node (n_Type: node_type) (n_KeyPath: bytes) (n_Value: slice) (n_Children: "node option list") (n_Hash: bytes)

definition no_children :: "node option list" where
  "no_children = replicate 16 None"

definition leaf :: "bytes \<Rightarrow> slice \<Rightarrow> node" where
  "leaf kp v = Node LeafNode kp v no_children []"

definition extension :: "bytes \<Rightarrow> node \<Rightarrow> node" where
  "extension kp c = Node ExtensionNode kp None (no_children[0 := Some c]) []"

text \<open>The bytes that are hashed for a node.\<close>

definition child_hash :: "node option \<Rightarrow> bytes" where
  "child_hash c = (case c of None \<Rightarrow> replicate 32 0 | Some n \<Rightarrow> n_Hash n)"

definition first_child :: "node option list \<Rightarrow> node option" where
  "first_child cs = (case cs of [] \<Rightarrow> None | c # _ \<Rightarrow> c)"

definition encodeNode :: "node \<Rightarrow> bytes" where
  "encodeNode n =
     (case n_Type n of
        LeafNode \<Rightarrow> sha256 (0 # n_KeyPath n @ sl (n_Value n))
      | ExtensionNode \<Rightarrow> sha256 (1 # n_KeyPath n @ (case first_child (n_Children n) of None \<Rightarrow> [] | Some c \<Rightarrow> n_Hash c))
      | BranchNode \<Rightarrow> sha256 (2 # concat (map child_hash (n_Children n)) @ sl (n_Value n))
      | EmptyNode \<Rightarrow> [])"

definition with_hash :: "node \<Rightarrow> node" where
  "with_hash n = (if n_Type n = EmptyNode then n else Node (n_Type n) (n_KeyPath n) (n_Value n) (n_Children n) (encodeNode n))"

fun rehash :: "node \<Rightarrow> node" where
  "rehash (Node ExtensionNode kp v (c # cs) h) = with_hash (Node ExtensionNode kp v (map_option rehash c # cs) h)"
| "rehash n = with_hash n"

subsection \<open>Keys\<close>

definition nibbles :: "bytes \<Rightarrow> bytes" where
  "nibbles b = concat (map (\<lambda>x. [drop_bit 4 x, x AND 0x0F]) b)"

definition decodeKey :: "string \<Rightarrow> bytes" where
  "decodeKey key = nibbles (case hex_decode key of (b, ok) \<Rightarrow> if ok then b else bytes_of_string key)"

fun pack :: "bytes \<Rightarrow> bytes" where
  "pack (a # b # r) = (push_bit 4 a OR b) # pack r"
| "pack _ = []"

definition encodeKey :: "bytes \<Rightarrow> string" where
  "encodeKey ns = hex_encode (pack ns)"

subsection \<open>Reading\<close>

definition has_prefix :: "bytes \<Rightarrow> bytes \<Rightarrow> bool" where
  "has_prefix path kp \<longleftrightarrow> take (length kp) path = kp"

fun trie_get :: "node option \<Rightarrow> bytes \<Rightarrow> slice outcome" where
  "trie_get None path = Ret None"
| "trie_get (Some (Node t kp v cs h)) path =
     (if path = [] then Ret (if t = BranchNode then v else None)
      else case t of
        LeafNode \<Rightarrow> Ret (if path = kp then v else None)
      | ExtensionNode \<Rightarrow>
          if \<not> has_prefix path kp then Ret None
          else (case cs of [] \<Rightarrow> Panic | c # _ \<Rightarrow> trie_get c (drop (length kp) path))
      | BranchNode \<Rightarrow> if length cs \<le> unat (hd path) then Panic else trie_get (cs ! unat (hd path)) (tl path)
      | EmptyNode \<Rightarrow> Ret None)"

subsection \<open>Writing\<close>

fun common_len :: "bytes \<Rightarrow> bytes \<Rightarrow> nat" where
  "common_len (x # xs) (y # ys) = (if x = y then Suc (common_len xs ys) else 0)"
| "common_len _ _ = 0"

text \<open>One of the two parts of a new branch: a rest of a path becomes a child, an empty rest the value of the branch.\<close>

definition place :: "bytes \<Rightarrow> (bytes \<Rightarrow> node) \<Rightarrow> slice \<Rightarrow> slice \<times> node option list \<Rightarrow> (slice \<times> node option list) outcome" where
  "place rest mk val b =
     (case rest of
        [] \<Rightarrow> Ret (val, snd b)
      | x # xs \<Rightarrow> if unat x < length (snd b) then Ret (fst b, (snd b)[unat x := Some (mk xs)]) else Panic)"

definition under_prefix :: "bytes \<Rightarrow> slice \<times> node option list \<Rightarrow> node" where
  "under_prefix kp b =
     (let branch = rehash (Node BranchNode [] (fst b) (snd b) []) in if kp = [] then branch else extension kp branch)"

definition insertIntoLeaf :: "node \<Rightarrow> bytes \<Rightarrow> slice \<Rightarrow> node outcome" where
  "insertIntoLeaf lf path value =
     (let origPath = n_KeyPath lf; cp = common_len origPath path in
      if cp = length origPath \<and> cp = length path then Ret (leaf origPath value)
      else obind (place (drop cp origPath) (\<lambda>r. leaf r (n_Value lf)) (n_Value lf) (None, no_children)) (\<lambda>b.
           obind (place (drop cp path) (\<lambda>r. leaf r value) value b) (\<lambda>b'. Ret (under_prefix (take cp origPath) b'))))"

text \<open>The part of \<^verbatim>\<open>insertIntoExtension\<close> in which the path leaves the extension.\<close>

definition split_extension :: "node \<Rightarrow> bytes \<Rightarrow> slice \<Rightarrow> node outcome" where
  "split_extension ext path value =
     (let kp = n_KeyPath ext; cp = common_len kp path in
      obind (place (drop cp kp) (\<lambda>r. Node ExtensionNode r None (n_Children ext) []) None (None, no_children)) (\<lambda>b.
      obind (place (drop cp path) (\<lambda>r. leaf r value) value b) (\<lambda>b'. Ret (under_prefix (take cp kp) b'))))"

function trie_insert :: "node option \<Rightarrow> bytes \<Rightarrow> slice \<Rightarrow> node outcome"
  and insertIntoExtension :: "node \<Rightarrow> bytes \<Rightarrow> slice \<Rightarrow> node outcome" where
  "trie_insert None path value = Ret (leaf path value)"
| "trie_insert (Some (Node t kp v cs h)) path value =
     (case t of
        LeafNode \<Rightarrow> insertIntoLeaf (Node t kp v cs h) path value
      | ExtensionNode \<Rightarrow> insertIntoExtension (Node t kp v cs h) path value
      | BranchNode \<Rightarrow>
          if path = [] then Ret (rehash (Node t kp value cs h))
          else if length cs \<le> unat (hd path) then Panic
          else obind (trie_insert (cs ! unat (hd path)) (tl path) value) (\<lambda>c.
            Ret (rehash (Node t kp v (cs[unat (hd path) := Some c]) h)))
      | EmptyNode \<Rightarrow> Ret (Node t kp v cs h))"
| "insertIntoExtension (Node t kp v cs h) path value =
     (if common_len kp path = length kp then
        (case cs of
           [] \<Rightarrow> Panic
         | c # r \<Rightarrow> obind (trie_insert c (drop (length kp) path) value) (\<lambda>c'. Ret (rehash (Node t kp v (Some c' # r) h))))
      else split_extension (Node t kp v cs h) path value)"
  by pat_completeness auto
termination
proof (relation "measures [case_sum (\<lambda>(n, p, v). length p) (\<lambda>(n, p, v). length p),
    case_sum (\<lambda>(n, p, v). Suc (2 * (case n of None \<Rightarrow> 0 | Some m \<Rightarrow> size m))) (\<lambda>(n, p, v). 2 * size n)]")
qed (auto split: option.split)

definition trie_Put_some :: "node option \<Rightarrow> bytes \<Rightarrow> slice \<Rightarrow> node option outcome" where
  "trie_Put_some root path value =
     (case root of
        None \<Rightarrow> Ret (Some (rehash (leaf path value)))
      | Some n \<Rightarrow> obind (trie_insert (Some n) path value) (\<lambda>n'. Ret (Some (rehash n'))))"

subsection \<open>Deleting\<close>

text \<open>\<^verbatim>\<open>byte(lastChild)\<close> is 255 when the branch has no child.\<close>

definition last_child :: "node option list \<Rightarrow> int" where
  "last_child cs = fold (\<lambda>i l. if cs ! i \<noteq> None then int i else l) [0..<length cs] (- 1)"

definition compact :: "node \<Rightarrow> node option" where
  "compact n =
     (if n_Type n \<noteq> BranchNode then Some n
      else
        let kids = length (filter (\<lambda>c. c \<noteq> None) (n_Children n)); lastChild = last_child (n_Children n);
            cnt = (if n_Value n \<noteq> None then Suc kids else kids); lb = (word_of_int lastChild :: u8)
        in if cnt = 0 then None
           else if cnt = 1 \<and> n_Value n \<noteq> None then Some (leaf [lb] (n_Value n))
           else if cnt = 1 then
             (case n_Children n ! nat lastChild of
                None \<Rightarrow> Some (rehash n)
              | Some (Node ExtensionNode kp v cs h) \<Rightarrow> Some (rehash (Node ExtensionNode (lb # kp) v cs h))
              | Some (Node LeafNode kp v cs h) \<Rightarrow> Some (leaf (lb # kp) v)
              | Some _ \<Rightarrow> Some (rehash n))
           else Some (rehash n))"

text \<open>The end of deleting below an extension: a leaf child is merged, but the node stays an extension.\<close>

definition merge_child :: "node \<Rightarrow> node \<Rightarrow> node" where
  "merge_child ext c =
     (if n_Type c = LeafNode \<and> n_Value ext = None
      then rehash (Node (n_Type ext) (n_KeyPath ext @ n_KeyPath c) (n_Value c) (n_Children c) (n_Hash ext))
      else rehash (Node (n_Type ext) (n_KeyPath ext) (n_Value ext) (Some c # tl (n_Children ext)) (n_Hash ext)))"

fun trie_delete :: "node option \<Rightarrow> bytes \<Rightarrow> node option outcome" where
  "trie_delete None path = Ret None"
| "trie_delete (Some (Node t kp v cs h)) path =
     (case t of
        LeafNode \<Rightarrow> Ret (if path = kp then None else Some (Node t kp v cs h))
      | ExtensionNode \<Rightarrow>
          if \<not> has_prefix path kp then Ret (Some (Node t kp v cs h))
          else (case cs of
             [] \<Rightarrow> Panic
           | c # _ \<Rightarrow> obind (trie_delete c (drop (length kp) path)) (\<lambda>r. Ret (map_option (merge_child (Node t kp v cs h)) r)))
      | BranchNode \<Rightarrow>
          if path = [] then Ret (compact (Node t kp None cs h))
          else if length cs \<le> unat (hd path) then Panic
          else obind (trie_delete (cs ! unat (hd path)) (tl path)) (\<lambda>c. Ret (compact (Node t kp v (cs[unat (hd path) := c]) h)))
      | EmptyNode \<Rightarrow> Ret (Some (Node t kp v cs h)))"

subsection \<open>The trie\<close>

type_synonym trie = "node option"

definition NewTrie :: trie where
  "NewTrie = None"

definition Trie_Get :: "string \<Rightarrow> trie \<Rightarrow> slice outcome" where
  "Trie_Get key t = (if t = None then Ret None else trie_get t (decodeKey key))"

definition Trie_Delete :: "string \<Rightarrow> trie \<Rightarrow> trie outcome" where
  "Trie_Delete key t = (if t = None then Ret None else obind (trie_delete t (decodeKey key)) (\<lambda>n. Ret (map_option rehash n)))"

definition Trie_Put :: "string \<Rightarrow> slice \<Rightarrow> trie \<Rightarrow> trie outcome" where
  "Trie_Put key value t = (if value = None then Trie_Delete key t else trie_Put_some t (decodeKey key) value)"

definition RootHash :: "trie \<Rightarrow> bytes" where
  "RootHash t = (case t of None \<Rightarrow> sha256 [] | Some n \<Rightarrow> n_Hash n)"

text \<open>The proof is collected but not returned.\<close>

fun collectProof :: "node option \<Rightarrow> bytes \<Rightarrow> bool outcome" where
  "collectProof None path = Ret False"
| "collectProof (Some (Node t kp v cs h)) path =
     (case t of
        LeafNode \<Rightarrow> Ret (path = kp)
      | ExtensionNode \<Rightarrow>
          if \<not> has_prefix path kp then Ret False
          else (case cs of [] \<Rightarrow> Panic | c # _ \<Rightarrow> collectProof c (drop (length kp) path))
      | BranchNode \<Rightarrow>
          if path = [] then Ret (v \<noteq> None)
          else if length cs \<le> unat (hd path) then Panic else collectProof (cs ! unat (hd path)) (tl path)
      | EmptyNode \<Rightarrow> Ret False)"

definition GetProof :: "string \<Rightarrow> trie \<Rightarrow> (bool \<times> slice) outcome" where
  "GetProof key t = (if t = None then Ret (False, None) else obind (collectProof t (decodeKey key)) (\<lambda>found. Ret (found, None)))"

text \<open>The pairs \<^verbatim>\<open>iterate\<close> passes to its callback, in order: the children of a branch first, its own value last.\<close>

function iterate :: "node option \<Rightarrow> bytes \<Rightarrow> (string \<times> slice) list" where
  "iterate None prefix = []"
| "iterate (Some (Node t kp v cs h)) prefix =
     (case t of
        LeafNode \<Rightarrow> [(encodeKey (prefix @ kp), v)]
      | ExtensionNode \<Rightarrow> (case cs of [] \<Rightarrow> [] | c # _ \<Rightarrow> iterate c (prefix @ kp))
      | BranchNode \<Rightarrow>
          concat (map (\<lambda>(i, c). iterate c (prefix @ [word_of_nat i])) (enumerate 0 cs)) @ (if v \<noteq> None then [(encodeKey prefix, v)] else [])
      | EmptyNode \<Rightarrow> [])"
  by pat_completeness auto
termination
proof (relation "measure (\<lambda>(n, _). size_option size n)", goal_cases)
  case (3 t kp v cs h prefix z i c)
  then have "c \<in> set cs" by (auto simp: in_set_enumerate_eq)
  then have "size_option size c \<le> size_list (size_option size) cs" by (rule size_list_estimation') simp
  then show ?case by simp
qed auto

definition Trie_Size :: "trie \<Rightarrow> nat" where
  "Trie_Size t = length (iterate t [])"

record trie_iterator =
  it_keys :: "string list"
  it_vals :: "slice list"
  it_idx :: int

text \<open>The keys are sorted, the values stay in the order of the iteration.\<close>

definition Trie_Iterator :: "trie \<Rightarrow> trie_iterator" where
  "Trie_Iterator t = (let ps = iterate t [] in \<lparr>it_keys = sort (map fst ps), it_vals = map snd ps, it_idx = - 1\<rparr>)"

definition Iterator_Next :: "trie_iterator \<Rightarrow> trie_iterator \<times> string \<times> slice \<times> bool" where
  "Iterator_Next it =
     (let it1 = it\<lparr>it_idx := it_idx it + 1\<rparr> in
      if int (length (it_keys it1)) \<le> it_idx it1 then (it1, [], None, False)
      else (it1, it_keys it1 ! nat (it_idx it1), it_vals it1 ! nat (it_idx it1), True))"

subsection \<open>The map a trie stands for\<close>

fun look :: "node option \<Rightarrow> bytes \<Rightarrow> slice" where
  "look None path = None"
| "look (Some (Node t kp v cs h)) path =
     (case t of
        LeafNode \<Rightarrow> if path = kp then v else None
      | ExtensionNode \<Rightarrow> if has_prefix path kp then (case cs of [] \<Rightarrow> None | c # _ \<Rightarrow> look c (drop (length kp) path)) else None
      | BranchNode \<Rightarrow> (case path of [] \<Rightarrow> v | x # xs \<Rightarrow> if unat x < length cs then look (cs ! unat x) xs else None)
      | EmptyNode \<Rightarrow> None)"

definition nib :: "bytes \<Rightarrow> bool" where
  "nib p \<longleftrightarrow> (\<forall>x \<in> set p. unat x < 16)"

inductive wf_node :: "node \<Rightarrow> bool" where
  wf_leaf: "nib kp \<Longrightarrow> v \<noteq> None \<Longrightarrow> wf_node (Node LeafNode kp v cs h)"
| wf_ext: "nib kp \<Longrightarrow> wf_node c \<Longrightarrow> wf_node (Node ExtensionNode kp v (Some c # r) h)"
| wf_branch: "length cs = 16 \<Longrightarrow> (\<And>c. Some c \<in> set cs \<Longrightarrow> wf_node c) \<Longrightarrow> wf_node (Node BranchNode kp v cs h)"

inductive_simps wf_node_simps [simp]:
  "wf_node (Node LeafNode kp v cs h)" "wf_node (Node BranchNode kp v cs h)" "wf_node (Node EmptyNode kp v cs h)"

inductive_simps wf_ext_simps: "wf_node (Node ExtensionNode kp v cs h)"

lemma has_prefix_iff: "has_prefix path kp \<longleftrightarrow> (\<exists>r. path = kp @ r)"
  by (auto simp: has_prefix_def) (metis append_take_drop_id)

lemma look_with_hash [simp]: "look (Some (with_hash n)) = look (Some n)"
  by (cases n; cases "n_Type n") (simp_all add: with_hash_def fun_eq_iff)

lemma wf_with_hash [simp]: "wf_node (with_hash n) = wf_node n"
  by (cases n; cases "n_Type n") (simp_all add: with_hash_def wf_ext_simps)

lemma look_rehash [simp]: "look (Some (rehash n)) = look (Some n)"
proof (induction n rule: rehash.induct)
  case (1 kp v c cs h)
  have "look (map_option rehash c) = look c" using 1 by (cases c) simp_all
  then show ?case by (simp add: fun_eq_iff first_child_def)
qed simp_all

lemma wf_rehash [simp]: "wf_node n \<Longrightarrow> wf_node (rehash n)"
proof (induction n rule: rehash.induct)
  case (1 kp v c cs h)
  then show ?case by (auto simp: wf_ext_simps)
qed simp_all

subsection \<open>Insertion updates the map\<close>

lemma common_len_le: "common_len xs ys \<le> length xs" "common_len xs ys \<le> length ys"
  by (induction xs ys rule: common_len.induct) simp_all

lemma common_len_take: "take (common_len xs ys) xs = take (common_len xs ys) ys"
  by (induction xs ys rule: common_len.induct) simp_all

lemma common_len_drop: "drop (common_len xs ys) xs = a # as \<Longrightarrow> drop (common_len xs ys) ys = b # bs \<Longrightarrow> a \<noteq> b"
  by (induction xs ys rule: common_len.induct) (auto split: if_splits)

lemma common_len_full: "common_len kp path = length kp \<longleftrightarrow> has_prefix path kp"
  by (induction kp path rule: common_len.induct) (auto simp: has_prefix_def)

text \<open>The map of a branch given by its value and children.\<close>

definition look_b :: "slice \<times> node option list \<Rightarrow> bytes \<Rightarrow> slice" where
  "look_b b q = (case q of [] \<Rightarrow> fst b | x # xs \<Rightarrow> if unat x < length (snd b) then look (snd b ! unat x) xs else None)"

definition wf_b :: "slice \<times> node option list \<Rightarrow> bool" where
  "wf_b b \<longleftrightarrow> length (snd b) = 16 \<and> (\<forall>c. Some c \<in> set (snd b) \<longrightarrow> wf_node c)"

lemma empty_b [simp]: "wf_b (None, no_children)" "look_b (None, no_children) q = None"
  by (simp_all add: wf_b_def look_b_def no_children_def split: list.split)

lemma place_ok:
  assumes "nib rest" and "wf_b b" and "\<And>x xs. rest = x # xs \<Longrightarrow> wf_node (mk xs)"
  shows "\<exists>b'. place rest mk val b = Ret b' \<and> wf_b b' \<and>
     (\<forall>q. look_b b' q = (case rest of [] \<Rightarrow> if q = [] then val else look_b b q
        | x # xs \<Rightarrow> if q \<noteq> [] \<and> hd q = x then look (Some (mk xs)) (tl q) else look_b b q))"
proof (cases rest)
  case Nil
  then show ?thesis using assms(2) by (auto simp: place_def wf_b_def look_b_def split: list.split)
next
  case (Cons x xs)
  have x: "unat x < 16" using assms(1) Cons by (simp add: nib_def)
  have "wf_b (fst b, (snd b)[unat x := Some (mk xs)])"
    using assms(2,3) Cons by (auto simp: wf_b_def dest!: set_update_subset_insert [THEN subsetD])
  moreover have "look_b (fst b, (snd b)[unat x := Some (mk xs)]) q =
      (if q \<noteq> [] \<and> hd q = x then look (Some (mk xs)) (tl q) else look_b b q)" for q
    using x assms(2) by (cases q) (auto simp: look_b_def wf_b_def nth_list_update word_unat_eq_iff)
  ultimately show ?thesis using x assms(2) Cons by (simp add: place_def wf_b_def)
qed

lemma extension_eq: "extension kp c = Node ExtensionNode kp None (Some c # replicate 15 None) []"
  by (simp add: extension_def no_children_def numeral_eq_Suc)

lemma under_prefix_ok:
  assumes "wf_b b" and "nib kp"
  shows "wf_node (under_prefix kp b)" and "look (Some (under_prefix kp b)) q = (if has_prefix q kp then look_b b (drop (length kp) q) else None)"
  using assms
  by (auto simp: under_prefix_def extension_eq wf_ext_simps wf_b_def look_b_def has_prefix_def Let_def split: list.split)

lemma nib_simps [simp]: "nib []" "nib (x # xs) \<longleftrightarrow> unat x < 16 \<and> nib xs" "nib (xs @ ys) \<longleftrightarrow> nib xs \<and> nib ys"
  by (auto simp: nib_def)

lemma nib_sub: "nib p \<Longrightarrow> nib (take n p)" "nib p \<Longrightarrow> nib (drop n p)"
  by (auto simp: nib_def dest: in_set_takeD in_set_dropD)

text \<open>What the first of two paths that part contributes to the branch where they part.\<close>

definition rest_look :: "bytes \<Rightarrow> (bytes \<Rightarrow> node) \<Rightarrow> slice \<Rightarrow> bytes \<Rightarrow> slice" where
  "rest_look rest mk val q =
     (case rest of [] \<Rightarrow> if q = [] then val else None
      | x # xs \<Rightarrow> if q \<noteq> [] \<and> hd q = x then look (Some (mk xs)) (tl q) else None)"

lemma fork_ok:
  assumes nib: "nib kp" "nib path" and val: "value \<noteq> None" and cp: "cp = common_len kp path"
    and mk: "\<And>x xs. drop cp kp = x # xs \<Longrightarrow> wf_node (mk xs)"
  shows "\<exists>n. obind (place (drop cp kp) mk v (None, no_children)) (\<lambda>b.
      obind (place (drop cp path) (\<lambda>r. leaf r value) value b) (\<lambda>b'. Ret (under_prefix (take cp kp) b'))) = Ret n \<and> wf_node n \<and>
     (\<forall>q. look (Some n) q =
       (if q = path then value else if has_prefix q (take cp kp) then rest_look (drop cp kp) mk v (drop cp q) else None))"
proof -
  have le: "cp \<le> length kp" using common_len_le [of kp path] cp by simp
  have path: "path = take cp kp @ drop cp path" using common_len_take [of kp path] cp by (metis append_take_drop_id)
  have "\<exists>b. place (drop cp kp) mk v (None, no_children) = Ret b \<and> wf_b b \<and>
     (\<forall>q. look_b b q = (case drop cp kp of [] \<Rightarrow> if q = [] then v else look_b (None, no_children) q
        | x # xs \<Rightarrow> if q \<noteq> [] \<and> hd q = x then look (Some (mk xs)) (tl q) else look_b (None, no_children) q))"
    by (rule place_ok [OF nib_sub(2) [OF nib(1)] empty_b(1) mk])
  then obtain b where b: "place (drop cp kp) mk v (None, no_children) = Ret b" "wf_b b" and lb: "\<forall>q. look_b b q = rest_look (drop cp kp) mk v q"
    unfolding rest_look_def empty_b by blast
  have wfl: "wf_node (leaf xs value)" if "drop cp path = x # xs" for x xs
    using nib_sub(2) [OF nib(2), of cp] val that by (simp add: leaf_def)
  obtain b' where b': "place (drop cp path) (\<lambda>r. leaf r value) value b = Ret b'" "wf_b b'"
    and lb': "\<forall>q. look_b b' q = (case drop cp path of [] \<Rightarrow> if q = [] then value else look_b b q
        | x # xs \<Rightarrow> if q \<noteq> [] \<and> hd q = x then look (Some (leaf xs value)) (tl q) else look_b b q)"
    using place_ok [where rest = "drop cp path" and mk = "\<lambda>r. leaf r value" and val = "value", OF nib_sub(2) [OF nib(2)] b(2)] wfl by blast
  have look_b': "look_b b' q = (if q = drop cp path then value else rest_look (drop cp kp) mk v q)" for q
  proof (cases "drop cp path")
    case Nil
    then show ?thesis by (simp add: lb' lb)
  next
    case (Cons y ys)
    have "rest_look (drop cp kp) mk v (y # q') = None" for q'
      using common_len_drop [of kp path _ _ y ys] Cons cp by (auto simp: rest_look_def split: list.split)
    then show ?thesis using Cons by (cases q) (auto simp: lb' lb leaf_def)
  qed
  note up = under_prefix_ok [OF b'(2) nib_sub(1) [OF nib(1)], of cp]
  have "look (Some (under_prefix (take cp kp) b')) q =
      (if q = path then value else if has_prefix q (take cp kp) then rest_look (drop cp kp) mk v (drop cp q) else None)" for q
  proof (cases "has_prefix q (take cp kp)")
    case True
    then obtain r where r: "q = take cp kp @ r" by (auto simp: has_prefix_iff)
    then have "drop cp q = r" using le by simp
    moreover have "q = path \<longleftrightarrow> r = drop cp path" using r path by (metis same_append_eq)
    ultimately show ?thesis using True le by (simp add: up(2) look_b' min_absorb2)
  next
    case False
    then have "q \<noteq> path" using path by (metis has_prefix_iff)
    with False show ?thesis by (simp add: up(2))
  qed
  with b(1) b'(1) up(1) show ?thesis by simp
qed

lemma insertIntoLeaf_ok:
  assumes "nib kp" and "v \<noteq> None" and "nib path" and "value \<noteq> None"
  shows "\<exists>n. insertIntoLeaf (Node LeafNode kp v cs h) path value = Ret n \<and> wf_node n \<and>
     look (Some n) = (look (Some (Node LeafNode kp v cs h)))(path := value)"
proof (cases "common_len kp path = length kp \<and> common_len kp path = length path")
  case True
  then have "path = kp" using common_len_take [of kp path] by simp
  then show ?thesis using True assms by (simp add: insertIntoLeaf_def leaf_def fun_eq_iff)
next
  case False
  define cp where "cp = common_len kp path"
  have le: "cp \<le> length kp" using common_len_le(1) by (simp add: cp_def)
  have "wf_node (leaf xs v)" if "drop cp kp = x # xs" for x xs
    using nib_sub(2) [OF assms(1), of cp] that assms(2) by (simp add: leaf_def)
  then obtain n where n: "obind (place (drop cp kp) (\<lambda>r. leaf r v) v (None, no_children)) (\<lambda>b.
      obind (place (drop cp path) (\<lambda>r. leaf r value) value b) (\<lambda>b'. Ret (under_prefix (take cp kp) b'))) = Ret n" "wf_node n"
    and ln: "\<forall>q. look (Some n) q =
       (if q = path then value else if has_prefix q (take cp kp) then rest_look (drop cp kp) (\<lambda>r. leaf r v) v (drop cp q) else None)"
    using fork_ok [OF assms(1,3,4) cp_def, of "\<lambda>r. leaf r v" v] by blast
  have "rest_look (drop cp kp) (\<lambda>r. leaf r v) v r = (if r = drop cp kp then v else None)" for r
    by (cases r) (auto simp: rest_look_def leaf_def split: list.split)
  moreover have "q = kp \<longleftrightarrow> has_prefix q (take cp kp) \<and> drop cp q = drop cp kp" for q
    using le by (auto simp: has_prefix_def) (metis append_take_drop_id min_absorb2)
  ultimately have "look (Some n) q = (if q = path then value else if q = kp then v else None)" for q
    unfolding ln [rule_format] by (cases "has_prefix q (take cp kp)") simp_all
  moreover have "insertIntoLeaf (Node LeafNode kp v cs h) path value = Ret n" using n(1) False by (auto simp: insertIntoLeaf_def cp_def Let_def)
  ultimately show ?thesis using n(2) by (intro exI [of _ n]) (simp add: fun_eq_iff)
qed

lemma split_extension_ok:
  assumes "wf_node (Node ExtensionNode kp v cs h)" and "nib path" and "value \<noteq> None" and "\<not> has_prefix path kp"
  shows "\<exists>n. split_extension (Node ExtensionNode kp v cs h) path value = Ret n \<and> wf_node n \<and>
     look (Some n) = (look (Some (Node ExtensionNode kp v cs h)))(path := value)"
proof -
  obtain c r where cs: "cs = Some c # r" "wf_node c" "nib kp" using assms(1) by (auto simp: wf_ext_simps)
  define cp where "cp = common_len kp path"
  have lt: "cp < length kp"
    using assms(4) common_len_le(1) [of kp path] common_len_full [of kp path] by (simp add: cp_def)
  let ?mk = "\<lambda>r. Node ExtensionNode r None cs []"
  have "wf_node (?mk xs)" if "drop cp kp = x # xs" for x xs
    using nib_sub(2) [OF cs(3), of cp] that cs by (auto simp: wf_ext_simps)
  then obtain n where n: "obind (place (drop cp kp) ?mk None (None, no_children)) (\<lambda>b.
      obind (place (drop cp path) (\<lambda>r. leaf r value) value b) (\<lambda>b'. Ret (under_prefix (take cp kp) b'))) = Ret n" "wf_node n"
    and ln: "\<forall>q. look (Some n) q =
       (if q = path then value else if has_prefix q (take cp kp) then rest_look (drop cp kp) ?mk None (drop cp q) else None)"
    using fork_ok [OF cs(3) assms(2,3) cp_def, of ?mk None] by blast
  obtain x xs where rest: "drop cp kp = x # xs" using lt by (metis Cons_nth_drop_Suc)
  then have kp: "kp = take cp kp @ x # xs" by (metis append_take_drop_id)
  have "(if has_prefix q (take cp kp) then rest_look (drop cp kp) ?mk None (drop cp q) else None) = look (Some (Node ExtensionNode kp v cs h)) q" for q
  proof (cases "has_prefix q (take cp kp)")
    case True
    then obtain s where q: "q = take cp kp @ s" by (auto simp: has_prefix_iff)
    have d: "drop cp q = s" using q lt by simp
    have "has_prefix q kp \<longleftrightarrow> (\<exists>t. s = x # xs @ t)" unfolding has_prefix_iff using q kp by (metis append_Cons append_assoc same_append_eq)
    moreover have "drop (length kp) q = t" if "s = x # xs @ t" for t
    proof -
      have "q = kp @ t" using q kp that by (metis append_Cons append_assoc)
      then show ?thesis by simp
    qed
    ultimately show ?thesis using True rest cs(1) unfolding d by (cases s) (auto simp: rest_look_def has_prefix_iff)
  next
    case False
    then have "\<not> has_prefix q kp" using kp by (metis append_assoc has_prefix_iff)
    with False show ?thesis by simp
  qed
  then have "look (Some n) q = ((look (Some (Node ExtensionNode kp v cs h)))(path := value)) q" for q by (simp only: ln [rule_format] fun_upd_apply)
  moreover have "split_extension (Node ExtensionNode kp v cs h) path value = Ret n" using n(1) by (simp add: split_extension_def cp_def Let_def)
  ultimately show ?thesis using n(2) by blast
qed

lemma insert_ok:
  shows "(\<And>m. n = Some m \<Longrightarrow> wf_node m) \<Longrightarrow> nib path \<Longrightarrow> value \<noteq> None \<Longrightarrow>
      \<exists>n'. trie_insert n path value = Ret n' \<and> wf_node n' \<and> look (Some n') = (look n)(path := value)"
    and "wf_node e \<Longrightarrow> n_Type e = ExtensionNode \<Longrightarrow> nib path' \<Longrightarrow> value' \<noteq> None \<Longrightarrow>
      \<exists>n'. insertIntoExtension e path' value' = Ret n' \<and> wf_node n' \<and> look (Some n') = (look (Some e))(path' := value')"
proof (induction n path "value" and e path' value' rule: trie_insert_insertIntoExtension.induct)
  case (1 path "value")
  then show ?case by (simp add: leaf_def fun_eq_iff)
next
  case (2 t kp v cs h path "value")
  have wf: "wf_node (Node t kp v cs h)" using 2(3) by simp
  show ?case
  proof (cases t)
    case LeafNode
    then have "nib kp" "v \<noteq> None" using wf by simp_all
    from insertIntoLeaf_ok [OF this 2(4,5), of cs h] LeafNode show ?thesis by (simp only: trie_insert.simps node_type.case)
  next
    case ExtensionNode
    then show ?thesis using 2(1) wf 2(4,5) by simp
  next
    case EmptyNode
    then show ?thesis using wf by simp
  next
    case BranchNode
    have cs: "length cs = 16" "\<And>c. Some c \<in> set cs \<Longrightarrow> wf_node c" using wf BranchNode by simp_all
    show ?thesis
    proof (cases path)
      case Nil
      then show ?thesis using BranchNode wf by (simp add: fun_eq_iff split: list.split)
    next
      case (Cons x xs)
      have x: "unat x < 16" "nib xs" using 2(4) Cons by simp_all
      have wfc: "wf_node m" if "cs ! unat (hd path) = Some m" for m using cs that x nth_mem [of "unat x" cs] Cons by simp
      obtain c where c: "trie_insert (cs ! unat x) xs value = Ret c" "wf_node c" "look (Some c) = (look (cs ! unat x))(xs := value)"
        using 2(2) [OF BranchNode] wfc Cons x cs(1) 2(5) by (auto simp: fun_upd_def)
      let ?n = "Node BranchNode kp v (cs[unat x := Some c]) h"
      have "wf_node ?n" using cs c(2) by (auto dest!: set_update_subset_insert [THEN subsetD])
      moreover have "look (Some ?n) q = ((look (Some (Node BranchNode kp v cs h)))(path := value)) q" for q
        using x(1) cs(1) c(3) Cons by (cases q) (auto simp: nth_list_update word_unat_eq_iff)
      ultimately show ?thesis using c(1) Cons x cs(1) BranchNode by (simp add: fun_eq_iff)
    qed
  qed
next
  case (3 t kp v cs h path "value")
  have t: "t = ExtensionNode" using 3(3) by simp
  obtain c r where cs: "cs = Some c # r" "wf_node c" "nib kp" using 3(2) t by (auto simp: wf_ext_simps)
  show ?case
  proof (cases "has_prefix path kp")
    case False
    then show ?thesis using split_extension_ok [of kp v cs h path "value"] 3(2,4,5) t
      by (simp only: insertIntoExtension.simps common_len_full if_False simp_thms not_False_eq_True)
  next
    case True
    then obtain s where s: "path = kp @ s" by (auto simp: has_prefix_iff)
    have "nib s" using 3(4) s by simp
    then obtain c' where c': "trie_insert (Some c) s value = Ret c'" "wf_node c'" "look (Some c') = (look (Some c))(s := value)"
      using 3(1) [of "Some c" r] True s cs 3(5) by (auto simp: common_len_full fun_upd_def)
    have "look (Some (Node ExtensionNode kp v (Some c' # r) h)) q = ((look (Some (Node ExtensionNode kp v cs h)))(path := value)) q" for q
      using c'(3) cs(1) s by (auto simp: has_prefix_iff)
    then have l: "look (Some (Node ExtensionNode kp v (Some c' # r) h)) = (look (Some (Node t kp v cs h)))(path := value)" unfolding t by blast
    have "insertIntoExtension (Node t kp v cs h) path value = Ret (rehash (Node ExtensionNode kp v (Some c' # r) h))"
      using c'(1) cs(1) True s t by (simp add: common_len_full)
    moreover have "wf_node (rehash (Node ExtensionNode kp v (Some c' # r) h))" using c'(2) cs by (intro wf_rehash) (simp add: wf_ext_simps)
    ultimately show ?thesis using l by (metis look_rehash)
  qed
qed

lemma nib_decodeKey: "nib (decodeKey key)"
proof -
  have "nib (nibbles b)" for b
  proof (induction b)
    case (Cons x b)
    have "unat (drop_bit 4 x) < 16" 
    proof -
      have "unat x < 256" using unsigned_less [of x, where ?'a = nat] by simp
      then show ?thesis by (simp add: unsigned_drop_bit_eq drop_bit_eq_div unat_div)
    qed
    moreover have "unat (x AND 0x0F) < 16"
    proof -
      have "x AND 0x0F \<le> 0x0F" by (rule word_and_le1)
      then show ?thesis by (simp add: word_le_nat_alt)
    qed
    ultimately show ?case using Cons by (simp add: nibbles_def)
  qed (simp add: nibbles_def)
  then show ?thesis by (simp add: decodeKey_def split: prod.split)
qed

lemma collectProof_look: "(\<And>m. n = Some m \<Longrightarrow> wf_node m) \<Longrightarrow> nib path \<Longrightarrow> collectProof n path = Ret (look n path \<noteq> None)"
proof (induction n path rule: collectProof.induct)
  case (2 t kp v cs h path)
  have wf: "wf_node (Node t kp v cs h)" using 2(3) by simp
  show ?case
  proof (cases t)
    case LeafNode
    then show ?thesis using wf by auto
  next
    case EmptyNode
    then show ?thesis using wf by simp
  next
    case ExtensionNode
    then obtain c r where cs: "cs = Some c # r" "wf_node c" using wf by (auto simp: wf_ext_simps)
    show ?thesis
    proof (cases "has_prefix path kp")
      case True
      then show ?thesis using ExtensionNode cs 2(1) [OF ExtensionNode] nib_sub(2) [OF 2(4)] by simp
    qed (simp add: ExtensionNode)
  next
    case BranchNode
    have cs: "length cs = 16" "\<And>c. Some c \<in> set cs \<Longrightarrow> wf_node c" using wf BranchNode by simp_all
    show ?thesis
    proof (cases path)
      case (Cons x xs)
      have x: "unat x < 16" "nib xs" using 2(4) Cons by simp_all
      have "wf_node m" if "cs ! unat x = Some m" for m using cs that x nth_mem [of "unat x" cs] by simp
      then show ?thesis using 2(2) [OF BranchNode] Cons x cs(1) BranchNode by simp
    qed (simp add: BranchNode)
  qed
qed simp

lemma get_look: "(\<And>m. n = Some m \<Longrightarrow> wf_node m) \<Longrightarrow> nib path \<Longrightarrow> trie_get n path = Ret None \<or> trie_get n path = Ret (look n path)"
proof (induction n path rule: trie_get.induct)
  case (2 t kp v cs h path)
  have wf: "wf_node (Node t kp v cs h)" using 2(3) by simp
  show ?case
  proof (cases "path = []")
    case True
    then show ?thesis by (cases t) auto
  next
    case False
    show ?thesis
    proof (cases t)
      case ExtensionNode
      then obtain c r where cs: "cs = Some c # r" "wf_node c" using wf by (auto simp: wf_ext_simps)
      show ?thesis
      proof (cases "has_prefix path kp")
        case True
        then show ?thesis using False ExtensionNode cs 2(1) [OF False ExtensionNode] nib_sub(2) [OF 2(4)] by auto
      qed (use False ExtensionNode in simp)
    next
      case BranchNode
      have cs: "length cs = 16" "\<And>c. Some c \<in> set cs \<Longrightarrow> wf_node c" using wf BranchNode by simp_all
      obtain x xs where Cons: "path = x # xs" using False by (cases path) auto
      have x: "unat x < 16" "nib xs" using 2(4) Cons by simp_all
      have "wf_node m" if "cs ! unat x = Some m" for m using cs that x nth_mem [of "unat x" cs] by simp
      then show ?thesis using 2(2) [OF False BranchNode] Cons x cs(1) BranchNode by simp
    qed (use False in auto)
  qed
qed simp

subsection \<open>Properties\<close>

fun trie_puts :: "(string \<times> bytes) list \<Rightarrow> trie \<Rightarrow> trie outcome" where
  "trie_puts [] t = Ret t"
| "trie_puts ((k, v) # kvs) t = obind (Trie_Put k (Some v) t) (trie_puts kvs)"

lemma puts_ok:
  "(\<And>m. t = Some m \<Longrightarrow> wf_node m) \<Longrightarrow>
     \<exists>t'. trie_puts kvs t = Ret t' \<and> (\<forall>m. t' = Some m \<longrightarrow> wf_node m) \<and>
       look t' = look t ++ map_of (rev (map (\<lambda>(k, v). (decodeKey k, v)) kvs))"
proof (induction kvs arbitrary: t)
  case (Cons kv kvs)
  obtain k v where kv: "kv = (k, v)" by fastforce
  have "\<exists>n. Trie_Put k (Some v) t = Ret (Some n) \<and> wf_node n \<and> look (Some n) = (look t)(decodeKey k \<mapsto> v)"
  proof (cases t)
    case None
    then show ?thesis
      using nib_decodeKey by (simp add: Trie_Put_def trie_Put_some_def leaf_def fun_eq_iff)
  next
    case (Some m)
    obtain n where "trie_insert (Some m) (decodeKey k) (Some v) = Ret n" "wf_node n" "look (Some n) = (look (Some m))(decodeKey k := Some v)"
      using insert_ok(1) [of "Some m" "decodeKey k" "Some v"] Cons.prems Some nib_decodeKey by auto
    then show ?thesis using Some by (simp add: Trie_Put_def trie_Put_some_def)
  qed
  then obtain n where n: "Trie_Put k (Some v) t = Ret (Some n)" "wf_node n" "look (Some n) = (look t)(decodeKey k \<mapsto> v)" by blast
  from Cons.IH [of "Some n"] n(2) obtain t' where "trie_puts kvs (Some n) = Ret t'" "\<forall>m. t' = Some m \<longrightarrow> wf_node m"
    "look t' = look (Some n) ++ map_of (rev (map (\<lambda>(k, v). (decodeKey k, v)) kvs))" by auto
  then show ?case using n by (simp add: kv map_add_upd)
qed simp

lemma get_with_hash [simp]: "trie_get (Some (with_hash n)) = trie_get (Some n)"
  by (cases n) (simp add: with_hash_def fun_eq_iff)

lemma get_rehash [simp]: "trie_get (Some (rehash n)) = trie_get (Some n)"
proof (induction n rule: rehash.induct)
  case (1 kp v c cs h)
  have "trie_get (map_option rehash c) = trie_get c" using 1 by (cases c) simp_all
  then show ?case by (simp add: fun_eq_iff)
qed simp_all

text \<open>The trie with two keys that part at one nibble.\<close>

lemma two_puts:
  assumes "decodeKey k = p @ x # xs" and "decodeKey k' = p @ y # ys" and "x \<noteq> y"
  shows "trie_puts [(k, v), (k', w)] NewTrie = Ret (Some (rehash (under_prefix p (None, no_children
     [unat x := Some (leaf xs (Some v)), unat y := Some (leaf ys (Some w))]))))"
proof -
  have cl: "common_len (p @ x # xs) (p @ y # ys) = length p" using assms(3) by (induction p) simp_all
  have "unat x < 16" "unat y < 16" using nib_decodeKey [of k] nib_decodeKey [of k'] assms(1,2) by simp_all
  then have "insertIntoLeaf (leaf (p @ x # xs) (Some v)) (p @ y # ys) (Some w) = Ret (under_prefix p (None, no_children
     [unat x := Some (leaf xs (Some v)), unat y := Some (leaf ys (Some w))]))"
    by (simp add: insertIntoLeaf_def cl place_def no_children_def leaf_def)
  moreover have "rehash (leaf kp u) = Node LeafNode kp u no_children (encodeNode (leaf kp u))" for kp u
    by (simp add: leaf_def with_hash_def)
  moreover have "insertIntoLeaf (Node LeafNode kp u cs h) = insertIntoLeaf (leaf kp u)" for kp u cs h
    by (intro ext) (simp only: insertIntoLeaf_def leaf_def node.sel)
  ultimately show ?thesis
    using assms by (simp add: Trie_Put_def trie_Put_some_def NewTrie_def)
qed

text \<open>C13. The trie refines a map from keys to values, as far as membership goes: after any sequence of writes every operation succeeds, \<^verbatim>\<open>GetProof\<close> finds
  exactly the written keys, and \<^verbatim>\<open>Get\<close> returns the value written last or nothing.\<close>

theorem trie_refines_map:
  "\<exists>t. trie_puts kvs NewTrie = Ret t \<and> (\<forall>key. GetProof key t = Ret (decodeKey key \<in> decodeKey ` fst ` set kvs, None) \<and>
     Trie_Get key t \<in> {Ret None, Ret (map_of (rev (map (\<lambda>(k, v). (decodeKey k, v)) kvs)) (decodeKey key))})"
proof -
  let ?m = "map_of (rev (map (\<lambda>(k, v). (decodeKey k, v)) kvs))"
  have empty: "look None ++ ?m = ?m" by (simp add: fun_eq_iff map_add_def split: option.split)
  obtain t where t: "trie_puts kvs NewTrie = Ret t" "\<forall>m. t = Some m \<longrightarrow> wf_node m" and l: "look t = ?m"
    using puts_ok [of NewTrie kvs] unfolding NewTrie_def empty by auto
  have "GetProof key t = Ret (decodeKey key \<in> decodeKey ` fst ` set kvs, None) \<and> Trie_Get key t \<in> {Ret None, Ret (?m (decodeKey key))}" for key
  proof
    have "?m (decodeKey key) = None \<longleftrightarrow> decodeKey key \<notin> decodeKey ` fst ` set kvs"
      unfolding map_of_eq_None_iff by (force simp: image_iff)
    then show "GetProof key t = Ret (decodeKey key \<in> decodeKey ` fst ` set kvs, None)"
      using collectProof_look [of t "decodeKey key"] t(2) nib_decodeKey l by (cases t) (simp_all add: GetProof_def del: look.simps not_None_eq)
    show "Trie_Get key t \<in> {Ret None, Ret (?m (decodeKey key))}"
      using get_look [of t "decodeKey key"] t(2) nib_decodeKey unfolding Trie_Get_def l [symmetric] by auto
  qed
  with t(1) show ?thesis by blast
qed

text \<open>A key is read back from its nibbles.\<close>

lemma pack_nibbles: "pack (nibbles b) = b"
proof (induction b)
  case (Cons x b)
  have "push_bit 4 (drop_bit 4 x) OR (x AND 0x0F) = x"
  proof (rule bit_word_eqI)
    fix i :: nat assume i: "i < LENGTH(8)"
    have "(0x0F :: u8) = mask 4" by (simp add: mask_eq_exp_minus_1)
    then have "bit (push_bit 4 (drop_bit 4 x) OR (x AND 0x0F)) i = bit (push_bit 4 (drop_bit 4 x) OR (x AND mask 4)) i" by (simp only:)
    also have "\<dots> \<longleftrightarrow> bit x i" using i by (auto simp: bit_or_iff bit_and_iff bit_push_bit_iff bit_drop_bit_eq bit_mask_iff)
    finally show "bit (push_bit 4 (drop_bit 4 x) OR (x AND 0x0F)) i \<longleftrightarrow> bit x i" .
  qed
  with Cons show ?case by (simp add: nibbles_def)
qed (simp add: nibbles_def)

lemma encodeKey_decodeKey: "encodeKey (decodeKey (hex_encode b)) = hex_encode b"
  by (simp add: encodeKey_def decodeKey_def pack_nibbles)

text \<open>Two keys that differ only in their last nibble hide each other: each was written, but \<^verbatim>\<open>Get\<close> finds neither, because it gives up on a leaf
  when the path is used up.\<close>

theorem sibling_keys_lost:
  assumes "decodeKey k = p @ [x]" and "decodeKey k' = p @ [y]" and "x \<noteq> y"
  shows "\<exists>t. trie_puts [(k, v), (k', w)] NewTrie = Ret t \<and> Trie_Get k t = Ret None \<and> Trie_Get k' t = Ret None"
proof -
  have u: "unat x < 16" "unat y < 16" using nib_decodeKey [of k] nib_decodeKey [of k'] assms(1,2) by simp_all
  have "trie_get (Some (under_prefix p (None, no_children[unat x := Some (leaf [] (Some v)), unat y := Some (leaf [] (Some w))]))) (p @ [z]) = Ret None"
    if "unat z < 16" for z
    using that u by (simp add: under_prefix_def extension_eq Let_def no_children_def has_prefix_def nth_list_update leaf_def)
  then show ?thesis using two_puts [OF assms] u by (simp add: Trie_Get_def assms)
qed

theorem sibling_keys_lost_w:
  "\<exists>t. trie_puts [(''a0'', [1]), (''a1'', [2])] NewTrie = Ret t \<and> Trie_Get ''a0'' t = Ret None \<and> Trie_Get ''a1'' t = Ret None"
proof (rule sibling_keys_lost)
  show "decodeKey ''a0'' = [10] @ [0]" by code_simp
  show "decodeKey ''a1'' = [10] @ [1]" by code_simp
qed simp

text \<open>C33. The root hash does not commit to the stored values: whatever is stored under two different keys of the same length, the root
  hash is the same, because the leaves below a branch are never hashed.\<close>

theorem root_hash_ignores_values:
  assumes "decodeKey k \<noteq> decodeKey k'" and "length (decodeKey k) = length (decodeKey k')"
    and "trie_puts [(k, v), (k', w)] NewTrie = Ret t" and "trie_puts [(k, v2), (k', w2)] NewTrie = Ret t2"
  shows "RootHash t = RootHash t2"
proof -
  obtain p x xs y ys where d: "decodeKey k = p @ x # xs" "decodeKey k' = p @ y # ys" "x \<noteq> y"
    using same_length_different [OF assms(1,2)] by auto
  let ?cs = "\<lambda>v w. no_children[unat x := Some (leaf xs (Some v)), unat y := Some (leaf ys (Some w))]"
  have "map child_hash (?cs v w) = map child_hash (?cs v2 w2)"
    by (simp add: map_update child_hash_def leaf_def)
  then have "encodeNode (Node BranchNode [] None (?cs v w) []) = encodeNode (Node BranchNode [] None (?cs v2 w2) [])"
    and h: "encodeNode (Node BranchNode [] None (?cs v w) h) = encodeNode (Node BranchNode [] None (?cs v2 w2) h)" for h
    by (simp_all add: encodeNode_def)
  then have "n_Hash (rehash (under_prefix p (None, ?cs v w))) = n_Hash (rehash (under_prefix p (None, ?cs v2 w2)))"
    by (simp add: under_prefix_def extension_eq Let_def with_hash_def encodeNode_def first_child_def)
  moreover have "t = Some (rehash (under_prefix p (None, ?cs v w)))" "t2 = Some (rehash (under_prefix p (None, ?cs v2 w2)))"
    using two_puts [OF d, of v w] two_puts [OF d, of v2 w2] assms(3,4) by (simp_all del: trie_puts.simps)
  ultimately show ?thesis by (simp add: RootHash_def)
qed

theorem root_hash_ignores_values_w:
  "\<exists>t t2. trie_puts [(''a0'', [1]), (''b0'', [2])] NewTrie = Ret t \<and> trie_puts [(''a0'', [3]), (''b0'', [4])] NewTrie = Ret t2 \<and>
     RootHash t = RootHash t2"
proof -
  have d: "decodeKey ''a0'' = [] @ 10 # [0]" "decodeKey ''b0'' = [] @ 11 # [0]" by code_simp+
  obtain t where t: "trie_puts [(''a0'', [1]), (''b0'', [2])] NewTrie = Ret t" using two_puts [OF d] by fastforce
  obtain t2 where t2: "trie_puts [(''a0'', [3]), (''b0'', [4])] NewTrie = Ret t2" using two_puts [OF d] by fastforce
  have "RootHash t = RootHash t2" by (rule root_hash_ignores_values [OF _ _ t t2]) (simp_all add: d)
  with t t2 show ?thesis by blast
qed

text \<open>C37. Deleting a key loses every other key that it extends: when a key is a proper prefix of the deleted one, and nothing else is stored, the
  remaining leaf is filed under the nibble 255, which no key contains.\<close>

theorem delete_loses_prefix:
  assumes "decodeKey k = p" and "p \<noteq> []" and "decodeKey k' = p @ x # xs"
  shows "\<exists>t t'. trie_puts [(k, v), (k', w)] NewTrie = Ret t \<and> GetProof k t = Ret (True, None) \<and>
     Trie_Delete k' t = Ret t' \<and> GetProof k t' = Ret (False, None)"
proof -
  have cl: "common_len p (p @ x # xs) = length p" by (induction p) simp_all
  have x: "unat x < 16" using nib_decodeKey [of k'] assms(3) by simp
  let ?br = "rehash (Node BranchNode [] (Some v) (no_children[unat x := Some (leaf xs (Some w))]) [])"
  have "insertIntoLeaf (Node LeafNode p (Some v) no_children h) (p @ x # xs) (Some w) = Ret (extension p ?br)" for h
    using x assms(2) by (simp add: insertIntoLeaf_def cl place_def under_prefix_def no_children_def Let_def)
  then have put: "trie_puts [(k, v), (k', w)] NewTrie = Ret (Some (rehash (extension p ?br)))"
    using assms by (simp add: Trie_Put_def trie_Put_some_def NewTrie_def leaf_def with_hash_def)
  let ?t = "Some (rehash (extension p ?br))"
  have get: "GetProof k ?t = Ret (True, None)"
    using assms(1) by (simp add: GetProof_def extension_eq with_hash_def has_prefix_def)
  have clear: "no_children[unat x := None] = no_children" by (simp add: no_children_def list_update_same_conv x)
  have "length (filter (\<lambda>c. c \<noteq> None) no_children) = 0" "last_child no_children = - 1"
    by (simp add: no_children_def) code_simp
  then have comp: "compact (Node BranchNode [] (Some v) no_children h) = Some (leaf [- 1] (Some v))" for h
    by (simp add: compact_def Let_def)
  have len: "length no_children = 16" by (simp add: no_children_def)
  have sub: "trie_delete (Some ?br) (x # xs) = Ret (Some (leaf [- 1] (Some v)))"
    using x by (simp add: with_hash_def len clear comp leaf_def)
  obtain n where n: "Trie_Delete k' ?t = Ret (Some n)" "n_Type n = ExtensionNode" "n_KeyPath n = p @ [- 1]"
  proof
    let ?n = "rehash (merge_child (rehash (extension p ?br)) (leaf [- 1] (Some v)))"
    have "rehash ?br = ?br" by (simp add: with_hash_def encodeNode_def)
    then show "Trie_Delete k' ?t = Ret (Some ?n)"
      using sub assms(3) by (simp add: Trie_Delete_def extension_eq with_hash_def has_prefix_def)
    show "n_Type ?n = ExtensionNode" "n_KeyPath ?n = p @ [- 1]"
      by (simp_all add: merge_child_def extension_eq with_hash_def leaf_def no_children_def numeral_eq_Suc)
  qed
  moreover have "\<not> has_prefix p (p @ [- 1])" by (simp add: has_prefix_def)
  ultimately have "GetProof k (Some n) = Ret (False, None)" using assms(1) by (cases n) (simp add: GetProof_def)
  with put get n(1) show ?thesis by blast
qed

theorem delete_loses_prefix_w:
  "\<exists>t t'. trie_puts [(''ab'', [1]), (''abcd'', [2])] NewTrie = Ret t \<and> GetProof ''ab'' t = Ret (True, None) \<and>
     Trie_Delete ''abcd'' t = Ret t' \<and> GetProof ''ab'' t' = Ret (False, None)"
proof (rule delete_loses_prefix)
  show "decodeKey ''ab'' = [10, 11]" by code_simp
  show "decodeKey ''abcd'' = [10, 11] @ 12 # [13]" by code_simp
qed simp

end
