(* ===== verification/GoHeap.thy ===== *)
theory GoHeap
  imports Prelude "HOL-Library.Multiset"
begin

text \<open>
  The heap operations of Go's \<^verbatim>\<open>container/heap\<close>, as \<^verbatim>\<open>internal/mempool/mempool.go\<close> uses them: on a slice whose
  \<^verbatim>\<open>Less\<close> puts the entry of greater key first.  The lemmas show that pushing and popping keep the heap order and that
  a pop returns an entry of greatest key, so that draining a heap lists its entries by descending key.
\<close>

definition heap_Swap :: "nat \<Rightarrow> nat \<Rightarrow> 'a list \<Rightarrow> 'a list" where
  "heap_Swap i j h = h[i := h ! j, j := h ! i]"

function heap_up :: "('a \<Rightarrow> int) \<Rightarrow> nat \<Rightarrow> 'a list \<Rightarrow> 'a list" where
  "heap_up key j h =
     (let i = (j - 1) div 2 in
      if i = j \<or> \<not> key (h ! i) < key (h ! j) then h else heap_up key i (heap_Swap i j h))"
  by pat_completeness auto
termination
  by (relation "measure (\<lambda>(key, j, h). j)") auto

function heap_down :: "('a \<Rightarrow> int) \<Rightarrow> nat \<Rightarrow> nat \<Rightarrow> 'a list \<Rightarrow> 'a list" where
  "heap_down key i n h =
     (let j1 = 2 * i + 1 in
      if n \<le> j1 then h
      else
        let j = (if j1 + 1 < n \<and> key (h ! j1) < key (h ! (j1 + 1)) then j1 + 1 else j1) in
        if \<not> key (h ! i) < key (h ! j) then h else heap_down key j n (heap_Swap i j h))"
  by pat_completeness auto
termination
  by (relation "measure (\<lambda>(key, i, n, h). n - i)") (auto simp: Let_def split: if_splits)

declare heap_up.simps [simp del] heap_down.simps [simp del]

definition heap_Init :: "('a \<Rightarrow> int) \<Rightarrow> 'a list \<Rightarrow> 'a list" where
  "heap_Init key h = fold (\<lambda>i g. heap_down key i (length h) g) (rev [0..<length h div 2]) h"

definition heap_Push :: "('a \<Rightarrow> int) \<Rightarrow> 'a \<Rightarrow> 'a list \<Rightarrow> 'a list" where
  "heap_Push key x h = heap_up key (length h) (h @ [x])"

definition heap_Pop :: "('a \<Rightarrow> int) \<Rightarrow> 'a list \<Rightarrow> 'a \<times> 'a list" where
  "heap_Pop key h =
     (let n = length h - 1; g = heap_down key 0 n (heap_Swap 0 n h) in (last g, butlast g))"

subsection \<open>The entries\<close>

lemma length_heap_Swap [simp]: "length (heap_Swap i j h) = length h"
  by (simp add: heap_Swap_def)

lemma mset_heap_Swap: "i < length h \<Longrightarrow> j < length h \<Longrightarrow> mset (heap_Swap i j h) = mset h"
  unfolding heap_Swap_def by (rule mset_swap)

lemma nth_heap_Swap: "i < length h \<Longrightarrow> j < length h \<Longrightarrow> heap_Swap i j h ! k = (if k = i then h ! j else if k = j then h ! i else h ! k)"
  by (simp add: heap_Swap_def nth_list_update)

lemma length_heap_up [simp]: "length (heap_up key j h) = length h"
  by (induction key j h rule: heap_up.induct) (subst heap_up.simps, simp add: Let_def)

lemma length_heap_down [simp]: "length (heap_down key i n h) = length h"
  by (induction key i n h rule: heap_down.induct) (subst heap_down.simps, simp add: Let_def)

lemma mset_heap_up: "j < length h \<Longrightarrow> mset (heap_up key j h) = mset h"
proof (induction key j h rule: heap_up.induct)
  case (1 key j h)
  then show ?case by (subst heap_up.simps) (auto simp: Let_def mset_heap_Swap)
qed

lemma mset_heap_down: "n \<le> length h \<Longrightarrow> mset (heap_down key i n h) = mset h"
proof (induction key i n h rule: heap_down.induct)
  case (1 key i n h)
  then show ?case by (subst heap_down.simps) (auto simp: Let_def mset_heap_Swap)
qed

lemma heap_down_beyond: "n \<le> length h \<Longrightarrow> n \<le> k \<Longrightarrow> heap_down key i n h ! k = h ! k"
proof (induction key i n h rule: heap_down.induct)
  case (1 key i n h)
  then show ?case by (subst heap_down.simps) (auto simp: Let_def nth_heap_Swap)
qed

lemma heap_fold: "length (fold (\<lambda>i g. heap_down key i n g) is h) = length h"
  "n \<le> length h \<Longrightarrow> mset (fold (\<lambda>i g. heap_down key i n g) is h) = mset h"
  by (induction "is" arbitrary: h) (simp_all add: mset_heap_down)

lemma heap_Init_mset [simp]: "length (heap_Init key h) = length h" "mset (heap_Init key h) = mset h"
  by (simp_all add: heap_Init_def heap_fold)

lemma heap_Push_mset [simp]: "length (heap_Push key x h) = Suc (length h)" "mset (heap_Push key x h) = add_mset x (mset h)"
  by (simp_all add: heap_Push_def mset_heap_up)

subsection \<open>The heap order\<close>

text \<open>The order between the first \<open>n\<close> entries and their parents, for parents from position \<open>s\<close> on.\<close>

definition heap_from :: "('a \<Rightarrow> int) \<Rightarrow> nat \<Rightarrow> nat \<Rightarrow> 'a list \<Rightarrow> bool" where
  "heap_from key s n h \<longleftrightarrow> (\<forall>c. 0 < c \<and> c < n \<and> s \<le> (c - 1) div 2 \<longrightarrow> key (h ! c) \<le> key (h ! ((c - 1) div 2)))"

abbreviation is_heap :: "('a \<Rightarrow> int) \<Rightarrow> 'a list \<Rightarrow> bool" where
  "is_heap key h \<equiv> heap_from key 0 (length h) h"

text \<open>The same order, except between position \<open>i\<close> and its children, which are in order with the parent of \<open>i\<close>.\<close>

definition heap_hole :: "('a \<Rightarrow> int) \<Rightarrow> nat \<Rightarrow> nat \<Rightarrow> nat \<Rightarrow> 'a list \<Rightarrow> bool" where
  "heap_hole key i s n h \<longleftrightarrow>
     (\<forall>c. 0 < c \<and> c < n \<and> s \<le> (c - 1) div 2 \<and> (c - 1) div 2 \<noteq> i \<longrightarrow> key (h ! c) \<le> key (h ! ((c - 1) div 2))) \<and>
     (\<forall>c. 0 < c \<and> c < n \<and> (c - 1) div 2 = i \<and> 0 < i \<and> s \<le> (i - 1) div 2 \<longrightarrow> key (h ! c) \<le> key (h ! ((i - 1) div 2)))"

text \<open>The child that \<^verbatim>\<open>down\<close> compares with its parent.\<close>

definition big_child :: "('a \<Rightarrow> int) \<Rightarrow> nat \<Rightarrow> nat \<Rightarrow> 'a list \<Rightarrow> nat" where
  "big_child key i n h = (if 2 * i + 2 < n \<and> key (h ! (2 * i + 1)) < key (h ! (2 * i + 2)) then 2 * i + 2 else 2 * i + 1)"

lemma heap_down_round:
  "heap_down key i n h =
     (if n \<le> 2 * i + 1 \<or> \<not> key (h ! i) < key (h ! big_child key i n h) then h
      else heap_down key (big_child key i n h) n (heap_Swap i (big_child key i n h) h))"
  by (subst heap_down.simps) (simp add: Let_def big_child_def)

lemma heap_down_heap: "heap_hole key i s n h \<Longrightarrow> s \<le> i \<Longrightarrow> n \<le> length h \<Longrightarrow> heap_from key s n (heap_down key i n h)"
proof (induction "n - i" arbitrary: i h rule: less_induct)
  case (less i h)
  define j where "j = big_child key i n h"
  have kids: "(c - 1) div 2 = i \<longleftrightarrow> c = 2 * i + 1 \<or> c = 2 * i + 2" if "0 < c" for c using that by auto
  show ?case
  proof (cases "n \<le> 2 * i + 1 \<or> \<not> key (h ! i) < key (h ! j)")
    case True
    have "key (h ! c) \<le> key (h ! i)" if "0 < c" "c < n" "(c - 1) div 2 = i" for c
      using that True kids [of c] by (auto simp: j_def big_child_def split: if_splits)
    then have "heap_from key s n h" using less(2) by (auto simp: heap_hole_def heap_from_def)
    then show ?thesis using True by (subst heap_down_round) (simp add: j_def)
  next
    case False
    have step: "heap_down key i n h = heap_down key j n (heap_Swap i j h)"
      using False by (subst heap_down_round) (simp add: j_def)
    have j: "j < n" "i < j" "(j - 1) div 2 = i" "0 < j" using False by (auto simp: j_def big_child_def)
    have len: "i < length h" "j < length h" using j less(4) by simp_all
    have best: "key (h ! c) \<le> key (h ! j)" if "0 < c" "c < n" "(c - 1) div 2 = i" for c
      using that kids [of c] by (auto simp: j_def big_child_def split: if_splits)
    have "heap_hole key j s n (heap_Swap i j h)"
      unfolding heap_hole_def
    proof (intro conjI allI impI)
      fix c assume c: "0 < c \<and> c < n \<and> s \<le> (c - 1) div 2 \<and> (c - 1) div 2 \<noteq> j"
      show "key (heap_Swap i j h ! c) \<le> key (heap_Swap i j h ! ((c - 1) div 2))"
      proof (cases "(c - 1) div 2 = i")
        case True
        then have "c \<noteq> i" using c by (cases i) auto
        then show ?thesis using True best [of c] c False len j(2) by (auto simp: nth_heap_Swap)
      next
        case other: False
        then have "c \<noteq> j" using j(3) by auto
        show ?thesis
        proof (cases "c = i")
          case True
          then have "key (h ! j) \<le> key (h ! ((i - 1) div 2))" using less(2) j c unfolding heap_hole_def by blast
          then show ?thesis using True other c len by (auto simp: nth_heap_Swap)
        next
          case ci: False
          then show ?thesis using other c less(2) \<open>c \<noteq> j\<close> len by (auto simp: nth_heap_Swap heap_hole_def)
        qed
      qed
    next
      fix c assume c: "0 < c \<and> c < n \<and> (c - 1) div 2 = j \<and> 0 < j \<and> s \<le> (j - 1) div 2"
      then have "c \<noteq> i" "c \<noteq> j" using j(2) by auto
      moreover have "key (h ! c) \<le> key (h ! j)" using less(2) c j less(3) unfolding heap_hole_def by (metis less_imp_neq less_imp_le order_trans)
      ultimately show "key (heap_Swap i j h ! c) \<le> key (heap_Swap i j h ! ((j - 1) div 2))"
        using j(3) len by (simp add: nth_heap_Swap)
    qed
    moreover have "s \<le> j" "n \<le> length (heap_Swap i j h)" using less(3,4) j(2) by simp_all
    moreover have "n - j < n - i" using j(1,2) by simp
    ultimately show ?thesis unfolding step using less(1) by blast
  qed
qed

lemma heap_Init_heap: "is_heap key (heap_Init key h)"
proof -
  let ?n = "length h"
  have "k \<le> ?n div 2 \<Longrightarrow> length g = ?n \<Longrightarrow> heap_from key k ?n g \<Longrightarrow>
      heap_from key 0 ?n (fold (\<lambda>i g. heap_down key i ?n g) (rev [0..<k]) g)" for k g
  proof (induction k arbitrary: g)
    case (Suc k)
    have "heap_hole key k k ?n g" using Suc.prems(3) by (auto simp: heap_hole_def heap_from_def)
    then have "heap_from key k ?n (heap_down key k ?n g)" by (rule heap_down_heap) (simp_all add: Suc.prems)
    then show ?case using Suc.IH [of "heap_down key k ?n g"] Suc.prems by simp
  qed simp
  moreover have "heap_from key (?n div 2) ?n h" by (auto simp: heap_from_def)
  ultimately have "heap_from key 0 ?n (heap_Init key h)" by (simp add: heap_Init_def)
  then show ?thesis by simp
qed

text \<open>While an entry moves up, only the order between it and its parent may fail.\<close>

lemma heap_up_heap:
  assumes "\<forall>c. 0 < c \<and> c < length h \<and> c \<noteq> j \<longrightarrow> key (h ! c) \<le> key (h ! ((c - 1) div 2))"
    and "\<forall>c. 0 < c \<and> c < length h \<and> (c - 1) div 2 = j \<and> 0 < j \<longrightarrow> key (h ! c) \<le> key (h ! ((j - 1) div 2))"
    and "j < length h"
  shows "is_heap key (heap_up key j h)"
  using assms
proof (induction j arbitrary: h rule: less_induct)
  case (less j h)
  define i where "i = (j - 1) div 2"
  show ?case
  proof (cases "i = j \<or> \<not> key (h ! i) < key (h ! j)")
    case True
    then have "heap_up key j h = h" by (subst heap_up.simps) (simp add: Let_def i_def)
    moreover have "j = 0 \<or> key (h ! j) \<le> key (h ! i)" using True i_def by (cases j) auto
    ultimately show ?thesis using less(2) by (auto simp: heap_from_def i_def)
  next
    case False
    then have ij: "i < j" by (cases j) (auto simp: i_def)
    have step: "heap_up key j h = heap_up key i (heap_Swap i j h)"
      using False by (subst heap_up.simps) (simp add: Let_def i_def)
    have len: "i < length h" "j < length h" using ij less(4) by simp_all
    have par: "key (h ! i) \<le> key (h ! ((i - 1) div 2))" if "0 < i" using less(2) that ij len by auto
    have sib: "key (h ! c) \<le> key (h ! i)" if "0 < c" "c < length h" "c \<noteq> j" "(c - 1) div 2 = i" for c
      using less(2) that by auto
    have "\<forall>c. 0 < c \<and> c < length h \<and> c \<noteq> i \<longrightarrow> key (heap_Swap i j h ! c) \<le> key (heap_Swap i j h ! ((c - 1) div 2))"
    proof (intro allI impI)
      fix c assume c: "0 < c \<and> c < length h \<and> c \<noteq> i"
      then have pc: "(c - 1) div 2 < c" by (cases c) auto
      consider "c = j" | "c \<noteq> j" "(c - 1) div 2 = i" | "c \<noteq> j" "(c - 1) div 2 = j" | "c \<noteq> j" "(c - 1) div 2 \<noteq> i" "(c - 1) div 2 \<noteq> j" by blast
      then show "key (heap_Swap i j h ! c) \<le> key (heap_Swap i j h ! ((c - 1) div 2))"
      proof cases
        case 1
        then show ?thesis using False len c by (auto simp: nth_heap_Swap i_def)
      next
        case 2
        then show ?thesis using sib [of c] False len c by (auto simp: nth_heap_Swap)
      next
        case 3
        then have "key (h ! c) \<le> key (h ! i)" using less(3) c ij by (auto simp: i_def)
        then show ?thesis using 3 len c ij by (auto simp: nth_heap_Swap)
      next
        case 4
        then show ?thesis using less(2) len c by (auto simp: nth_heap_Swap)
      qed
    qed
    moreover have "\<forall>c. 0 < c \<and> c < length h \<and> (c - 1) div 2 = i \<and> 0 < i \<longrightarrow>
        key (heap_Swap i j h ! c) \<le> key (heap_Swap i j h ! ((i - 1) div 2))"
    proof (intro allI impI)
      fix c assume c: "0 < c \<and> c < length h \<and> (c - 1) div 2 = i \<and> 0 < i"
      then have "(i - 1) div 2 \<noteq> i" "(i - 1) div 2 \<noteq> j" "c \<noteq> i" using ij by (cases i; auto)+
      then show "key (heap_Swap i j h ! c) \<le> key (heap_Swap i j h ! ((i - 1) div 2))"
        using par sib [of c] c len by (cases "c = j") (auto simp: nth_heap_Swap)
    qed
    ultimately show ?thesis unfolding step using less(1) [OF ij, of "heap_Swap i j h"] len by simp
  qed
qed

lemma heap_Push_heap: "is_heap key h \<Longrightarrow> is_heap key (heap_Push key x h)"
  unfolding heap_Push_def
proof (rule heap_up_heap)
  show "\<forall>c. 0 < c \<and> c < length (h @ [x]) \<and> (c - 1) div 2 = length h \<and> 0 < length h \<longrightarrow>
      key ((h @ [x]) ! c) \<le> key ((h @ [x]) ! ((length h - 1) div 2))"
  proof (intro allI impI, elim conjE)
    fix c assume "c < length (h @ [x])" "(c - 1) div 2 = length h" "0 < length h"
    moreover from this have "c - 1 < length h" by auto
    ultimately have False using div_le_dividend [of "c - 1" 2] by (metis not_le)
    then show "key ((h @ [x]) ! c) \<le> key ((h @ [x]) ! ((length h - 1) div 2))" ..
  qed
qed (auto simp: heap_from_def nth_append)

lemma heap_top: "is_heap key h \<Longrightarrow> c < length h \<Longrightarrow> key (h ! c) \<le> key (h ! 0)"
proof (induction c rule: less_induct)
  case (less c)
  show ?case
  proof (cases "c = 0")
    case False
    then have "(c - 1) div 2 < c" "key (h ! c) \<le> key (h ! ((c - 1) div 2))" using less(2,3) by (auto simp: heap_from_def)
    then show ?thesis using less(1) [of "(c - 1) div 2"] less(2,3) by simp
  qed simp
qed

lemma heap_Pop_spec:
  assumes "is_heap key h" and "h \<noteq> []" and "heap_Pop key h = (x, g)"
  shows "is_heap key g" and "mset h = add_mset x (mset g)" and "\<forall>y \<in> set h. key y \<le> key x" and "length g = length h - 1"
proof -
  let ?n = "length h - 1"
  define d where "d = heap_down key 0 ?n (heap_Swap 0 ?n h)"
  have n: "?n < length h" "0 < length h" using assms(2) by simp_all
  have d: "length d = length h" "mset d = mset h" using n by (simp_all add: d_def mset_heap_down mset_heap_Swap)
  then have ne: "d \<noteq> []" using assms(2) by auto
  have g: "g = butlast d" "x = last d" using assms(3) by (auto simp: heap_Pop_def d_def Let_def)
  have "last d = d ! ?n" using ne d(1) by (simp add: last_conv_nth)
  also have "\<dots> = h ! 0" using n by (simp add: d_def heap_down_beyond nth_heap_Swap)
  finally have x: "x = h ! 0" using g by simp
  then show "\<forall>y \<in> set h. key y \<le> key x" using heap_top [OF assms(1)] by (auto simp: in_set_conv_nth)
  show "length g = length h - 1" using g(1) d(1) by simp
  have "mset d = add_mset x (mset g)" using ne g by (metis add_mset_add_single append_butlast_last_id mset_append mset_single_iff mset.simps(1) mset.simps(2))
  then show "mset h = add_mset x (mset g)" using d(2) by simp
  have "heap_hole key 0 0 ?n (heap_Swap 0 ?n h)"
    using assms(1) n by (auto simp: heap_hole_def heap_from_def nth_heap_Swap)
  then have "heap_from key 0 ?n d" unfolding d_def by (rule heap_down_heap) simp_all
  then show "is_heap key g" using d(1) by (auto simp: g(1) heap_from_def nth_butlast)
qed

end
