(* ===== verification/FeePool.thy ===== *)
theory FeePool
  imports Accounts GoHeap
begin

text \<open>
  The transaction pool of the node programs, \<^verbatim>\<open>internal/mempool/mempool.go\<close>: entries by transaction id, by sender and by recipient,
  a heap by fee rate and a queue by age.  An entry is a value with the number of its allocation, so that equality of
  values is equality of pointers.  The clock is an argument of the operations that read it, and the verdict of the spam filter
  (\<^verbatim>\<open>Some reason\<close> for a rejection) an argument of \<^verbatim>\<open>Add\<close>, so the lemmas hold for every verdict.
\<close>

subsection \<open>State\<close>

record EntryMetrics =
  em_ReceivedAt :: int
  em_SizeBytes :: int
  em_FirstSeen :: int
  em_FailCount :: int
  em_IsFavorite :: bool

record pool_entry =
  pe_ptr :: nat
  pe_tx :: transaction
  pe_txid :: string
  pe_feePerKB :: int
  pe_weight :: int
  pe_expiry :: int
  pe_metrics :: EntryMetrics

record MempoolStats =
  ms_Received :: int
  ms_Accepted :: int
  ms_Rejected :: int
  ms_Evicted :: int
  ms_Expired :: int
  ms_CurrentSize :: int
  ms_TotalFees :: int

record fee_pool =
  fp_byHash :: "(string, pool_entry) gomap"
  fp_bySender :: "(string, pool_entry list) gomap"
  fp_byRecipient :: "(string, pool_entry list) gomap"
  fp_feeHeap :: "pool_entry list"
  fp_ttlQueue :: "pool_entry list"
  fp_maxSize :: int
  fp_ttl :: int
  fp_minFeeRate :: int
  fp_lastCleanup :: int
  fp_stats :: MempoolStats
  fp_pendingTxs :: "transaction list"
  fp_next :: nat

definition DefaultMaxSize :: int where
  "DefaultMaxSize = 50000"

text \<open>Durations are in nanoseconds.\<close>

definition DefaultTTL :: int where
  "DefaultTTL = 24 * 60 * 60 * 1000000000"

definition NewFeePool :: "int \<Rightarrow> int \<Rightarrow> int \<Rightarrow> fee_pool" where
  "NewFeePool cfgMaxSize cfgMinFeeRate now =
     \<lparr>fp_byHash = [], fp_bySender = [], fp_byRecipient = [], fp_feeHeap = heap_Init pe_feePerKB [], fp_ttlQueue = [],
      fp_maxSize = (if cfgMaxSize \<le> 0 then DefaultMaxSize else cfgMaxSize), fp_ttl = DefaultTTL,
      fp_minFeeRate = (if cfgMinFeeRate \<le> 0 then 1 else cfgMinFeeRate), fp_lastCleanup = now,
      fp_stats = \<lparr>ms_Received = 0, ms_Accepted = 0, ms_Rejected = 0, ms_Evicted = 0, ms_Expired = 0, ms_CurrentSize = 0, ms_TotalFees = 0\<rparr>,
      fp_pendingTxs = [], fp_next = 0\<rparr>"

subsection \<open>Removing entries\<close>

text \<open>The entry leaves the maps and the queue, not the heap.\<close>

definition drop_entry :: "pool_entry \<Rightarrow> string \<Rightarrow> (string, pool_entry list) gomap \<Rightarrow> (string, pool_entry list) gomap" where
  "drop_entry e k m =
     (case gget m k of
        None \<Rightarrow> m
      | Some entries \<Rightarrow> let newEntries = filter (\<lambda>x. x \<noteq> e) entries in if newEntries \<noteq> [] then gput k newEntries m else gdel k m)"

definition removeEntry :: "pool_entry \<Rightarrow> fee_pool \<Rightarrow> fee_pool" where
  "removeEntry e mp =
     mp\<lparr>fp_byHash := gdel (pe_txid e) (fp_byHash mp),
       fp_ttlQueue := filter (\<lambda>x. x \<noteq> e) (fp_ttlQueue mp),
       fp_bySender := drop_entry e (FromAddressSafe (pe_tx e)) (fp_bySender mp),
       fp_byRecipient := drop_entry e (tx_ToAddress (pe_tx e)) (fp_byRecipient mp),
       fp_stats := (fp_stats mp)\<lparr>ms_CurrentSize := i64 (ms_CurrentSize (fp_stats mp) - 1), ms_Evicted := i64 (ms_Evicted (fp_stats mp) + 1)\<rparr>\<rparr>"

definition removeSenderEntries :: "string \<Rightarrow> u64 \<Rightarrow> fee_pool \<Rightarrow> fee_pool" where
  "removeSenderEntries sender maxNonce mp =
     fold (\<lambda>(txid, e) p.
       if FromAddressSafe (pe_tx e) = sender \<and> tx_Nonce (pe_tx e) \<le> maxNonce
       then let p1 = removeEntry e p in p1\<lparr>fp_byHash := gdel txid (fp_byHash p1)\<rparr>
       else p) (fp_byHash mp) mp"

primrec evict_loop :: "nat \<Rightarrow> fee_pool \<Rightarrow> fee_pool" where
  "evict_loop 0 mp = mp"
| "evict_loop (Suc n) mp =
     (if fp_feeHeap mp = [] then mp
      else case heap_Pop pe_feePerKB (fp_feeHeap mp) of (e, h) \<Rightarrow> evict_loop n (removeEntry e (mp\<lparr>fp_feeHeap := h\<rparr>)))"

definition evictToMakeSpace :: "int \<Rightarrow> fee_pool \<Rightarrow> fee_pool" where
  "evictToMakeSpace n mp =
     (let target = int (length (fp_byHash mp)) + n - fp_maxSize mp in
      if target \<le> 0 then mp else evict_loop (nat target) mp)"

definition make_room :: "fee_pool \<Rightarrow> fee_pool" where
  "make_room mp = (if fp_maxSize mp \<le> int (length (fp_byHash mp)) then evictToMakeSpace 1 mp else mp)"

subsection \<open>Adding entries\<close>

definition fee_rate :: "transaction \<Rightarrow> int" where
  "fee_rate tx = tdiv (i64 (i64 (uint (tx_Fee tx)) * 1000)) (int (EstimateSize tx))"

definition low_fee :: "transaction \<Rightarrow> fee_pool \<Rightarrow> string" where
  "low_fee tx mp = ''fee too low: '' @ dec_int (fee_rate tx) @ '' < '' @ dec_int (fp_minFeeRate mp) @ '' sat/KB''"

definition new_entry :: "int \<Rightarrow> transaction \<Rightarrow> string \<Rightarrow> fee_pool \<Rightarrow> pool_entry" where
  "new_entry now tx txid mp =
     \<lparr>pe_ptr = fp_next mp, pe_tx = tx, pe_txid = txid, pe_feePerKB = fee_rate tx, pe_weight = int (EstimateSize tx), pe_expiry = now + fp_ttl mp,
      pe_metrics = \<lparr>em_ReceivedAt = now, em_SizeBytes = int (EstimateSize tx), em_FirstSeen = now, em_FailCount = 0, em_IsFavorite = False\<rparr>\<rparr>"

definition entries_at :: "(string, pool_entry list) gomap \<Rightarrow> string \<Rightarrow> pool_entry list" where
  "entries_at m k = (case gget m k of None \<Rightarrow> [] | Some es \<Rightarrow> es)"

definition insert_entry :: "string \<Rightarrow> pool_entry \<Rightarrow> fee_pool \<Rightarrow> fee_pool" where
  "insert_entry fromAddr e mp =
     mp\<lparr>fp_byHash := gput (pe_txid e) e (fp_byHash mp),
       fp_bySender := gput fromAddr (entries_at (fp_bySender mp) fromAddr @ [e]) (fp_bySender mp),
       fp_byRecipient := gput (tx_ToAddress (pe_tx e)) (entries_at (fp_byRecipient mp) (tx_ToAddress (pe_tx e)) @ [e]) (fp_byRecipient mp),
       fp_feeHeap := heap_Push pe_feePerKB e (fp_feeHeap mp),
       fp_ttlQueue := fp_ttlQueue mp @ [e],
       fp_stats := (fp_stats mp)\<lparr>ms_Accepted := i64 (ms_Accepted (fp_stats mp) + 1), ms_CurrentSize := i64 (ms_CurrentSize (fp_stats mp) + 1),
         ms_TotalFees := i64 (ms_TotalFees (fp_stats mp) + i64 (uint (tx_Fee (pe_tx e))))\<rparr>,
       fp_next := Suc (fp_next mp)\<rparr>"

definition count_rejected :: "fee_pool \<Rightarrow> fee_pool" where
  "count_rejected mp = mp\<lparr>fp_stats := (fp_stats mp)\<lparr>ms_Rejected := i64 (ms_Rejected (fp_stats mp) + 1)\<rparr>\<rparr>"

definition FeePool_Add :: "int \<Rightarrow> string option \<Rightarrow> transaction \<Rightarrow> fee_pool \<Rightarrow> fee_pool \<times> unit res" where
  "FeePool_Add now spam tx mp =
     (case TxIDHex tx of
        Inl e \<Rightarrow> (mp, Inl (''compute txid: '' @ e))
      | Inr txid \<Rightarrow>
          if gget (fp_byHash mp) txid \<noteq> None then (mp, Inl ''tx already in mempool'')
          else
            let mp1 = make_room mp in
            if fee_rate tx < fp_minFeeRate mp1 then (mp1, Inl (low_fee tx mp1))
            else case FromAddress tx of
              Inl e \<Rightarrow> (mp1, Inl (''get sender address: '' @ e))
            | Inr fromAddr \<Rightarrow>
                case spam of
                  Some reason \<Rightarrow> (count_rejected mp1, Inl (''spam detected: '' @ reason))
                | None \<Rightarrow>
                    let entry = new_entry now tx txid mp1; existing = entries_at (fp_bySender mp1) fromAddr in
                    if existing = [] then (insert_entry fromAddr entry mp1, Inr ())
                    else
                      let highestNonce = tx_Nonce (pe_tx (last existing)) in
                      if tx_Nonce tx \<le> highestNonce
                      then (mp1, Inl (''nonce too low: '' @ dec_nat (unat (tx_Nonce tx)) @ '' <= '' @ dec_nat (unat highestNonce)))
                      else (insert_entry fromAddr entry (removeSenderEntries fromAddr (tx_Nonce tx - 1) mp1), Inr ()))"

definition AddWithTxID :: "int \<Rightarrow> string option \<Rightarrow> transaction \<Rightarrow> fee_pool \<Rightarrow> fee_pool \<times> string res" where
  "AddWithTxID now spam tx mp =
     (case FeePool_Add now spam tx mp of
        (mp1, Inl e) \<Rightarrow> (mp1, Inl e)
      | (mp1, Inr _) \<Rightarrow> (mp1, Inr (case TxIDHex tx of Inl _ \<Rightarrow> '''' | Inr txid \<Rightarrow> txid)))"

text \<open>The channel of pending transactions holds 1000; a worker takes the first.\<close>

definition AddAsync :: "transaction \<Rightarrow> fee_pool \<Rightarrow> fee_pool" where
  "AddAsync tx mp = (if length (fp_pendingTxs mp) < 1000 then mp\<lparr>fp_pendingTxs := fp_pendingTxs mp @ [tx]\<rparr> else mp)"

definition validationWorker :: "int \<Rightarrow> string option \<Rightarrow> fee_pool \<Rightarrow> fee_pool" where
  "validationWorker now spam mp =
     (case fp_pendingTxs mp of
        [] \<Rightarrow> mp
      | tx # txs \<Rightarrow>
          (case FeePool_Add now spam tx (mp\<lparr>fp_pendingTxs := txs\<rparr>) of
             (mp1, Inl _) \<Rightarrow> count_rejected mp1
           | (mp1, Inr _) \<Rightarrow> mp1))"

subsection \<open>The other operations\<close>

definition FeePool_Cleanup :: "int \<Rightarrow> fee_pool \<Rightarrow> fee_pool" where
  "FeePool_Cleanup now mp =
     (fold (\<lambda>e p.
        if pe_expiry e < now \<or> 3 < em_FailCount (pe_metrics e)
        then let p1 = removeEntry e p in p1\<lparr>fp_stats := (fp_stats p1)\<lparr>ms_Expired := i64 (ms_Expired (fp_stats p1) + 1)\<rparr>\<rparr>
        else p) (fp_ttlQueue mp) mp)\<lparr>fp_lastCleanup := now\<rparr>"

definition FeePool_Remove :: "string \<Rightarrow> fee_pool \<Rightarrow> fee_pool" where
  "FeePool_Remove txid mp = (case gget (fp_byHash mp) txid of None \<Rightarrow> mp | Some e \<Rightarrow> removeEntry e mp)"

definition FeePool_RemoveMany :: "string list \<Rightarrow> fee_pool \<Rightarrow> fee_pool" where
  "FeePool_RemoveMany txids mp = fold FeePool_Remove txids mp"

definition getTxidBySenderNonce :: "string \<Rightarrow> u64 \<Rightarrow> fee_pool \<Rightarrow> string option" where
  "getTxidBySenderNonce sender nonce mp =
     map_option pe_txid (find (\<lambda>e. tx_Nonce (pe_tx e) = nonce) (entries_at (fp_bySender mp) sender))"

text \<open>\<^verbatim>\<open>ReplaceByFeeWithTxID\<close> stores the replacement under the id it is given.  The entry that \<^verbatim>\<open>bySender\<close> names need not be
  in \<^verbatim>\<open>byHash\<close>: then a nil pointer is read.\<close>

definition evict_after :: "string \<Rightarrow> u64 \<Rightarrow> fee_pool \<Rightarrow> fee_pool \<times> string list" where
  "evict_after fromAddr nonce mp =
     fold (\<lambda>(txid2, e) (p, evicted).
       if FromAddressSafe (pe_tx e) = fromAddr \<and> nonce < tx_Nonce (pe_tx e) then (removeEntry e p, evicted @ [txid2]) else (p, evicted))
       (fp_byHash mp) (mp, [])"

definition ReplaceByFeeWithTxID :: "int \<Rightarrow> transaction \<Rightarrow> string \<Rightarrow> fee_pool \<Rightarrow> (fee_pool \<times> string list \<times> string res) outcome" where
  "ReplaceByFeeWithTxID now tx txid mp =
     (case FromAddress tx of
        Inl e \<Rightarrow> Ret (mp, [], Inl e)
      | Inr fromAddr \<Rightarrow>
          (case getTxidBySenderNonce fromAddr (tx_Nonce tx) mp of
             None \<Rightarrow> Ret (mp, [], Inl (''no existing tx with nonce '' @ dec_nat (unat (tx_Nonce tx))))
           | Some existingTxid \<Rightarrow>
               (case gget (fp_byHash mp) existingTxid of
                  None \<Rightarrow> Panic
                | Some existingEntry \<Rightarrow>
                    if tx_Fee tx \<le> tx_Fee (pe_tx existingEntry) then Ret (mp, [], Inl ''replacement fee must be higher'')
                    else
                      case evict_after fromAddr (tx_Nonce tx) (removeEntry existingEntry mp) of (mp1, later) \<Rightarrow>
                        let evicted = existingTxid # later in
                        if gget (fp_byHash mp1) txid \<noteq> None then Ret (mp1, evicted, Inl ''tx already in mempool'')
                        else
                          let mp2 = make_room mp1 in
                          if fee_rate tx < fp_minFeeRate mp2 then Ret (mp2, evicted, Inl (low_fee tx mp2))
                          else Ret (insert_entry fromAddr (new_entry now tx txid mp2) mp2, evicted, Inr txid))))"

subsection \<open>Reading\<close>

definition FeePool_Get :: "string \<Rightarrow> fee_pool \<Rightarrow> transaction option" where
  "FeePool_Get txid mp = map_option pe_tx (gget (fp_byHash mp) txid)"

definition GetByRecipient :: "string \<Rightarrow> fee_pool \<Rightarrow> transaction list" where
  "GetByRecipient addr mp = map pe_tx (entries_at (fp_byRecipient mp) addr)"

definition GetTxs :: "fee_pool \<Rightarrow> transaction list" where
  "GetTxs mp = map (pe_tx \<circ> snd) (fp_byHash mp)"

definition FeePool_Size :: "fee_pool \<Rightarrow> nat" where
  "FeePool_Size mp = length (fp_byHash mp)"

definition FeePool_PendingForSender :: "string \<Rightarrow> fee_pool \<Rightarrow> pool_entry list" where
  "FeePool_PendingForSender fromAddr mp = entries_at (fp_bySender mp) fromAddr"

text \<open>The loop of \<^verbatim>\<open>SelectTxs\<close> reads the clock after each pop; \<open>clock k\<close> is the reading of round \<open>k\<close>.\<close>

function select_loop :: "(nat \<Rightarrow> int) \<Rightarrow> nat \<Rightarrow> int \<Rightarrow> int \<Rightarrow> pool_entry list \<Rightarrow> pool_entry list" where
  "select_loop clock k maxWeight totalWeight h =
     (if h = [] then []
      else case heap_Pop pe_feePerKB h of (e, g) \<Rightarrow>
        if maxWeight < totalWeight + pe_weight e then []
        else if pe_expiry e < clock k then select_loop clock (Suc k) maxWeight totalWeight g
        else e # select_loop clock (Suc k) maxWeight (totalWeight + pe_weight e) g)"
  by pat_completeness auto
termination
  by (relation "measure (\<lambda>(clock, k, m, t, h). length h)") (auto simp: heap_Pop_def Let_def)

declare select_loop.simps [simp del]

definition SelectTxs :: "(nat \<Rightarrow> int) \<Rightarrow> int \<Rightarrow> fee_pool \<Rightarrow> transaction list" where
  "SelectTxs clock maxWeight mp = map pe_tx (select_loop clock 0 maxWeight 0 (heap_Init pe_feePerKB (fp_feeHeap mp)))"

text \<open>The two nested loops of \<^verbatim>\<open>EntriesSortedByFeeDesc\<close> exchange entries in place.\<close>

definition exchange_round :: "nat \<Rightarrow> pool_entry list \<Rightarrow> pool_entry list" where
  "exchange_round i es =
     fold (\<lambda>j xs. if tx_Fee (pe_tx (xs ! i)) < tx_Fee (pe_tx (xs ! j)) then heap_Swap i j xs else xs) [i + 1..<length es] es"

definition FeePool_EntriesSortedByFeeDesc :: "fee_pool \<Rightarrow> pool_entry list" where
  "FeePool_EntriesSortedByFeeDesc mp =
     (let entries = map snd (fp_byHash mp) in fold exchange_round [0..<length entries] entries)"

subsection \<open>What every removal keeps\<close>

lemma entries_at_gput [simp]: "entries_at (gput k es m) k' = (if k = k' then es else entries_at m k')"
  by (simp add: entries_at_def)

lemma entries_at_drop: "entries_at (drop_entry e k m) k' = (if k' = k then filter (\<lambda>x. x \<noteq> e) (entries_at m k) else entries_at m k')"
  by (auto simp: drop_entry_def entries_at_def Let_def split: option.split)

lemma removeEntry_simps [simp]:
  "fp_byHash (removeEntry e mp) = gdel (pe_txid e) (fp_byHash mp)"
  "fp_feeHeap (removeEntry e mp) = fp_feeHeap mp"
  "fp_minFeeRate (removeEntry e mp) = fp_minFeeRate mp"
  "fp_maxSize (removeEntry e mp) = fp_maxSize mp"
  "fp_ttlQueue (removeEntry e mp) = filter (\<lambda>x. x \<noteq> e) (fp_ttlQueue mp)"
  "fp_bySender (removeEntry e mp) = drop_entry e (FromAddressSafe (pe_tx e)) (fp_bySender mp)"
  "fp_byRecipient (removeEntry e mp) = drop_entry e (tx_ToAddress (pe_tx e)) (fp_byRecipient mp)"
  by (simp_all add: removeEntry_def)

text \<open>A predicate on pools that removing an entry keeps, whether or not it was popped from the heap, and that does not depend on
  the counters, is kept by every operation that only removes.\<close>

locale pool_kept =
  fixes P :: "fee_pool \<Rightarrow> bool"
  assumes remove: "P mp \<Longrightarrow> P (removeEntry e mp)"
    and pop: "P mp \<Longrightarrow> fp_feeHeap mp \<noteq> [] \<Longrightarrow> heap_Pop pe_feePerKB (fp_feeHeap mp) = (e, h) \<Longrightarrow> P (removeEntry e (mp\<lparr>fp_feeHeap := h\<rparr>))"
    and forget: "P mp \<Longrightarrow> P (mp\<lparr>fp_byHash := gdel txid (fp_byHash mp)\<rparr>)"
    and counters: "P (mp\<lparr>fp_stats := st\<rparr>) = P mp" "P (mp\<lparr>fp_lastCleanup := t\<rparr>) = P mp" "P (mp\<lparr>fp_pendingTxs := q\<rparr>) = P mp"
begin

lemma removeSenderEntries_keeps: "P mp \<Longrightarrow> P (removeSenderEntries sender n mp)"
  unfolding removeSenderEntries_def
proof (rule fold_invariant [where Q = "\<lambda>_. True"], goal_cases)
  case (3 x s)
  from forget [OF remove [OF 3(3)]] 3(3) show ?case by (simp add: Let_def del: removeEntry_simps split: prod.split)
qed simp_all

lemma evict_loop_keeps: "P mp \<Longrightarrow> P (evict_loop n mp)"
  by (induction n arbitrary: mp) (auto split: prod.split intro: pop)

lemma make_room_keeps: "P mp \<Longrightarrow> P (make_room mp)"
  by (simp add: make_room_def evictToMakeSpace_def Let_def evict_loop_keeps)

lemma Cleanup_keeps: "P mp \<Longrightarrow> P (FeePool_Cleanup now mp)"
  unfolding FeePool_Cleanup_def counters(2)
  by (rule fold_invariant [where Q = "\<lambda>_. True"]) (auto simp: Let_def counters intro!: remove)

lemma Remove_keeps: "P mp \<Longrightarrow> P (FeePool_Remove txid mp)"
  by (simp add: FeePool_Remove_def remove split: option.split)

lemma RemoveMany_keeps: "P mp \<Longrightarrow> P (FeePool_RemoveMany txids mp)"
  unfolding FeePool_RemoveMany_def by (rule fold_invariant [where Q = "\<lambda>_. True"]) (auto intro: Remove_keeps)

lemma evict_after_keeps: "P mp \<Longrightarrow> P (fst (evict_after a n mp))"
  unfolding evict_after_def
  by (rule fold_invariant [where Q = "\<lambda>_. True" and P = "\<lambda>p. P (fst p)"]) (auto intro!: remove split: prod.splits if_splits)

lemma count_rejected_keeps: "P mp \<Longrightarrow> P (count_rejected mp)"
  by (simp add: count_rejected_def counters)

lemma AddAsync_keeps: "P mp \<Longrightarrow> P (AddAsync tx mp)"
  by (simp add: AddAsync_def counters)

end

subsection \<open>The indexes\<close>

definition indexed :: "fee_pool \<Rightarrow> string \<Rightarrow> pool_entry \<Rightarrow> bool" where
  "indexed mp txid e \<longleftrightarrow> pe_txid e = txid \<and> e \<in> set (entries_at (fp_bySender mp) (FromAddressSafe (pe_tx e))) \<and>
     e \<in> set (entries_at (fp_byRecipient mp) (tx_ToAddress (pe_tx e))) \<and> e \<in> set (fp_ttlQueue mp) \<and> e \<in> set (fp_feeHeap mp) \<and>
     fp_minFeeRate mp \<le> pe_feePerKB e"

definition pool_good :: "fee_pool \<Rightarrow> bool" where
  "pool_good mp \<longleftrightarrow> gmap_ok (fp_byHash mp) \<and> is_heap pe_feePerKB (fp_feeHeap mp) \<and>
     (\<forall>txid e. gget (fp_byHash mp) txid = Some e \<longrightarrow> indexed mp txid e)"

text \<open>The entry of a sender is the last one of the sender's list.\<close>

definition lone :: "fee_pool \<Rightarrow> bool" where
  "lone mp \<longleftrightarrow> (\<forall>txid e. gget (fp_byHash mp) txid = Some e \<longrightarrow> last (entries_at (fp_bySender mp) (FromAddressSafe (pe_tx e))) = e)"

lemma indexed_removeEntry:
  "indexed mp txid x \<Longrightarrow> pe_txid e \<noteq> txid \<Longrightarrow> indexed (removeEntry e mp) txid x"
  "indexed mp txid x \<Longrightarrow> pe_txid e \<noteq> txid \<Longrightarrow> set (fp_feeHeap mp) = insert e (set h) \<Longrightarrow> indexed (removeEntry e (mp\<lparr>fp_feeHeap := h\<rparr>)) txid x"
  by (auto simp: indexed_def entries_at_drop)

lemma removeEntry_good: "pool_good mp \<Longrightarrow> pool_good (removeEntry e mp)"
  by (simp add: pool_good_def indexed_removeEntry)

lemma removeEntry_popped:
  assumes "pool_good mp" and "fp_feeHeap mp \<noteq> []" and "heap_Pop pe_feePerKB (fp_feeHeap mp) = (e, h)"
  shows "pool_good (removeEntry e (mp\<lparr>fp_feeHeap := h\<rparr>))"
proof -
  have "is_heap pe_feePerKB (fp_feeHeap mp)" using assms(1) by (simp add: pool_good_def)
  note pop = heap_Pop_spec [OF this assms(2,3)]
  have "set (fp_feeHeap mp) = insert e (set h)" using pop(2) by (metis set_mset_add_mset_insert set_mset_mset)
  then show ?thesis using assms(1) pop(1) by (simp add: pool_good_def indexed_removeEntry(2))
qed

interpretation good: pool_kept pool_good
  by unfold_locales (auto simp: removeEntry_good removeEntry_popped, auto simp: pool_good_def indexed_def)

lemma last_filter: "l \<noteq> [] \<Longrightarrow> Q (last l) \<Longrightarrow> last (filter Q l) = last l"
  by (induction l rule: rev_induct) simp_all

lemma removeEntry_lone:
  assumes "pool_good mp" and "lone mp"
  shows "lone (removeEntry e mp)"
  unfolding lone_def
proof (intro allI impI)
  fix txid x assume "gget (fp_byHash (removeEntry e mp)) txid = Some x"
  then have x: "gget (fp_byHash mp) txid = Some x" "pe_txid e \<noteq> txid" by (auto split: if_splits)
  then have ix: "indexed mp txid x" "last (entries_at (fp_bySender mp) (FromAddressSafe (pe_tx x))) = x"
    using assms by (auto simp: pool_good_def lone_def)
  then have "x \<noteq> e" "entries_at (fp_bySender mp) (FromAddressSafe (pe_tx x)) \<noteq> []" using x(2) by (auto simp: indexed_def)
  then show "last (entries_at (fp_bySender (removeEntry e mp)) (FromAddressSafe (pe_tx x))) = x"
    using ix(2) by (cases "FromAddressSafe (pe_tx x) = FromAddressSafe (pe_tx e)") (simp_all add: entries_at_drop last_filter [where Q = "\<lambda>x. x \<noteq> e"])
qed

lemma lone_heap [simp]: "lone (mp\<lparr>fp_feeHeap := h\<rparr>) = lone mp"
  by (simp add: lone_def)

interpretation single: pool_kept "\<lambda>mp. pool_good mp \<and> lone mp"
proof unfold_locales
  fix mp e h assume "pool_good mp \<and> lone mp" "fp_feeHeap mp \<noteq> []" "heap_Pop pe_feePerKB (fp_feeHeap mp) = (e, h)"
  moreover have "lone (removeEntry e mp) = lone (removeEntry e (mp\<lparr>fp_feeHeap := h\<rparr>))" by (simp add: lone_def)
  ultimately show "pool_good (removeEntry e (mp\<lparr>fp_feeHeap := h\<rparr>)) \<and> lone (removeEntry e (mp\<lparr>fp_feeHeap := h\<rparr>))"
    by (simp add: removeEntry_popped removeEntry_lone)
qed (auto simp: removeEntry_good removeEntry_lone, auto simp: pool_good_def indexed_def lone_def)

lemma insert_entry_good:
  assumes "pool_good mp" and "FromAddressSafe (pe_tx e) = a" and "fp_minFeeRate mp \<le> pe_feePerKB e"
  shows "pool_good (insert_entry a e mp)"
proof -
  have "set (heap_Push pe_feePerKB e (fp_feeHeap mp)) = insert e (set (fp_feeHeap mp))"
    by (metis heap_Push_mset(2) set_mset_add_mset_insert set_mset_mset)
  moreover have "is_heap pe_feePerKB (heap_Push pe_feePerKB e (fp_feeHeap mp))"
    using assms(1) by (intro heap_Push_heap) (simp add: pool_good_def)
  moreover have "indexed (insert_entry a e mp) txid x" if "indexed mp txid x" for txid x
    using that calculation(1) by (auto simp: indexed_def insert_entry_def)
  moreover have "indexed (insert_entry a e mp) (pe_txid e) e"
    using assms(2,3) calculation(1) by (simp add: indexed_def insert_entry_def)
  ultimately show ?thesis using assms(1) by (auto simp: pool_good_def insert_entry_def)
qed

lemma insert_entry_lone:
  assumes "lone mp" and "FromAddressSafe (pe_tx e) = a"
    and "\<And>txid x. gget (fp_byHash mp) txid = Some x \<Longrightarrow> FromAddressSafe (pe_tx x) \<noteq> a"
  shows "lone (insert_entry a e mp)"
  unfolding lone_def
proof (intro allI impI)
  fix txid x assume "gget (fp_byHash (insert_entry a e mp)) txid = Some x"
  then have "(if pe_txid e = txid then Some e else gget (fp_byHash mp) txid) = Some x" by (simp add: insert_entry_def)
  then consider "x = e" | "gget (fp_byHash mp) txid = Some x" by (cases "pe_txid e = txid") simp_all
  then show "last (entries_at (fp_bySender (insert_entry a e mp)) (FromAddressSafe (pe_tx x))) = x"
  proof cases
    case 1
    then show ?thesis using assms(2) by (simp add: insert_entry_def)
  next
    case 2
    from assms(3) [OF 2] have "FromAddressSafe (pe_tx x) \<noteq> a" .
    moreover have "last (entries_at (fp_bySender mp) (FromAddressSafe (pe_tx x))) = x" using assms(1) 2 by (simp add: lone_def)
    ultimately show ?thesis by (simp add: insert_entry_def)
  qed
qed

lemma new_entry_simps [simp]:
  "pe_tx (new_entry now tx txid mp) = tx" "pe_txid (new_entry now tx txid mp) = txid" "pe_feePerKB (new_entry now tx txid mp) = fee_rate tx"
  "pe_weight (new_entry now tx txid mp) = int (EstimateSize tx)" "pe_expiry (new_entry now tx txid mp) = now + fp_ttl mp"
  by (simp_all add: new_entry_def)

text \<open>Which entries removing the entries of a sender leaves.\<close>

lemma removeSenderEntries_left:
  assumes "pool_good mp"
  shows "gget (fp_byHash (removeSenderEntries a n mp)) txid = Some e \<longleftrightarrow>
     gget (fp_byHash mp) txid = Some e \<and> \<not> (FromAddressSafe (pe_tx e) = a \<and> tx_Nonce (pe_tx e) \<le> n)"
proof -
  let ?c = "\<lambda>e. FromAddressSafe (pe_tx e) = a \<and> tx_Nonce (pe_tx e) \<le> n"
  let ?f = "\<lambda>(txid, e) p. if ?c e then let p1 = removeEntry e p in p1\<lparr>fp_byHash := gdel txid (fp_byHash p1)\<rparr> else p"
  have "\<forall>(t, x) \<in> set l. pe_txid x = t \<Longrightarrow>
      gget (fp_byHash (fold ?f l p)) txid = (if \<exists>x. (txid, x) \<in> set l \<and> ?c x then None else gget (fp_byHash p) txid)" for l p
    by (induction l arbitrary: p) (auto simp: Let_def)
  moreover have ok: "gmap_ok (fp_byHash mp)" "\<forall>(t, x) \<in> set (fp_byHash mp). pe_txid x = t"
    using assms by (auto simp: pool_good_def indexed_def gget_Some_iff)
  ultimately have eq: "gget (fp_byHash (removeSenderEntries a n mp)) txid = (if \<exists>x. (txid, x) \<in> set (fp_byHash mp) \<and> ?c x then None else gget (fp_byHash mp) txid)"
    by (simp add: removeSenderEntries_def)
  have "(txid, x) \<in> set (fp_byHash mp) \<longleftrightarrow> gget (fp_byHash mp) txid = Some x" for x using ok(1) by (simp add: gget_Some_iff)
  then show ?thesis unfolding eq by auto
qed

lemma fold_rate: "(\<And>x p. fp_minFeeRate (f x p) = fp_minFeeRate p) \<Longrightarrow> fp_minFeeRate (fold f xs mp) = fp_minFeeRate mp"
  by (induction xs arbitrary: mp) simp_all

lemma rate_kept [simp]:
  "fp_minFeeRate (removeSenderEntries a n mp) = fp_minFeeRate mp" "fp_minFeeRate (evict_loop k mp) = fp_minFeeRate mp"
  "fp_minFeeRate (make_room mp) = fp_minFeeRate mp"
proof -
  show "fp_minFeeRate (removeSenderEntries a n mp) = fp_minFeeRate mp"
    unfolding removeSenderEntries_def by (rule fold_rate) (auto simp: Let_def)
  show ev: "fp_minFeeRate (evict_loop k mp) = fp_minFeeRate mp" for k
    by (induction k arbitrary: mp) (auto split: prod.split)
  show "fp_minFeeRate (make_room mp) = fp_minFeeRate mp"
    by (simp add: make_room_def evictToMakeSpace_def ev Let_def)
qed

subsection \<open>Adding keeps the indexes\<close>

lemma FromAddressSafe_eq: "FromAddress tx = Inr a \<Longrightarrow> FromAddressSafe tx = a"
  by (simp add: FromAddressSafe_def)

text \<open>A successful insertion after the older entries of the sender were removed.\<close>

lemma FeePool_Add_cases:
  obtains (same) r where "FeePool_Add now spam tx mp = (mp, Inl r)"
  | (room) r where "FeePool_Add now spam tx mp = (make_room mp, Inl r)"
  | (spam) r where "FeePool_Add now spam tx mp = (count_rejected (make_room mp), Inl r)"
  | (first) a txid where "TxIDHex tx = Inr txid" "FromAddress tx = Inr a" "fp_minFeeRate mp \<le> fee_rate tx" "entries_at (fp_bySender (make_room mp)) a = []"
      "FeePool_Add now spam tx mp = (insert_entry a (new_entry now tx txid (make_room mp)) (make_room mp), Inr ())"
  | (later) a txid where "TxIDHex tx = Inr txid" "FromAddress tx = Inr a" "fp_minFeeRate mp \<le> fee_rate tx" "entries_at (fp_bySender (make_room mp)) a \<noteq> []"
      "tx_Nonce (pe_tx (last (entries_at (fp_bySender (make_room mp)) a))) < tx_Nonce tx"
      "FeePool_Add now spam tx mp =
        (insert_entry a (new_entry now tx txid (make_room mp)) (removeSenderEntries a (tx_Nonce tx - 1) (make_room mp)), Inr ())"
proof (cases "TxIDHex tx")
  case (Inl e)
  then show thesis using same by (simp add: FeePool_Add_def)
next
  case (Inr txid)
  show thesis
  proof (cases "gget (fp_byHash mp) txid \<noteq> None \<or> fee_rate tx < fp_minFeeRate mp")
    case True
    then show thesis using Inr same room by (cases "gget (fp_byHash mp) txid = None") (auto simp: FeePool_Add_def Let_def)
  next
    case ok: False
    show thesis
    proof (cases "FromAddress tx")
      case (Inl e)
      then show thesis using Inr ok room by (simp add: FeePool_Add_def)
    next
      case a: (Inr a)
      have unspam: thesis if "spam = Some reason" for reason using that a Inr ok spam by (simp add: FeePool_Add_def)
      have done1: thesis if "spam = None" "entries_at (fp_bySender (make_room mp)) a = []"
        using that a Inr ok first by (simp add: FeePool_Add_def Let_def)
      have done2: thesis if "spam = None" "entries_at (fp_bySender (make_room mp)) a \<noteq> []"
      proof (cases "tx_Nonce tx \<le> tx_Nonce (pe_tx (last (entries_at (fp_bySender (make_room mp)) a)))")
        case True
        then show thesis using that a Inr ok room by (simp add: FeePool_Add_def Let_def)
      next
        case False
        then show thesis using that a Inr ok later by (simp add: FeePool_Add_def Let_def)
      qed
      show thesis using unspam done1 done2 by (cases spam) auto
    qed
  qed
qed

lemma FeePool_Add_good: "pool_good mp \<Longrightarrow> pool_good (fst (FeePool_Add now spam tx mp))"
  by (cases rule: FeePool_Add_cases [of now spam tx mp])
    (auto simp: FromAddressSafe_eq
      intro!: good.make_room_keeps good.count_rejected_keeps good.removeSenderEntries_keeps insert_entry_good)

lemma FeePool_Add_lone:
  assumes "pool_good mp \<and> lone mp"
  shows "lone (fst (FeePool_Add now spam tx mp))"
proof -
  have room: "pool_good (make_room mp) \<and> lone (make_room mp)" using assms by (rule single.make_room_keeps)
  show ?thesis
  proof (cases rule: FeePool_Add_cases [of now spam tx mp])
    case (first a txid)
    have "FromAddressSafe (pe_tx x) \<noteq> a" if "gget (fp_byHash (make_room mp)) t = Some x" for t x
    proof -
      have "indexed (make_room mp) t x" using that room by (simp add: pool_good_def)
      then show ?thesis using first(4) by (auto simp: indexed_def)
    qed
    with first room show ?thesis by (simp add: insert_entry_lone FromAddressSafe_eq)
  next
    case (later a txid)
    let ?q = "removeSenderEntries a (tx_Nonce tx - 1) (make_room mp)"
    have pred: "n \<le> tx_Nonce tx - 1" if "n < tx_Nonce tx" for n
    proof -
      have "unat n < unat (tx_Nonce tx)" "tx_Nonce tx \<noteq> 0" using that by (auto simp: word_less_nat_alt)
      then show ?thesis by (simp add: word_le_nat_alt unat_minus_one)
    qed
    have "FromAddressSafe (pe_tx x) \<noteq> a" if x: "gget (fp_byHash ?q) t = Some x" for t x
    proof
      assume "FromAddressSafe (pe_tx x) = a"
      moreover from x have "gget (fp_byHash (make_room mp)) t = Some x" "\<not> (FromAddressSafe (pe_tx x) = a \<and> tx_Nonce (pe_tx x) \<le> tx_Nonce tx - 1)"
        using removeSenderEntries_left room by blast+
      ultimately show False using room later(5) pred unfolding lone_def by metis
    qed
    moreover have "lone ?q" using single.removeSenderEntries_keeps [OF room] by simp
    ultimately show ?thesis using later by (simp add: insert_entry_lone FromAddressSafe_eq)
  qed (use assms room single.count_rejected_keeps [OF room] in simp_all)
qed

lemma ReplaceByFeeWithTxID_good:
  assumes "pool_good mp" and "ReplaceByFeeWithTxID now tx txid mp = Ret (mp', evicted, r)"
  shows "pool_good mp'"
proof -
  have ev: "pool_good p" if "evict_after a n (removeEntry e mp) = (p, l)" for a n e p l
    using good.evict_after_keeps [OF removeEntry_good [OF assms(1)], of a n e] that by simp
  show ?thesis using assms
    by (auto simp: ReplaceByFeeWithTxID_def Let_def FromAddressSafe_eq
        split: sum.splits option.splits if_splits prod.splits intro!: insert_entry_good good.make_room_keeps dest!: ev)
qed

subsection \<open>Runs of the pool\<close>

datatype fee_op = AddTx int "string option" transaction | Async transaction | Worker int "string option" | CleanupAt int
  | RemoveTx string | RemoveTxs "string list" | Replace int transaction string

text \<open>A replacement that panics leaves the pool as it was.\<close>

fun fee_step :: "fee_op \<Rightarrow> fee_pool \<Rightarrow> fee_pool" where
  "fee_step (AddTx now spam tx) mp = fst (FeePool_Add now spam tx mp)"
| "fee_step (Async tx) mp = AddAsync tx mp"
| "fee_step (Worker now spam) mp = validationWorker now spam mp"
| "fee_step (CleanupAt now) mp = FeePool_Cleanup now mp"
| "fee_step (RemoveTx txid) mp = FeePool_Remove txid mp"
| "fee_step (RemoveTxs txids) mp = FeePool_RemoveMany txids mp"
| "fee_step (Replace now tx txid) mp = (case ReplaceByFeeWithTxID now tx txid mp of Ret (mp', _, _) \<Rightarrow> mp' | _ \<Rightarrow> mp)"

definition fee_run :: "fee_op list \<Rightarrow> int \<Rightarrow> int \<Rightarrow> int \<Rightarrow> fee_pool" where
  "fee_run ops maxSize minFeeRate now = fold fee_step ops (NewFeePool maxSize minFeeRate now)"

definition replaces :: "fee_op \<Rightarrow> bool" where
  "replaces op = (case op of Replace _ _ _ \<Rightarrow> True | _ \<Rightarrow> False)"

lemma validationWorker_good: "pool_good mp \<Longrightarrow> pool_good (validationWorker now spam mp)"
  using FeePool_Add_good [of "mp\<lparr>fp_pendingTxs := q\<rparr>" now spam for q]
  by (auto simp: validationWorker_def good.counters split: list.split prod.split sum.split intro!: good.count_rejected_keeps) (metis fst_conv)+

lemma validationWorker_lone: "pool_good mp \<and> lone mp \<Longrightarrow> pool_good (validationWorker now spam mp) \<and> lone (validationWorker now spam mp)"
proof (cases "fp_pendingTxs mp")
  case (Cons tx txs)
  assume ok: "pool_good mp \<and> lone mp"
  let ?q = "mp\<lparr>fp_pendingTxs := txs\<rparr>"
  have "pool_good ?q \<and> lone ?q" using ok by (simp add: single.counters)
  then have "pool_good (fst (FeePool_Add now spam tx ?q)) \<and> lone (fst (FeePool_Add now spam tx ?q))"
    by (simp add: FeePool_Add_good FeePool_Add_lone)
  moreover from single.count_rejected_keeps [OF this] calculation show ?thesis
    using Cons by (cases "FeePool_Add now spam tx ?q") (auto simp: validationWorker_def split: sum.split)
qed (simp add: validationWorker_def)

lemma fee_step_good: "pool_good mp \<Longrightarrow> pool_good (fee_step op mp)"
  by (cases op) (auto simp: FeePool_Add_good validationWorker_good ReplaceByFeeWithTxID_good
      intro: good.AddAsync_keeps good.Cleanup_keeps good.Remove_keeps good.RemoveMany_keeps split: outcome.split)

lemma fee_step_lone: "pool_good mp \<and> lone mp \<Longrightarrow> \<not> replaces op \<Longrightarrow> pool_good (fee_step op mp) \<and> lone (fee_step op mp)"
proof (cases op)
  case (AddTx now spam tx)
  assume "pool_good mp \<and> lone mp"
  then show ?thesis using AddTx by (simp add: FeePool_Add_good FeePool_Add_lone)
qed (simp_all add: validationWorker_lone single.AddAsync_keeps single.Cleanup_keeps single.Remove_keeps single.RemoveMany_keeps replaces_def)

lemma NewFeePool_ok: "pool_good (NewFeePool a b t)" "lone (NewFeePool a b t)"
  by (simp_all add: pool_good_def lone_def NewFeePool_def gmap_ok_def heap_Init_def heap_from_def)

text \<open>C11. The indexes of the pool always cover its entries: whatever is added, replaced and removed, in whatever order, every entry
  is filed under its id, in the list of its sender and of its recipient, in the queue by age and in the heap, pays at
  least the minimum fee rate, and the heap is in heap order.\<close>

theorem fee_pool_indexed: "pool_good (fee_run ops maxSize minFeeRate now)"
proof -
  have "pool_good (fold fee_step ops mp)" if "pool_good mp" for mp
    using that by (induction ops arbitrary: mp) (simp_all add: fee_step_good)
  then show ?thesis by (simp add: fee_run_def NewFeePool_ok)
qed

text \<open>C19. The pool never holds two transactions of one sender, unless one was put in by a replacement: adding a transaction with
  a higher nonce removes the earlier ones, so a sender cannot have a sequence of transactions pending.\<close>

theorem one_transaction_per_sender:
  assumes "\<forall>op \<in> set ops. \<not> replaces op"
    and "gget (fp_byHash (fee_run ops maxSize minFeeRate now)) txid1 = Some e1"
    and "gget (fp_byHash (fee_run ops maxSize minFeeRate now)) txid2 = Some e2"
    and "FromAddressSafe (pe_tx e1) = FromAddressSafe (pe_tx e2)"
  shows "txid1 = txid2"
proof -
  let ?mp = "fee_run ops maxSize minFeeRate now"
  have "pool_good (fold fee_step ops mp) \<and> lone (fold fee_step ops mp)" if "pool_good mp \<and> lone mp" for mp
    using that assms(1) by (induction ops arbitrary: mp) (simp_all add: fee_step_lone)
  then have ok: "pool_good ?mp" "lone ?mp" by (simp_all add: fee_run_def NewFeePool_ok)
  then have "indexed ?mp txid1 e1" "indexed ?mp txid2 e2" using assms(2,3) by (simp_all add: pool_good_def)
  moreover have "e1 = e2" using ok(2) assms(2-4) unfolding lone_def by metis
  ultimately show ?thesis by (auto simp: indexed_def)
qed

lemma demo_tx_ids:
  obtains txid where "TxIDHex demo_tx = Inr txid"
  by (simp add: TxIDHex_def SigningHash_def signingHashLegacyJSON_def FromAddress_def demo_tx_def)

lemma demo_tx_sender: "FromAddress demo_tx = Inr (GenerateAddress (replicate 32 1))"
  by (simp add: FromAddress_def demo_tx_def)

lemma demo_tx_rate: "fee_rate demo_tx = 6" "EstimateSize demo_tx = 144"
  by (simp_all add: fee_rate_def EstimateSize_def demo_tx_def tdiv_nonneg i64_def)

lemma NewFeePool_simps [simp]:
  "make_room (NewFeePool s r t) = NewFeePool s r t" "fp_byHash (NewFeePool s r t) = []" "entries_at (fp_bySender (NewFeePool s r t)) a = []"
  "fp_feeHeap (NewFeePool s r t) = []" "fp_ttl (NewFeePool s r t) = DefaultTTL"
  by (simp_all add: make_room_def NewFeePool_def DefaultMaxSize_def entries_at_def heap_Init_def)

lemma fresh_Add:
  assumes "TxIDHex tx = Inr txid" and "FromAddress tx = Inr a" and "fp_minFeeRate (NewFeePool s r t) \<le> fee_rate tx"
  shows "FeePool_Add now None tx (NewFeePool s r t) = (insert_entry a (new_entry now tx txid (NewFeePool s r t)) (NewFeePool s r t), Inr ())"
  using assms by (simp add: FeePool_Add_def Let_def)

theorem one_transaction_per_sender_w:
  "\<exists>txid e. gget (fp_byHash (fee_run [AddTx 5 None demo_tx] 10 1 0)) txid = Some e \<and>
     (\<forall>txid2 e2. gget (fp_byHash (fee_run [AddTx 5 None demo_tx] 10 1 0)) txid2 = Some e2 \<and>
        FromAddressSafe (pe_tx e2) = FromAddressSafe (pe_tx e) \<longrightarrow> txid2 = txid)"
proof -
  obtain txid where txid: "TxIDHex demo_tx = Inr txid" by (rule demo_tx_ids)
  have "fp_minFeeRate (NewFeePool 10 1 0) \<le> fee_rate demo_tx" by (simp add: NewFeePool_def demo_tx_rate)
  from fresh_Add [OF txid demo_tx_sender this, of 5]
  have "gget (fp_byHash (fee_run [AddTx 5 None demo_tx] 10 1 0)) txid = Some (new_entry 5 demo_tx txid (NewFeePool 10 1 0))"
    by (simp add: fee_run_def insert_entry_def)
  moreover have "txid2 = txid" if "gget (fp_byHash (fee_run [AddTx 5 None demo_tx] 10 1 0)) txid2 = Some e2"
    "FromAddressSafe (pe_tx e2) = FromAddressSafe (pe_tx (new_entry 5 demo_tx txid (NewFeePool 10 1 0)))" for txid2 e2
    by (rule one_transaction_per_sender [OF _ that(1) calculation that(2)]) (simp add: replaces_def)
  ultimately show ?thesis by blast
qed

subsection \<open>Selection\<close>

text \<open>Selection on a list of entries in the order in which they are considered.\<close>

fun greedy :: "(nat \<Rightarrow> int) \<Rightarrow> nat \<Rightarrow> int \<Rightarrow> int \<Rightarrow> pool_entry list \<Rightarrow> pool_entry list" where
  "greedy clock k maxWeight weight [] = []"
| "greedy clock k maxWeight weight (e # es) =
     (if maxWeight < weight + pe_weight e then []
      else if pe_expiry e < clock k then greedy clock (Suc k) maxWeight weight es
      else e # greedy clock (Suc k) maxWeight (weight + pe_weight e) es)"

lemma select_loop_greedy:
  assumes "is_heap pe_feePerKB h"
  shows "\<exists>order. mset order = mset h \<and> sorted_wrt (\<lambda>a b. pe_feePerKB b \<le> pe_feePerKB a) order \<and>
     (\<forall>k weight. select_loop clock k maxWeight weight h = greedy clock k maxWeight weight order)"
  using assms
proof (induction "length h" arbitrary: h)
  case (Suc n)
  then have ne: "h \<noteq> []" by auto
  obtain e g where pop: "heap_Pop pe_feePerKB h = (e, g)" by (cases "heap_Pop pe_feePerKB h") auto
  note spec = heap_Pop_spec [OF Suc(3) ne pop]
  have "n = length g" using Suc(2) spec(4) by simp
  from Suc(1) [OF this spec(1)] obtain order where order: "mset order = mset g" "sorted_wrt (\<lambda>a b. pe_feePerKB b \<le> pe_feePerKB a) order"
    "\<forall>k weight. select_loop clock k maxWeight weight g = greedy clock k maxWeight weight order" by blast
  have "set order \<subseteq> set h" using order(1) spec(2) by (metis set_mset_add_mset_insert set_mset_mset subset_insertI)
  then have "sorted_wrt (\<lambda>a b. pe_feePerKB b \<le> pe_feePerKB a) (e # order)" using order(2) spec(3) by auto
  moreover have "select_loop clock k maxWeight weight h = greedy clock k maxWeight weight (e # order)" for k weight
    using ne pop order(3) by (simp add: select_loop.simps [of clock k maxWeight weight h])
  moreover have "mset (e # order) = mset h" using spec(2) order(1) by simp
  ultimately show ?case by blast
qed (simp add: select_loop.simps)

text \<open>C20. \<^verbatim>\<open>SelectTxs\<close>, which pops a copy of the heap, selects as on the list of all entries by descending fee rate: it takes them in that
  order while they fit, skipping expired ones.\<close>

theorem SelectTxs_greedy:
  "\<exists>order. mset order = mset (fp_feeHeap mp) \<and> sorted_wrt (\<lambda>a b. pe_feePerKB b \<le> pe_feePerKB a) order \<and>
     SelectTxs clock maxWeight mp = map pe_tx (greedy clock 0 maxWeight 0 order)"
  using select_loop_greedy [OF heap_Init_heap, of "fp_feeHeap mp" clock maxWeight] by (auto simp: SelectTxs_def)

text \<open>C28. A removed transaction is still selected for a block: removing it leaves it in the heap.\<close>

theorem removed_transaction_selected:
  assumes "FeePool_Add now None tx (NewFeePool s r t) = (mp, Inr ())" and "TxIDHex tx = Inr txid"
    and "int (EstimateSize tx) \<le> maxWeight" and "clock 0 \<le> now + DefaultTTL"
  shows "FeePool_Size (FeePool_Remove txid mp) = 0 \<and> SelectTxs clock maxWeight (FeePool_Remove txid mp) = [tx]"
proof -
  let ?p = "NewFeePool s r t" and ?e = "new_entry now tx txid (NewFeePool s r t)"
  obtain a where mp: "mp = insert_entry a ?e ?p"
    using assms(1,2) by (cases rule: FeePool_Add_cases [of now None tx ?p]) auto
  have byHash: "fp_byHash mp = [(txid, ?e)]" and heap: "fp_feeHeap mp = [?e]"
    by (simp_all add: mp insert_entry_def gput_def heap_Push_def heap_up.simps)
  have "heap_Init pe_feePerKB [?e] = [?e]" by (simp add: heap_Init_def)
  moreover have "heap_Pop pe_feePerKB [?e] = (?e, [])" by (simp add: heap_Pop_def heap_down.simps heap_Swap_def)
  ultimately have "SelectTxs clock maxWeight (FeePool_Remove txid mp) = [tx]"
    using assms(3,4) byHash heap by (simp add: SelectTxs_def FeePool_Remove_def gget_Cons select_loop.simps)
  moreover have "FeePool_Size (FeePool_Remove txid mp) = 0"
    using byHash by (simp add: FeePool_Size_def FeePool_Remove_def gget_Cons gdel_def)
  ultimately show ?thesis by simp
qed

theorem removed_transaction_selected_w:
  "\<exists>mp txid. FeePool_Add 5 None demo_tx (NewFeePool 10 1 0) = (mp, Inr ()) \<and> TxIDHex demo_tx = Inr txid \<and>
     FeePool_Size (FeePool_Remove txid mp) = 0 \<and> SelectTxs (\<lambda>_. 6) 1000 (FeePool_Remove txid mp) = [demo_tx]"
proof -
  obtain txid where txid: "TxIDHex demo_tx = Inr txid" by (rule demo_tx_ids)
  have "fp_minFeeRate (NewFeePool 10 1 0) \<le> fee_rate demo_tx" by (simp add: NewFeePool_def demo_tx_rate)
  note add = fresh_Add [OF txid demo_tx_sender this, of 5]
  from removed_transaction_selected [OF add txid, of 1000 "\<lambda>_. 6"] add txid show ?thesis
    by (simp add: demo_tx_rate DefaultTTL_def)
qed

subsection \<open>Eviction and replacement\<close>

lemma evict_loop_gone: "gget (fp_byHash mp) txid = None \<Longrightarrow> gget (fp_byHash (evict_loop n mp)) txid = None"
  by (induction n arbitrary: mp) (auto split: prod.split)


definition full_pool :: "string \<Rightarrow> fee_pool" where
  "full_pool txid = insert_entry (FromAddressSafe demo_tx) (new_entry 5 demo_tx txid (NewFeePool 1 1 0)) (NewFeePool 1 1 0)"


lemma evict_after_left:
  assumes "pool_good mp" and "gget (fp_byHash mp) txid = Some e" and "FromAddressSafe (pe_tx e) \<noteq> a"
  shows "gget (fp_byHash (fst (evict_after a n mp))) txid = Some e"
proof -
  let ?f = "\<lambda>(txid2, e) (p, evicted). if FromAddressSafe (pe_tx e) = a \<and> n < tx_Nonce (pe_tx e) then (removeEntry e p, evicted @ [txid2]) else (p, evicted)"
  have ok: "indexed mp t x" if "gget (fp_byHash mp) t = Some x" for t x using assms(1) that by (simp add: pool_good_def)
  have "gmap_ok (fp_byHash mp)" using assms(1) by (simp add: pool_good_def)
  then have "\<forall>(t, x) \<in> set (fp_byHash mp). pe_txid x = txid \<longrightarrow> FromAddressSafe (pe_tx x) \<noteq> a"
    using ok assms(2,3) by (fastforce simp: gget_Some_iff [symmetric] indexed_def)
  then have "gget (fp_byHash (fst (fold ?f l (p, ev)))) txid = Some e"
    if "\<forall>(t, x) \<in> set l. pe_txid x = txid \<longrightarrow> FromAddressSafe (pe_tx x) \<noteq> a" "gget (fp_byHash p) txid = Some e" for l p ev
    using that by (induction l arbitrary: p ev) (auto split: prod.split)
  then show ?thesis
    using assms(2) \<open>\<forall>(t, x) \<in> set (fp_byHash mp). pe_txid x = txid \<longrightarrow> FromAddressSafe (pe_tx x) \<noteq> a\<close> by (simp add: evict_after_def)
qed

lemma evict_after_gone: "gget (fp_byHash mp) txid = None \<Longrightarrow> gget (fp_byHash (fst (evict_after a n mp))) txid = None"
  unfolding evict_after_def
  by (rule fold_invariant [where Q = "\<lambda>_. True" and P = "\<lambda>p. gget (fp_byHash (fst p)) txid = None"]) (auto split: prod.split)

text \<open>C30. A replacement can lose the transaction it replaces: the HTTP handler passes the empty id, under which the
  replacement is filed, so while the replacement of another sender is in the pool, the next one is refused after the
  transaction it was to replace has been removed.\<close>

theorem replacement_loses_transaction:
  assumes "pool_good mp" and "FromAddress tx = Inr a" and "getTxidBySenderNonce a (tx_Nonce tx) mp = Some old"
    and "gget (fp_byHash mp) old = Some e" and "tx_Fee (pe_tx e) < tx_Fee tx" and "old \<noteq> ''''"
    and "gget (fp_byHash mp) '''' = Some e0" and "FromAddressSafe (pe_tx e0) \<noteq> a"
  shows "\<exists>mp' evicted. ReplaceByFeeWithTxID now tx '''' mp = Ret (mp', evicted, Inl ''tx already in mempool'') \<and>
     gget (fp_byHash mp') old = None \<and> old \<in> set evicted"
proof -
  let ?p = "removeEntry e mp"
  have id: "pe_txid e = old" using assms(1,4) by (simp add: pool_good_def indexed_def)
  obtain mp1 later where ev: "evict_after a (tx_Nonce tx) ?p = (mp1, later)" by (cases "evict_after a (tx_Nonce tx) ?p") auto
  have "gget (fp_byHash ?p) '''' = Some e0" using assms(6,7) id by simp
  then have "gget (fp_byHash mp1) '''' = Some e0" using evict_after_left [OF removeEntry_good [OF assms(1)] _ assms(8)] ev by (metis fst_conv)
  moreover have "gget (fp_byHash mp1) old = None" using evict_after_gone [of ?p old a "tx_Nonce tx"] ev id by simp
  ultimately show ?thesis using assms(2-5) ev by (simp add: ReplaceByFeeWithTxID_def)
qed

definition other_tx :: transaction where
  "other_tx = demo_tx\<lparr>tx_Type := TxCoinbase\<rparr>"

definition two_pool :: fee_pool where
  "two_pool = insert_entry (FromAddressSafe other_tx) (new_entry 5 other_tx '''' (NewFeePool 9 1 0))
     (insert_entry (FromAddressSafe demo_tx) (new_entry 5 demo_tx ''x'' (NewFeePool 9 1 0)) (NewFeePool 9 1 0))"

theorem replacement_loses_transaction_w:
  "\<exists>mp' evicted. ReplaceByFeeWithTxID 6 (demo_tx\<lparr>tx_Fee := 2\<rparr>) '''' two_pool = Ret (mp', evicted, Inl ''tx already in mempool'') \<and>
     gget (fp_byHash mp') ''x'' = None \<and> ''x'' \<in> set evicted"
proof -
  let ?a = "GenerateAddress (replicate 32 1)"
  let ?e = "new_entry 5 demo_tx ''x'' (NewFeePool 9 1 0)" and ?f = "new_entry 5 other_tx '''' (NewFeePool 9 1 0)"
  have rate: "fee_rate other_tx = 6" "fp_minFeeRate (NewFeePool 9 1 0) = 1"
    using demo_tx_rate by (simp_all add: other_tx_def fee_rate_def EstimateSize_def NewFeePool_def)
  have sender: "FromAddressSafe demo_tx = ?a" "FromAddressSafe other_tx = ''''"
    by (simp_all add: FromAddressSafe_def demo_tx_sender other_tx_def, simp add: FromAddress_def TxCoinbase_def TxTransfer_def)
  have ne: "?a \<noteq> ''''" by (simp add: GenerateAddress_def AddressPrefix_def Let_def)
  have "pool_good two_pool" unfolding two_pool_def
    by (intro insert_entry_good) (simp_all add: NewFeePool_ok demo_tx_rate rate insert_entry_def)
  moreover have "FromAddress (demo_tx\<lparr>tx_Fee := 2\<rparr>) = Inr ?a" by (simp add: FromAddress_def demo_tx_def)
  moreover have "entries_at (fp_bySender two_pool) ?a = [?e]" using ne by (simp add: two_pool_def insert_entry_def sender)
  then have "getTxidBySenderNonce ?a (tx_Nonce (demo_tx\<lparr>tx_Fee := 2\<rparr>)) two_pool = Some ''x''" by (simp add: getTxidBySenderNonce_def)
  moreover have "gget (fp_byHash two_pool) ''x'' = Some ?e" "gget (fp_byHash two_pool) '''' = Some ?f" by (simp_all add: two_pool_def insert_entry_def)
  moreover have "tx_Fee (pe_tx ?e) < tx_Fee (demo_tx\<lparr>tx_Fee := 2\<rparr>)" by (simp add: demo_tx_def)
  moreover have "FromAddressSafe (pe_tx ?f) \<noteq> ?a" using sender(2) ne by simp
  ultimately show ?thesis by (intro replacement_loses_transaction [where e = ?e and ?e0.0 = ?f]) simp_all
qed

subsection \<open>Sorting\<close>

abbreviation fee_of :: "pool_entry \<Rightarrow> u64" where
  "fee_of e \<equiv> tx_Fee (pe_tx e)"

lemma exchange_round_spec:
  assumes "i < length es"
  shows "length (exchange_round i es) = length es" and "mset (exchange_round i es) = mset es"
    and "\<forall>k < i. exchange_round i es ! k = es ! k"
    and "\<forall>k. i < k \<and> k < length es \<longrightarrow> fee_of (exchange_round i es ! k) \<le> fee_of (exchange_round i es ! i)"
proof -
  let ?f = "\<lambda>j xs. if fee_of (xs ! i) < fee_of (xs ! j) then heap_Swap i j xs else xs"
  have "length (fold ?f [i + 1..<m] es) = length es \<and> mset (fold ?f [i + 1..<m] es) = mset es \<and>
      (\<forall>k < i. fold ?f [i + 1..<m] es ! k = es ! k) \<and> (\<forall>k. i < k \<and> k < m \<longrightarrow> fee_of (fold ?f [i + 1..<m] es ! k) \<le> fee_of (fold ?f [i + 1..<m] es ! i))"
    if "m \<le> length es" for m
    using that
  proof (induction m)
    case (Suc m)
    show ?case
    proof (cases "i < m")
      case True
      let ?g = "fold ?f [i + 1..<m] es"
      have IH: "length ?g = length es" "mset ?g = mset es" "\<forall>k < i. ?g ! k = es ! k" "\<forall>k. i < k \<and> k < m \<longrightarrow> fee_of (?g ! k) \<le> fee_of (?g ! i)"
        using Suc by simp_all
      have step: "fold ?f [i + 1..<Suc m] es = ?f m ?g" using True by simp
      have len: "i < length ?g" "m < length ?g" using IH(1) assms Suc.prems by simp_all
      show ?thesis unfolding step
        using IH True len by (auto simp: mset_heap_Swap nth_heap_Swap less_Suc_eq dest: order_le_less_trans intro: less_imp_le)
    next
      case False
      then have "[i + 1..<Suc m] = []" by simp
      then show ?thesis using False by (simp only: fold_simps id_apply) auto
    qed
  qed simp
  from this [of "length es"] show "length (exchange_round i es) = length es" "mset (exchange_round i es) = mset es"
    "\<forall>k < i. exchange_round i es ! k = es ! k"
    "\<forall>k. i < k \<and> k < length es \<longrightarrow> fee_of (exchange_round i es ! k) \<le> fee_of (exchange_round i es ! i)"
    by (simp_all add: exchange_round_def)
qed

lemma exchange_round_rest:
  assumes "m < length g" and "m \<le> k" and "k < length g"
  shows "\<exists>k'. m \<le> k' \<and> k' < length g \<and> exchange_round m g ! k = g ! k'"
proof -
  note spec = exchange_round_spec [OF assms(1)]
  have "mset (take m (exchange_round m g)) = mset (take m g)"
    using spec(1,3) assms(1) by (intro arg_cong [where f = mset] nth_equalityI) auto
  moreover have "mset (take m (exchange_round m g)) + mset (drop m (exchange_round m g)) = mset (take m g) + mset (drop m g)"
    using spec(2) by (metis append_take_drop_id mset_append)
  ultimately have "set (drop m (exchange_round m g)) = set (drop m g)" by (metis add_left_cancel set_mset_mset)
  moreover have "exchange_round m g ! k \<in> set (drop m (exchange_round m g))"
    using assms spec(1) by (auto simp: in_set_conv_nth intro!: exI [of _ "k - m"])
  ultimately obtain i where "i < length (drop m g)" "exchange_round m g ! k = drop m g ! i" by (metis in_set_conv_nth)
  then show ?thesis using assms(1) by (intro exI [of _ "m + i"]) auto
qed

text \<open>\<^verbatim>\<open>EntriesSortedByFeeDesc\<close> lists the entries of the pool, each once, by descending fee.\<close>

theorem FeePool_sorted:
  "mset (FeePool_EntriesSortedByFeeDesc mp) = mset (map snd (fp_byHash mp)) \<and>
     sorted_wrt (\<lambda>a b. tx_Fee (pe_tx b) \<le> tx_Fee (pe_tx a)) (FeePool_EntriesSortedByFeeDesc mp)"
proof -
  define es where "es = map snd (fp_byHash mp)"
  have "length (fold exchange_round [0..<m] es) = length es \<and> mset (fold exchange_round [0..<m] es) = mset es \<and>
      (\<forall>j k. j < m \<and> j < k \<and> k < length es \<longrightarrow> fee_of (fold exchange_round [0..<m] es ! k) \<le> fee_of (fold exchange_round [0..<m] es ! j))"
    if "m \<le> length es" for m
    using that
  proof (induction m)
    case (Suc m)
    let ?g = "fold exchange_round [0..<m] es"
    have IH: "length ?g = length es" "mset ?g = mset es" "\<forall>j k. j < m \<and> j < k \<and> k < length es \<longrightarrow> fee_of (?g ! k) \<le> fee_of (?g ! j)"
      using Suc by simp_all
    have m: "m < length ?g" using IH(1) Suc.prems by simp
    note spec = exchange_round_spec [OF m]
    note rest = exchange_round_rest [OF m, unfolded IH(1)]
    have "fee_of (exchange_round m ?g ! k) \<le> fee_of (exchange_round m ?g ! j)" if jk: "j < Suc m" "j < k" "k < length es" for j k
    proof (cases "j = m")
      case True
      then show ?thesis using spec(4) jk IH(1) by simp
    next
      case False
      then have j: "j < m" "exchange_round m ?g ! j = ?g ! j" using jk spec(3) by simp_all
      show ?thesis
      proof (cases "k < m")
        case True
        then show ?thesis using IH(3) j jk spec(3) by simp
      next
        case False
        then obtain k' where "m \<le> k'" "k' < length es" "exchange_round m ?g ! k = ?g ! k'" using rest jk(3) by (meson not_le)
        then show ?thesis using IH(3) j by simp
      qed
    qed
    then show ?case using spec(1,2) IH(1,2) by simp
  qed simp
  from this [of "length es"] show ?thesis
    by (auto simp: FeePool_EntriesSortedByFeeDesc_def Let_def sorted_wrt_iff_nth_less es_def)
qed

end
