(* ===== verification/LightClient.thy ===== *)
theory LightClient
  imports Accounts
begin

text \<open>
  The light clients of \<^verbatim>\<open>internal/blockchain/light_client.go\<close> and \<^verbatim>\<open>spv.go\<close>, and the Merkle proofs they exchange
  (\<^verbatim>\<open>merkle.go\<close>): the Bloom filter, the check of headers, the store of headers and the proof of a transaction.  The answers of
  the server are arguments of the operations that ask for them, and so is the floating point product of a change of
  difficulty.  An index outside a slice is the outcome \<open>Panic\<close>.
\<close>

subsection \<open>The Bloom filter\<close>

record BloomFilter =
  bf_data :: bytes
  bf_hashFuncs :: u32
  bf_tweak :: u32
  bf_matched :: "(string, bool) gomap"

definition NewBloomFilter :: "u32 \<Rightarrow> u32 \<Rightarrow> u32 \<Rightarrow> BloomFilter" where
  "NewBloomFilter sz hashFuncs tweak = \<lparr>bf_data = replicate (unat sz) 0, bf_hashFuncs = hashFuncs, bf_tweak = tweak, bf_matched = []\<rparr>"

definition sipHash :: "BloomFilter \<Rightarrow> bytes \<Rightarrow> u32 \<Rightarrow> u32" where
  "sipHash f data i =
     (let h = fold (\<lambda>d h. h * 0x100000001b3 + ucast d) data (ucast (bf_tweak f + i * 0xfba4c795) :: u64) in ucast (h XOR drop_bit 32 h))"

text \<open>The position is taken modulo the number of bits, in a slice with one byte for eight of them.\<close>

definition bloom_index :: "BloomFilter \<Rightarrow> bytes \<Rightarrow> u32 \<Rightarrow> nat" where
  "bloom_index f data i = unat (sipHash f data i mod of_nat (length (bf_data f) * 8))"

primrec add_loop :: "nat \<Rightarrow> bytes \<Rightarrow> BloomFilter \<Rightarrow> BloomFilter outcome" where
  "add_loop 0 data f = Ret f"
| "add_loop (Suc n) data f =
     obind (add_loop n data f) (\<lambda>g.
       let i = bloom_index g data (of_nat n) in
       if (of_nat (length (bf_data g) * 8) :: u32) = 0 \<or> length (bf_data g) \<le> i then Panic
       else Ret (g\<lparr>bf_data := (bf_data g)[i := 1]\<rparr>))"

definition BloomFilter_Add :: "bytes \<Rightarrow> BloomFilter \<Rightarrow> BloomFilter outcome" where
  "BloomFilter_Add data f = add_loop (unat (bf_hashFuncs f)) data f"

fun contains_loop :: "nat list \<Rightarrow> bytes \<Rightarrow> BloomFilter \<Rightarrow> bool outcome" where
  "contains_loop [] data f = Ret True"
| "contains_loop (n # ns) data f =
     (let i = bloom_index f data (of_nat n) in
      if (of_nat (length (bf_data f) * 8) :: u32) = 0 \<or> length (bf_data f) \<le> i then Panic
      else if bf_data f ! i = 0 then Ret False else contains_loop ns data f)"

definition BloomFilter_Contains :: "bytes \<Rightarrow> BloomFilter \<Rightarrow> bool outcome" where
  "BloomFilter_Contains data f = contains_loop [0..<unat (bf_hashFuncs f)] data f"

definition BloomFilter_Matched :: "BloomFilter \<Rightarrow> string list" where
  "BloomFilter_Matched f = map fst (bf_matched f)"

definition BloomFilter_Reset :: "BloomFilter \<Rightarrow> BloomFilter" where
  "BloomFilter_Reset f = f\<lparr>bf_data := replicate (length (bf_data f)) 0, bf_matched := []\<rparr>"

subsection \<open>Headers\<close>

record SPVHeader =
  sh_Version :: u32
  sh_Height :: int
  sh_TimestampUnix :: int
  sh_PrevBlock :: string
  sh_Difficulty :: int
  sh_Nonce :: u64
  sh_MerkleRoot :: string
  sh_Hash :: string

text \<open>The shift of a byte by 8 or more bits gives 0.\<close>

definition calcTarget :: "int \<Rightarrow> bytes outcome" where
  "calcTarget difficulty =
     (let d = (if difficulty \<le> 0 then 1 else difficulty); e0 = 256 - d div 8;
          e1 = (if e0 < 0 then 0 else e0); e = (if 256 < e1 then 256 else e1)
      in if e < 32 then if 32 \<le> 32 - e then Panic else Ret ((replicate 32 0)[nat (32 - e) := 1])
         else Ret ((replicate 32 0)[0 := push_bit (nat (e - 32)) 1]))"

definition bytesToUint256 :: "bytes \<Rightarrow> bytes" where
  "bytesToUint256 b = (if length b < 32 then replicate (32 - length b) 0 @ b else take 32 b)"

fun compare_loop :: "bytes \<Rightarrow> bytes \<Rightarrow> int" where
  "compare_loop (a # as) (b # bs) = (if a \<noteq> b then if a < b then - 1 else 1 else compare_loop as bs)"
| "compare_loop _ _ = 0"

definition bytesCompare :: "bytes \<Rightarrow> bytes \<Rightarrow> int" where
  "bytesCompare a b = (if length a \<noteq> length b then if length a < length b then - 1 else 1 else compare_loop a b)"

definition ValidatePoW :: "SPVHeader \<Rightarrow> bool outcome" where
  "ValidatePoW h =
     (if sh_Hash h = '''' then Ret False
      else case hex_decode (sh_Hash h) of (hashBytes, ok) \<Rightarrow>
        if \<not> ok \<or> length hashBytes \<noteq> 32 then Ret False
        else obind (calcTarget (sh_Difficulty h)) (\<lambda>target. Ret (bytesCompare (bytesToUint256 hashBytes) target \<le> 0)))"

definition blockToSPVHeader :: "block \<Rightarrow> SPVHeader" where
  "blockToSPVHeader b =
     \<lparr>sh_Version = blk_Version b, sh_Height = i64 (uint (blk_Height b)), sh_TimestampUnix = blk_TimestampUnix b,
      sh_PrevBlock = hex_encode (sl (blk_PrevHash b)), sh_Difficulty = uint (blk_DifficultyBits b), sh_Nonce = blk_Nonce b,
      sh_MerkleRoot = '''', sh_Hash = hex_encode (sl (blk_Hash b))\<rparr>"

text \<open>\<open>fl prevDiff actualTime targetTime\<close> is the product of the previous difficulty and the clamped ratio of the times, computed in
  floating point and truncated.\<close>

definition calcNewDifficulty :: "(int \<Rightarrow> int \<Rightarrow> int \<Rightarrow> int) \<Rightarrow> int \<Rightarrow> int \<Rightarrow> int \<Rightarrow> int" where
  "calcNewDifficulty fl prevDiff actualTime targetTime =
     (let n0 = fl prevDiff actualTime targetTime; n1 = (if n0 < 1 then 1 else n0);
          maxDiff = i64 (prevDiff * 4); minDiff = tdiv prevDiff 4;
          n2 = (if maxDiff < n1 then maxDiff else n1)
      in if n2 < minDiff then minDiff else n2)"

definition verifyDifficulty :: "(int \<Rightarrow> int \<Rightarrow> int \<Rightarrow> int) \<Rightarrow> SPVHeader \<Rightarrow> SPVHeader list \<Rightarrow> bool outcome" where
  "verifyDifficulty fl header prevHeaders =
     (if length prevHeaders < 2015 then Ret True
      else if length prevHeaders < 2016 then Panic
      else
        let first = prevHeaders ! (length prevHeaders - 2016); l = prevHeaders ! (length prevHeaders - 1);
            t0 = i64 (sh_TimestampUnix l - sh_TimestampUnix first); targetTime = 2016 * 600;
            t1 = (if t0 < targetTime div 4 then targetTime div 4 else t0); actualTime = (if targetTime * 4 < t1 then targetTime * 4 else t1)
        in Ret (sh_Difficulty header = calcNewDifficulty fl (sh_Difficulty l) actualTime targetTime))"

subsection \<open>The light client\<close>

record LightClient =
  lc_headers :: "SPVHeader list"
  lc_bestHeight :: int
  lc_bestHeader :: "SPVHeader option"
  lc_trustedBlock :: "block option"
  lc_filter :: BloomFilter
  lc_needsFilterUpdate :: bool
  lc_lastSyncTime :: int

definition NewLightClient :: LightClient where
  "NewLightClient =
     \<lparr>lc_headers = [], lc_bestHeight = 0, lc_bestHeader = None, lc_trustedBlock = None, lc_filter = NewBloomFilter 30000 5 0,
      lc_needsFilterUpdate = False, lc_lastSyncTime = 0\<rparr>"

definition connects :: "SPVHeader \<Rightarrow> LightClient \<Rightarrow> unit res" where
  "connects header lc =
     (if lc_headers lc \<noteq> [] then
        if sh_PrevBlock header \<noteq> sh_Hash (last (lc_headers lc)) then Inl (''chain discontinuity at height '' @ dec_int (sh_Height header)) else Inr ()
      else case lc_trustedBlock lc of
        None \<Rightarrow> Inr ()
      | Some b \<Rightarrow> if sh_PrevBlock header \<noteq> hex_encode (sl (blk_Hash b)) then Inl ''doesn't connect to trusted block'' else Inr ())"

definition append_header :: "SPVHeader \<Rightarrow> LightClient \<Rightarrow> LightClient" where
  "append_header header lc =
     (let lc1 = lc\<lparr>lc_headers := lc_headers lc @ [header]\<rparr> in
      if lc_bestHeight lc1 < sh_Height header then lc1\<lparr>lc_bestHeight := sh_Height header, lc_bestHeader := Some header\<rparr> else lc1)"

fun validateAndAddHeaders :: "(int \<Rightarrow> int \<Rightarrow> int \<Rightarrow> int) \<Rightarrow> SPVHeader list \<Rightarrow> LightClient \<Rightarrow> (LightClient \<times> unit res) outcome" where
  "validateAndAddHeaders fl [] lc = Ret (lc, Inr ())"
| "validateAndAddHeaders fl (header # hs) lc =
     obind (ValidatePoW header) (\<lambda>ok.
       if \<not> ok then Ret (lc, Inl (''invalid PoW at height '' @ dec_int (sh_Height header)))
       else case connects header lc of
         Inl e \<Rightarrow> Ret (lc, Inl e)
       | Inr _ \<Rightarrow>
           obind (if 0 < sh_Height header \<and> sh_Height header mod 2016 = 0 then verifyDifficulty fl header (lc_headers lc) else Ret True) (\<lambda>fits.
             if \<not> fits then Ret (lc, Inl (''difficulty adjustment failed at '' @ dec_int (sh_Height header)))
             else validateAndAddHeaders fl hs (append_header header lc)))"

text \<open>\<^verbatim>\<open>SyncHeaders\<close> asks for batches until one is shorter than the batch size; a server that never sends one keeps it running.\<close>

partial_function (option) sync_loop ::
  "(int \<Rightarrow> int \<Rightarrow> int \<Rightarrow> int) \<Rightarrow> (int \<Rightarrow> int \<Rightarrow> SPVHeader list res) \<Rightarrow> int \<Rightarrow> LightClient \<Rightarrow> ((LightClient \<times> unit res) outcome) option" where
  "sync_loop fl fetch startHeight lc =
     (let endHeight = startHeight + 2000 - 1 in
      case fetch startHeight endHeight of
        Inl e \<Rightarrow> Some (Ret (lc, Inl (''fetch headers '' @ dec_int startHeight @ ''-'' @ dec_int endHeight @ '': '' @ e)))
      | Inr headers \<Rightarrow>
          if headers = [] then Some (Ret (lc, Inr ()))
          else
            (case validateAndAddHeaders fl headers lc of
               Blocked \<Rightarrow> Some Blocked
             | Panic \<Rightarrow> Some Panic
             | Ret p \<Rightarrow>
                 (case snd p of
                    Inl e \<Rightarrow> Some (Ret (fst p, Inl (''validate headers: '' @ e)))
                  | Inr _ \<Rightarrow> if int (length headers) < 2000 then Some (Ret (fst p, Inr ())) else sync_loop fl fetch (endHeight + 1) (fst p))))"

definition LightClient_SyncHeaders ::
  "(int \<Rightarrow> int \<Rightarrow> int \<Rightarrow> int) \<Rightarrow> (int \<Rightarrow> int \<Rightarrow> SPVHeader list res) \<Rightarrow> int \<Rightarrow> LightClient \<Rightarrow> ((LightClient \<times> unit res) outcome) option" where
  "LightClient_SyncHeaders fl fetch now lc =
     map_option (\<lambda>r. obind r (\<lambda>(lc1, e). Ret (case e of Inl m \<Rightarrow> (lc1, Inl m) | Inr _ \<Rightarrow> (lc1\<lparr>lc_lastSyncTime := now\<rparr>, Inr ()))))
       (sync_loop fl fetch (if lc_headers lc \<noteq> [] then sh_Height (last (lc_headers lc)) + 1 else 0) lc)"

definition SubscribeAddress :: "string \<Rightarrow> LightClient \<Rightarrow> LightClient outcome" where
  "SubscribeAddress addr lc =
     obind (BloomFilter_Add (bytes_of_string addr) (lc_filter lc)) (\<lambda>f. Ret (lc\<lparr>lc_filter := f, lc_needsFilterUpdate := True\<rparr>))"

definition add_all :: "bytes list \<Rightarrow> BloomFilter \<Rightarrow> BloomFilter outcome" where
  "add_all xs f = fold (\<lambda>x r. obind r (BloomFilter_Add x)) xs (Ret f)"

definition SetFilter :: "string list \<Rightarrow> bytes list \<Rightarrow> LightClient \<Rightarrow> LightClient outcome" where
  "SetFilter addrs keys lc =
     obind (add_all (map bytes_of_string addrs @ concat (map (\<lambda>key. [key, sha256 key]) keys)) (lc_filter lc))
       (\<lambda>f. Ret (lc\<lparr>lc_filter := f, lc_needsFilterUpdate := True\<rparr>))"

definition filterTx :: "transaction \<Rightarrow> LightClient \<Rightarrow> bool outcome" where
  "filterTx tx lc =
     obind (BloomFilter_Contains (bytes_of_string (FromAddressSafe tx)) (lc_filter lc)) (\<lambda>a.
       if a then Ret True
       else obind (BloomFilter_Contains (bytes_of_string (tx_ToAddress tx)) (lc_filter lc)) (\<lambda>b.
         if b then Ret True
         else if sl (tx_Signature tx) \<noteq> [] then BloomFilter_Contains (sl (tx_Signature tx)) (lc_filter lc) else Ret False))"

definition LightClient_IsSynced :: "int \<Rightarrow> LightClient \<Rightarrow> bool" where
  "LightClient_IsSynced now lc = (case lc_bestHeader lc of None \<Rightarrow> False | Some h \<Rightarrow> i64 (now - sh_TimestampUnix h) < 1200)"

subsection \<open>Merkle proofs\<close>

definition Hash256 :: "bytes \<Rightarrow> bytes" where
  "Hash256 data = sha256 data"

record MerkleProofData =
  mp_BlockHash :: string
  mp_TxIndex :: int
  mp_TxHash :: string
  mp_Proof :: "string list"

fun nextLevel :: "bytes list \<Rightarrow> bytes list" where
  "nextLevel (a # b # r) = Hash256 (a @ b) # nextLevel r"
| "nextLevel r = r"

lemma length_nextLevel: "length (nextLevel l) = (length l + 1) div 2"
  by (induction l rule: nextLevel.induct) simp_all

function buildMerkleProof :: "bytes list \<Rightarrow> nat \<Rightarrow> string list" where
  "buildMerkleProof level idx =
     (if length level \<le> 1 then []
      else (if even idx then if idx + 1 < length level then [hex_encode (level ! (idx + 1))] else [] else [hex_encode (level ! (idx - 1))]) @
        buildMerkleProof (nextLevel level) (idx div 2))"
  by pat_completeness auto
termination
  by (relation "measure (\<lambda>(level, idx). length level)") (auto simp: length_nextLevel)

declare buildMerkleProof.simps [simp del]

definition txid_or_empty :: "transaction \<Rightarrow> string" where
  "txid_or_empty tx = (case TxIDHex tx of Inl _ \<Rightarrow> '''' | Inr txid \<Rightarrow> txid)"

fun find_index :: "string \<Rightarrow> transaction list \<Rightarrow> nat \<Rightarrow> nat option" where
  "find_index txid [] i = None"
| "find_index txid (tx # txs) i = (if txid_or_empty tx = txid then Some i else find_index txid txs (Suc i))"

definition CreateMerkleProof :: "transaction list \<Rightarrow> transaction \<Rightarrow> MerkleProofData option" where
  "CreateMerkleProof txs tx =
     (case find_index (txid_or_empty tx) txs 0 of
        None \<Rightarrow> None
      | Some i \<Rightarrow>
          Some \<lparr>mp_BlockHash = '''', mp_TxIndex = int i, mp_TxHash = txid_or_empty tx,
            mp_Proof = buildMerkleProof (map (\<lambda>t. Hash256 (bytes_of_string (txid_or_empty t))) txs) i\<rparr>)"

fun verify_loop :: "string list \<Rightarrow> int \<Rightarrow> bytes \<Rightarrow> bytes" where
  "verify_loop [] idx hash = hash"
| "verify_loop (step # steps) idx hash =
     (let stepHash = fst (hex_decode step) in
      verify_loop steps (tdiv idx 2) (if tmod idx 2 = 0 then Hash256 (hash @ stepHash) else Hash256 (stepHash @ hash)))"

definition VerifyMerkleProof :: "MerkleProofData option \<Rightarrow> string \<Rightarrow> bool" where
  "VerifyMerkleProof p merkleRoot =
     (case p of
        None \<Rightarrow> False
      | Some d \<Rightarrow> mp_Proof d \<noteq> [] \<and> hex_encode (verify_loop (mp_Proof d) (mp_TxIndex d) (Hash256 (bytes_of_string (mp_TxHash d)))) = merkleRoot)"

definition LightClient_VerifyMerkleProof :: "MerkleProofData option \<Rightarrow> string \<Rightarrow> LightClient \<Rightarrow> bool" where
  "LightClient_VerifyMerkleProof p blockHash lc =
     (case find (\<lambda>h. sh_Hash h = blockHash) (lc_headers lc) of None \<Rightarrow> False | Some h \<Rightarrow> VerifyMerkleProof p (sh_MerkleRoot h))"

subsection \<open>The header store of \<^verbatim>\<open>spv.go\<close>\<close>

record SPVClient =
  sc_MaxHeaders :: int
  sc_headers :: "(int, SPVHeader) gomap"
  sc_bestHeight :: int
  sc_bestHeader :: "SPVHeader option"
  sc_headerList :: "int list"
  sc_lastSyncTime :: int

definition NewSPVClient :: "int \<Rightarrow> SPVClient" where
  "NewSPVClient maxHeaders =
     \<lparr>sc_MaxHeaders = (if maxHeaders = 0 then 100000 else maxHeaders), sc_headers = [], sc_bestHeight = 0, sc_bestHeader = None,
      sc_headerList = [], sc_lastSyncTime = 0\<rparr>"

definition pruneOldHeaders :: "SPVClient \<Rightarrow> SPVClient outcome" where
  "pruneOldHeaders s =
     (if int (length (sc_headerList s)) \<le> tdiv (sc_MaxHeaders s) 2 then Ret s
      else
        let toRemove = tdiv (sc_MaxHeaders s) 4;
            headers = fold gdel (take (nat toRemove) (sc_headerList s)) (sc_headers s)
        in if toRemove < 0 \<or> int (length (sc_headerList s)) < toRemove then Panic
           else Ret (s\<lparr>sc_headers := headers, sc_headerList := drop (nat toRemove) (sc_headerList s)\<rparr>))"

definition validateAndAddHeader :: "SPVHeader \<Rightarrow> SPVClient \<Rightarrow> (SPVClient \<times> unit res) outcome" where
  "validateAndAddHeader header s =
     obind (ValidatePoW header) (\<lambda>ok.
       if \<not> ok then Ret (s, Inl (''invalid PoW at height '' @ dec_int (sh_Height header)))
       else if 0 < sc_bestHeight s \<and> (case gget (sc_headers s) (sc_bestHeight s) of None \<Rightarrow> False | Some prev \<Rightarrow> sh_PrevBlock header \<noteq> sh_Hash prev)
       then Ret (s, Inl (''chain discontinuity at height '' @ dec_int (sh_Height header)))
       else
         let s1 = s\<lparr>sc_headers := gput (sh_Height header) header (sc_headers s), sc_headerList := sc_headerList s @ [sh_Height header],
                    sc_bestHeight := sh_Height header, sc_bestHeader := Some header\<rparr>
         in if sc_MaxHeaders s1 < int (length (sc_headers s1)) then obind (pruneOldHeaders s1) (\<lambda>s2. Ret (s2, Inr ())) else Ret (s1, Inr ()))"

fun add_headers :: "SPVHeader list \<Rightarrow> SPVClient \<Rightarrow> (SPVClient \<times> unit res) outcome" where
  "add_headers [] s = Ret (s, Inr ())"
| "add_headers (h # hs) s =
     obind (validateAndAddHeader h s) (\<lambda>(s1, r).
       case r of
         Inl e \<Rightarrow> Ret (s1, Inl (''validate header at height '' @ dec_int (sh_Height h) @ '': '' @ e))
       | Inr _ \<Rightarrow> add_headers hs s1)"

definition SPVClient_GetHeader :: "int \<Rightarrow> SPVClient \<Rightarrow> SPVHeader res" where
  "SPVClient_GetHeader height s = (case gget (sc_headers s) height of None \<Rightarrow> Inl ''header not found'' | Some h \<Rightarrow> Inr h)"

definition GetHeaderByHash :: "string \<Rightarrow> SPVClient \<Rightarrow> SPVHeader res" where
  "GetHeaderByHash blockHash s =
     (case find (\<lambda>h. sh_Hash h = blockHash) (map snd (sc_headers s)) of None \<Rightarrow> Inl ''header not found'' | Some h \<Rightarrow> Inr h)"

text \<open>\<open>txHashes\<close> and \<open>proof\<close> are the server's answer for the block.\<close>

definition VerifyTxInBlock :: "string list \<Rightarrow> string list \<Rightarrow> string \<Rightarrow> int \<Rightarrow> SPVClient \<Rightarrow> MerkleProofData res" where
  "VerifyTxInBlock txHashes steps txHash blockHeight s =
     rbind (SPVClient_GetHeader blockHeight s) (\<lambda>header.
       if txHash \<notin> set txHashes then Inl ''invalid transaction index''
       else
         let p = \<lparr>mp_BlockHash = sh_Hash header, mp_TxIndex = int (length (takeWhile (\<lambda>h. h \<noteq> txHash) txHashes)),
                  mp_TxHash = txHash, mp_Proof = steps\<rparr>
         in if VerifyMerkleProof (Some p) (sh_MerkleRoot header) then Inr p else Inl ''invalid merkle proof'')"

fun address_loop :: "string list \<Rightarrow> int \<Rightarrow> bytes \<Rightarrow> bytes option" where
  "address_loop [] idx hash = Some hash"
| "address_loop (step # steps) idx hash =
     (case hex_decode step of (stepHash, ok) \<Rightarrow>
        if \<not> ok then None
        else address_loop steps (tdiv idx 2) (if tmod idx 2 = 0 then Hash256 (hash @ stepHash) else Hash256 (stepHash @ hash)))"

definition VerifyAddressProof :: "string \<Rightarrow> int \<Rightarrow> string list \<Rightarrow> string \<Rightarrow> bool" where
  "VerifyAddressProof txHash txIndex steps merkleRoot =
     (if steps = [] then False
      else case hex_decode txHash of (hash, ok) \<Rightarrow>
        if \<not> ok then False
        else case address_loop steps txIndex (Hash256 hash) of None \<Rightarrow> False | Some computed \<Rightarrow> hex_encode computed = merkleRoot)"

subsection \<open>No header of the chain passes the proof of work check\<close>

lemma calcTarget_zero: "d \<le> 1735 \<Longrightarrow> calcTarget d = Ret (replicate 32 0)"
proof -
  assume d: "d \<le> 1735"
  define e where "e = 256 - (if d \<le> 0 then 1 else d) div 8"
  have e: "40 \<le> e" "e \<le> 256" using d by (auto simp: e_def)
  have "push_bit (nat (e - 32)) (1 :: u8) = 0"
    using e by (simp add: exp_eq_zero_iff)
  then have "(replicate 32 0)[0 := push_bit (nat (e - 32)) (1 :: u8)] = replicate 32 0" by (simp only: numeral_eq_Suc replicate.simps list_update.simps nat.case pred_numeral_simps)
  then show ?thesis using e unfolding calcTarget_def Let_def e_def [symmetric] by simp
qed

lemma compare_zero: "compare_loop a (replicate (length a) 0) \<le> 0 \<longleftrightarrow> a = replicate (length a) 0"
  by (induction a) (auto simp: word_less_nat_alt)

text \<open>C22. A light client refuses every header of the chain: for every difficulty below 1736 the target it computes is zero, as the
  byte that should carry the bit is shifted out, so only the hash of 32 zero bytes passes.\<close>

theorem light_client_refuses_blocks:
  assumes "length (sl (blk_Hash b)) = 32" and "sl (blk_Hash b) \<noteq> replicate 32 0" and "unat (blk_DifficultyBits b) \<le> 1735"
  shows "\<exists>e. validateAndAddHeaders fl (blockToSPVHeader b # hs) lc = Ret (lc, Inl e)"
proof -
  have ne: "hex_encode (sl (blk_Hash b)) \<noteq> ''''" using assms(1) hex_decode_encode [of "sl (blk_Hash b)"] by auto
  have "uint (blk_DifficultyBits b) = int (unat (blk_DifficultyBits b))" by (rule uint_nat)
  then have "uint (blk_DifficultyBits b) \<le> 1735" using assms(3) by linarith
  then have "calcTarget (uint (blk_DifficultyBits b)) = Ret (replicate 32 0)" by (rule calcTarget_zero)
  moreover have "\<not> bytesCompare (bytesToUint256 (sl (blk_Hash b))) (replicate 32 0) \<le> 0"
    using assms(1,2) compare_zero [of "sl (blk_Hash b)"] by (simp add: bytesCompare_def bytesToUint256_def)
  ultimately have "ValidatePoW (blockToSPVHeader b) = Ret False"
    using ne assms(1) by (simp add: ValidatePoW_def blockToSPVHeader_def)
  then show ?thesis by simp
qed

theorem light_client_refuses_blocks_w:
  "\<exists>e. validateAndAddHeaders (\<lambda>_ _ _. 0) [blockToSPVHeader (demo_block\<lparr>blk_Hash := Some (0 # replicate 31 1)\<rparr>)] NewLightClient =
     Ret (NewLightClient, Inl e)"
  by (rule light_client_refuses_blocks) (simp_all add: demo_block_def numeral_eq_Suc)

subsection \<open>The headers of a light client\<close>

definition header_chain :: "SPVHeader list \<Rightarrow> bool" where
  "header_chain hs \<longleftrightarrow> (\<forall>i. Suc i < length hs \<longrightarrow> sh_PrevBlock (hs ! Suc i) = sh_Hash (hs ! i)) \<and> (\<forall>h \<in> set hs. ValidatePoW h = Ret True)"

lemma header_chain_snoc:
  "header_chain (hs @ [h]) \<longleftrightarrow> header_chain hs \<and> ValidatePoW h = Ret True \<and> (hs \<noteq> [] \<longrightarrow> sh_PrevBlock h = sh_Hash (last hs))"
proof (cases hs rule: rev_cases)
  case (snoc gs g)
  have "(\<forall>i. Suc i < length (hs @ [h]) \<longrightarrow> sh_PrevBlock ((hs @ [h]) ! Suc i) = sh_Hash ((hs @ [h]) ! i)) \<longleftrightarrow>
      (\<forall>i. Suc i < length hs \<longrightarrow> sh_PrevBlock (hs ! Suc i) = sh_Hash (hs ! i)) \<and> sh_PrevBlock h = sh_Hash g"
    by (auto simp: snoc nth_append less_Suc_eq)
  then show ?thesis by (auto simp: header_chain_def snoc)
qed (auto simp: header_chain_def)

lemma append_header_simps [simp]: "lc_headers (append_header h lc) = lc_headers lc @ [h]"
  by (simp add: append_header_def Let_def)

lemma validateAndAddHeaders_chain:
  "validateAndAddHeaders fl hs lc = Ret (lc', r) \<Longrightarrow> header_chain (lc_headers lc) \<Longrightarrow> header_chain (lc_headers lc')"
proof (induction fl hs lc rule: validateAndAddHeaders.induct)
  case (2 fl h hs lc)
  from 2(2) obtain ok where ok: "ValidatePoW h = Ret ok" by (auto simp: obind_Ret_iff)
  show ?case
  proof (cases "ok \<and> connects h lc = Inr () \<and> (\<exists>fits. (if 0 < sh_Height h \<and> sh_Height h mod 2016 = 0 then verifyDifficulty fl h (lc_headers lc) else Ret True) = Ret True)")
    case True
    then have "sh_PrevBlock h = sh_Hash (last (lc_headers lc))" if "lc_headers lc \<noteq> []"
      using that by (auto simp: connects_def split: if_splits)
    then have "header_chain (lc_headers (append_header h lc))" using True ok 2(3) by (simp add: header_chain_snoc)
    moreover have "validateAndAddHeaders fl hs (append_header h lc) = Ret (lc', r)" using 2(2) True ok by (auto split: if_splits)
    ultimately show ?thesis using 2(1) ok True by auto
  next
    case False
    then have "lc' = lc" using 2(2) ok by (auto simp: obind_Ret_iff split: if_splits sum.splits)
    then show ?thesis using 2(3) by simp
  qed
qed simp

lemma sync_loop_chain:
  "sync_loop fl fetch s lc = Some q \<Longrightarrow> header_chain (lc_headers lc) \<longrightarrow> (\<forall>lc' r. q = Ret (lc', r) \<longrightarrow> header_chain (lc_headers lc'))"
proof (erule sync_loop.raw_induct [rotated], intro impI allI)
  fix loop fl fetch s lc q lc' r
  assume ih: "\<And>fl fetch s lc q. loop fl fetch s lc = Some q \<Longrightarrow> header_chain (lc_headers lc) \<longrightarrow> (\<forall>lc' r. q = Ret (lc', r) \<longrightarrow> header_chain (lc_headers lc'))"
    and body: "(let endHeight = s + 2000 - 1 in
      case fetch s endHeight of
        Inl e \<Rightarrow> Some (Ret (lc, Inl (''fetch headers '' @ dec_int s @ ''-'' @ dec_int endHeight @ '': '' @ e)))
      | Inr headers \<Rightarrow>
          if headers = [] then Some (Ret (lc, Inr ()))
          else (case validateAndAddHeaders fl headers lc of
               Ret p \<Rightarrow> (case snd p of
                    Inl e \<Rightarrow> Some (Ret (fst p, Inl (''validate headers: '' @ e)))
                  | Inr _ \<Rightarrow> if int (length headers) < 2000 then Some (Ret (fst p, Inr ())) else loop fl fetch (endHeight + 1) (fst p))
             | Blocked \<Rightarrow> Some Blocked
             | Panic \<Rightarrow> Some Panic)) = Some q"
    and ok: "header_chain (lc_headers lc)" and q: "q = Ret (lc', r)"
  show "header_chain (lc_headers lc')"
  proof (cases "fetch s (s + 2000 - 1)")
    case (Inl e)
    then show ?thesis using body q ok by (simp add: Let_def)
  next
    case (Inr headers)
    show ?thesis
    proof (cases "headers = []")
      case True
      then show ?thesis using body q ok Inr by (simp add: Let_def)
    next
      case False
      then obtain p where p: "validateAndAddHeaders fl headers lc = Ret p"
        using body q Inr by (cases "validateAndAddHeaders fl headers lc") (simp_all add: Let_def)
      then have hc: "header_chain (lc_headers (fst p))" using validateAndAddHeaders_chain [OF _ ok, of fl headers "fst p" "snd p"] by simp
      have "lc' = fst p \<or> loop fl fetch (2000 + s) (fst p) = Some q"
        using body q Inr False p by (cases "snd p") (simp_all add: Let_def split: if_splits)
      then show ?thesis using hc ih [of fl fetch "2000 + s" "fst p" q] q by auto
    qed
  qed
qed

text \<open>C23. Whatever a server answers, the headers of a light client that was started fresh form a chain in which every header
  names the hash of the one before it, and each passed the proof of work check.\<close>

theorem synced_headers_chain:
  assumes "LightClient_SyncHeaders fl fetch now NewLightClient = Some (Ret (lc, r))"
  shows "header_chain (lc_headers lc)"
proof -
  obtain lc1 e where loop: "sync_loop fl fetch 0 NewLightClient = Some (Ret (lc1, e))" and lc: "lc_headers lc = lc_headers lc1"
  proof -
    have "lc_headers NewLightClient = []" by (simp add: NewLightClient_def)
    then obtain z where z: "sync_loop fl fetch 0 NewLightClient = Some z"
      "obind z (\<lambda>(lc1, e). Ret (case e of Inl m \<Rightarrow> (lc1, Inl m) | Inr _ \<Rightarrow> (lc1\<lparr>lc_lastSyncTime := now\<rparr>, Inr ()))) = Ret (lc, r)"
      using assms by (auto simp: LightClient_SyncHeaders_def)
    then obtain lc1 e where "z = Ret (lc1, e)" "(case e of Inl m \<Rightarrow> (lc1, Inl m) | Inr _ \<Rightarrow> (lc1\<lparr>lc_lastSyncTime := now\<rparr>, Inr ())) = (lc, r)"
      by (auto simp: obind_Ret_iff)
    then show thesis using that z(1) by (cases e) auto
  qed
  have "header_chain (lc_headers NewLightClient)" by (simp add: header_chain_def NewLightClient_def)
  with sync_loop_chain [OF loop] show ?thesis by (simp add: lc)
qed

definition zero_header :: "int \<Rightarrow> SPVHeader" where
  "zero_header n = \<lparr>sh_Version = 1, sh_Height = n, sh_TimestampUnix = 0, sh_PrevBlock = hex_encode (replicate 32 0), sh_Difficulty = 1, sh_Nonce = 0,
     sh_MerkleRoot = '''', sh_Hash = hex_encode (replicate 32 0)\<rparr>"

theorem synced_headers_chain_w:
  "\<exists>lc r. LightClient_SyncHeaders (\<lambda>_ _ _. 0) (\<lambda>_ _. Inr [zero_header 0, zero_header 1]) 9 NewLightClient = Some (Ret (lc, r)) \<and>
     length (lc_headers lc) = 2 \<and> header_chain (lc_headers lc)"
proof -
  have ne: "hex_encode (replicate 32 0) \<noteq> ''''" using hex_decode_encode [of "replicate 32 0"] by auto
  have pow: "ValidatePoW (zero_header n) = Ret True" for n
    using compare_zero [of "replicate 32 0"] calcTarget_zero [of 1] ne
    by (simp add: ValidatePoW_def zero_header_def bytesCompare_def bytesToUint256_def)
  obtain lc where lc: "LightClient_SyncHeaders (\<lambda>_ _ _. 0) (\<lambda>_ _. Inr [zero_header 0, zero_header 1]) 9 NewLightClient = Some (Ret (lc, Inr ()))"
    "length (lc_headers lc) = 2"
  proof -
    let ?lc1 = "append_header (zero_header 0) NewLightClient"
    have lc0: "lc_headers NewLightClient = []" "lc_trustedBlock NewLightClient = None" by (simp_all add: NewLightClient_def)
    have "connects (zero_header 0) NewLightClient = Inr ()" "connects (zero_header 1) ?lc1 = Inr ()"
      by (simp_all add: connects_def lc0, simp add: zero_header_def)
    moreover have "sh_Height (zero_header n) = n" for n by (simp add: zero_header_def)
    ultimately have "validateAndAddHeaders (\<lambda>_ _ _. 0) [zero_header 0, zero_header 1] NewLightClient = Ret (append_header (zero_header 1) ?lc1, Inr ())"
      by (simp add: pow)
    then have "LightClient_SyncHeaders (\<lambda>_ _ _. 0) (\<lambda>_ _. Inr [zero_header 0, zero_header 1]) 9 NewLightClient =
        Some (Ret ((append_header (zero_header 1) ?lc1)\<lparr>lc_lastSyncTime := 9\<rparr>, Inr ()))"
      by (simp add: LightClient_SyncHeaders_def sync_loop.simps lc0)
    then show thesis by (rule that) (simp add: lc0)
  qed
  with synced_headers_chain show ?thesis by blast
qed

text \<open>Synchronisation ends once the server has no more headers: then the loop returns from every start.\<close>

theorem sync_ends:
  assumes "\<And>s e. limit \<le> s \<Longrightarrow> fetch s e = Inr []"
  shows "\<exists>r. LightClient_SyncHeaders fl fetch now lc = Some r"
proof -
  have "\<exists>r. sync_loop fl fetch s lc = Some r" for s lc
  proof (induction "nat (limit - s)" arbitrary: s lc rule: less_induct)
    case less
    show ?case
    proof (cases "limit \<le> s")
      case True
      then show ?thesis using assms by (subst sync_loop.simps) (simp add: Let_def)
    next
      case False
      then have "\<exists>r. sync_loop fl fetch (2000 + s) lc1 = Some r" for lc1 using less [of "2000 + s" lc1] by auto
      then show ?thesis by (subst sync_loop.simps) (auto simp: Let_def split: sum.split outcome.split)
    qed
  qed
  then show ?thesis by (auto simp: LightClient_SyncHeaders_def)
qed

theorem sync_ends_w: "\<exists>r. LightClient_SyncHeaders (\<lambda>_ _ _. 0) (\<lambda>s _. Inr (if s < 4000 then replicate 2000 (zero_header 1) else [])) 9 NewLightClient = Some r"
  by (rule sync_ends [where limit = 4000]) simp

subsection \<open>What the Bloom filter promises\<close>

definition bloom_bad :: "BloomFilter \<Rightarrow> bytes \<Rightarrow> nat \<Rightarrow> bool" where
  "bloom_bad f data k \<longleftrightarrow> (of_nat (length (bf_data f) * 8) :: u32) = 0 \<or> length (bf_data f) \<le> bloom_index f data (of_nat k)"

lemma bloom_cong [simp]:
  assumes "length d = length (bf_data f)"
  shows "bloom_index (f\<lparr>bf_data := d\<rparr>) data i = bloom_index f data i" and "bloom_bad (f\<lparr>bf_data := d\<rparr>) data k = bloom_bad f data k"
  using assms by (simp_all add: bloom_bad_def bloom_index_def sipHash_def)

lemma fold_mark: "length (fold (\<lambda>k d. d[g k := (1 :: u8)]) ks d) = length d"
  "i < length d \<Longrightarrow> fold (\<lambda>k d. d[g k := (1 :: u8)]) ks d ! i = (if i \<in> g ` set ks then 1 else d ! i)"
  by (induction ks arbitrary: d) (auto simp: nth_list_update)

lemma add_loop_eq:
  "add_loop n data f =
     (if \<exists>k < n. bloom_bad f data k then Panic
      else Ret (f\<lparr>bf_data := fold (\<lambda>k d. d[bloom_index f data (of_nat k) := 1]) [0..<n] (bf_data f)\<rparr>))"
proof (induction n)
  case (Suc n)
  let ?d = "fold (\<lambda>k d. d[bloom_index f data (of_nat k) := 1]) [0..<n] (bf_data f)"
  have len: "length ?d = length (bf_data f)" by (simp add: fold_mark)
  have "add_loop (Suc n) data f = (if bloom_bad f data n then Panic else Ret (f\<lparr>bf_data := ?d[bloom_index f data (of_nat n) := 1]\<rparr>))"
    if "\<not> (\<exists>k < n. bloom_bad f data k)"
  proof -
    have "add_loop n data f = Ret (f\<lparr>bf_data := ?d\<rparr>)" using that Suc by simp
    then show ?thesis using len by (simp add: Let_def bloom_bad_def)
  qed
  moreover have "add_loop (Suc n) data f = Panic" if "\<exists>k < n. bloom_bad f data k" using that Suc by simp
  ultimately show ?case by (cases "\<exists>k < n. bloom_bad f data k") (auto simp: less_Suc_eq simp del: add_loop.simps)
qed simp

lemma contains_loop_True: "contains_loop ns data f = Ret True \<longleftrightarrow> (\<forall>n \<in> set ns. \<not> bloom_bad f data n \<and> bf_data f ! bloom_index f data (of_nat n) \<noteq> 0)"
  by (induction ns) (auto simp: Let_def bloom_bad_def)

text \<open>The Bloom filter has no false negatives: once an element has been added, it and everything that was found before is found.\<close>

theorem bloom_no_false_negatives:
  assumes "BloomFilter_Add x f = Ret g"
  shows "BloomFilter_Contains x g = Ret True \<and> (\<forall>y. BloomFilter_Contains y f = Ret True \<longrightarrow> BloomFilter_Contains y g = Ret True)"
proof -
  let ?d = "fold (\<lambda>k d. d[bloom_index f x (of_nat k) := 1]) [0..<unat (bf_hashFuncs f)] (bf_data f)"
  have g: "g = f\<lparr>bf_data := ?d\<rparr>" and ok: "\<forall>k < unat (bf_hashFuncs f). \<not> bloom_bad f x k"
    using assms by (auto simp: BloomFilter_Add_def add_loop_eq split: if_splits)
  have len: "length ?d = length (bf_data f)" by (simp add: fold_mark)
  have "?d ! bloom_index f x (of_nat n) \<noteq> 0" if "n < unat (bf_hashFuncs f)" for n
    using that ok by (auto simp: fold_mark bloom_bad_def)
  then have "BloomFilter_Contains x g = Ret True" using ok len by (simp add: g BloomFilter_Contains_def contains_loop_True)
  moreover have "BloomFilter_Contains y g = Ret True" if "BloomFilter_Contains y f = Ret True" for y
  proof -
    have y: "\<not> bloom_bad f y n \<and> bf_data f ! bloom_index f y (of_nat n) \<noteq> 0" if "n < unat (bf_hashFuncs f)" for n
      using \<open>BloomFilter_Contains y f = Ret True\<close> that by (simp add: BloomFilter_Contains_def contains_loop_True)
    then have "?d ! bloom_index f y (of_nat n) \<noteq> 0" if "n < unat (bf_hashFuncs f)" for n
    proof -
      have "bloom_index f y (of_nat n) < length (bf_data f)" using y [OF that] by (simp add: bloom_bad_def)
      from fold_mark(2) [OF this, of "\<lambda>k. bloom_index f x (of_nat k)" "[0..<unat (bf_hashFuncs f)]"] y [OF that] show ?thesis
        by (cases "bloom_index f y (of_nat n) \<in> (\<lambda>k. bloom_index f x (of_nat k)) ` set [0..<unat (bf_hashFuncs f)]") simp_all
    qed
    then show ?thesis using y len by (simp add: g BloomFilter_Contains_def contains_loop_True)
  qed
  ultimately show ?thesis by blast
qed

theorem bloom_no_false_negatives_w:
  "\<exists>g. BloomFilter_Add [97] (NewBloomFilter 30000 1 0) = Ret g \<and> BloomFilter_Contains [97] g = Ret True"
proof -
  have "bloom_index (NewBloomFilter 30000 1 0) [97] 0 = 97"
    by (simp add: bloom_index_def NewBloomFilter_def sipHash_def Let_def)
  then obtain g where "BloomFilter_Add [97] (NewBloomFilter 30000 1 0) = Ret g"
    by (simp add: BloomFilter_Add_def add_loop_eq bloom_bad_def) (simp add: NewBloomFilter_def)
  with bloom_no_false_negatives show ?thesis by blast
qed

text \<open>Adding an element panics exactly when one of its positions, taken modulo eight times the size, lies beyond the end of the
  slice, as seven out of eight positions do.\<close>

theorem bloom_add_panics:
  assumes "(of_nat (length (bf_data f) * 8) :: u32) \<noteq> 0"
  shows "BloomFilter_Add x f = Panic \<longleftrightarrow> (\<exists>k < unat (bf_hashFuncs f). length (bf_data f) \<le> bloom_index f x (of_nat k))"
  using assms by (simp add: BloomFilter_Add_def add_loop_eq bloom_bad_def)

theorem bloom_add_panics_w: "BloomFilter_Add (bytes_of_string ''NEO'') (lc_filter NewLightClient) = Panic"
proof -
  let ?f = "lc_filter NewLightClient"
  have f: "bf_matched ?f = []" "length (bf_data ?f) = 30000" "unat (bf_hashFuncs ?f) = 5" "bf_tweak ?f = 0"
    by (simp_all add: NewLightClient_def NewBloomFilter_def)
  have "(let h = fold (\<lambda>d h. h * 0x100000001b3 + ucast d) (bytes_of_string ''NEO'') (ucast (0 + 0 * 0xfba4c795 :: u32) :: u64)
      in ucast (h XOR drop_bit 32 h) :: u32) mod 240000 = 124300" by code_simp
  then have "bloom_index ?f (bytes_of_string ''NEO'') (of_nat 0) = 124300"
    unfolding bloom_index_def sipHash_def f(2,4) of_nat_0 by simp
  then have "\<exists>k < unat (bf_hashFuncs ?f). length (bf_data ?f) \<le> bloom_index ?f (bytes_of_string ''NEO'') (of_nat k)"
    using f by (intro exI [of _ 0]) simp
  moreover have "(of_nat (length (bf_data ?f) * 8) :: u32) \<noteq> 0" by (simp add: f(2))
  ultimately show ?thesis using bloom_add_panics [of ?f "bytes_of_string ''NEO''"] by blast
qed

subsection \<open>Merkle proofs of light clients\<close>

function spv_root :: "bytes list \<Rightarrow> bytes" where
  "spv_root level = (if length level \<le> 1 then hd level else spv_root (nextLevel level))"
  by pat_completeness auto
termination
  by (relation "measure length") (auto simp: length_nextLevel)

declare spv_root.simps [simp del]

lemma nth_nextLevel: "2 * j + 1 < length l \<Longrightarrow> nextLevel l ! j = Hash256 (l ! (2 * j) @ l ! (2 * j + 1))"
proof (induction l arbitrary: j rule: nextLevel.induct)
  case (1 a b r)
  then show ?case by (cases j) simp_all
qed simp_all

lemma verify_built:
  assumes "length level = 2 ^ k" and "idx < 2 ^ k"
  shows "verify_loop (buildMerkleProof level idx) (int idx) (level ! idx) = spv_root level"
  using assms
proof (induction k arbitrary: level idx)
  case 0
  then show ?case by (subst buildMerkleProof.simps, subst spv_root.simps) (cases level; auto)
next
  case (Suc k)
  let ?next = "nextLevel level" and ?j = "idx div 2"
  have pos: "(1 :: nat) \<le> 2 ^ k" by simp
  have len: "length ?next = 2 ^ k" "?j < 2 ^ k" using Suc.prems by (simp_all add: length_nextLevel)
  moreover have "\<not> length level \<le> 1" using Suc.prems(1) pos by (simp only: power_Suc)
  ultimately have len: "length ?next = 2 ^ k" "?j < 2 ^ k" "\<not> length level \<le> 1" by blast+
  have dm: "tdiv (int idx) 2 = int ?j" "tmod (int idx) 2 = int (idx mod 2)"
    by (simp_all add: tmod_def tdiv_nonneg zdiv_int minus_mult_div_eq_mod [symmetric] of_nat_mod)
  have bound: "2 * ?j + 1 < length level" using Suc.prems len(2) by simp
  define j where "j = ?j"
  have idx: "even idx \<and> idx = 2 * j \<or> odd idx \<and> idx = 2 * j + 1" unfolding j_def by presburger
  have step: "buildMerkleProof level idx = hex_encode (level ! (if even idx then idx + 1 else idx - 1)) # buildMerkleProof ?next j"
    using bound len(3) idx by (subst buildMerkleProof.simps) (auto simp: j_def [symmetric])
  have "(if tmod (int idx) 2 = 0 then Hash256 (level ! idx @ level ! (idx + 1)) else Hash256 (level ! (idx - 1) @ level ! idx)) = ?next ! j"
    using nth_nextLevel [OF bound] idx unfolding dm(2) j_def [symmetric] by (elim disjE conjE) (simp_all add: even_iff_mod_2_eq_zero odd_iff_mod_2_eq_one)
  then have "verify_loop (buildMerkleProof level idx) (int idx) (level ! idx) = verify_loop (buildMerkleProof ?next ?j) (int ?j) (?next ! ?j)"
    unfolding step using dm by (cases "even idx") (simp_all add: Let_def even_iff_mod_2_eq_zero j_def)
  also have "\<dots> = spv_root level" using Suc.IH [OF len(1,2)] len(3) by (simp add: spv_root.simps [of level])
  finally show ?case .
qed

lemma find_index_found:
  "tx \<in> set txs \<Longrightarrow> \<exists>i < length txs. find_index (txid_or_empty tx) txs n = Some (n + i) \<and> txid_or_empty (txs ! i) = txid_or_empty tx"
proof (induction txs arbitrary: n)
  case (Cons t txs)
  show ?case
  proof (cases "txid_or_empty t = txid_or_empty tx")
    case False
    then have "tx \<in> set txs" using Cons.prems by auto
    from Cons.IH [OF this, of "Suc n"] obtain i where "i < length txs" "find_index (txid_or_empty tx) txs (Suc n) = Some (Suc n + i)"
      "txid_or_empty (txs ! i) = txid_or_empty tx" by blast
    with False show ?thesis by (intro exI [of _ "Suc i"]) simp
  qed auto
qed simp



text \<open>C32. The proof of the last of three transactions is accepted only if two different messages have the same SHA-256 hash: the step that
  the maker leaves out, for a node without sibling, shifts the sides on which the verifier puts the hashes.\<close>

theorem spv_proof_of_third_fails:
  assumes "txid_or_empty t0 \<noteq> txid_or_empty t2" and "txid_or_empty t1 \<noteq> txid_or_empty t2"
  shows "let h = (\<lambda>t. sha256 (bytes_of_string (txid_or_empty t))); n = sha256 (h t0 @ h t1) in
     VerifyMerkleProof (CreateMerkleProof [t0, t1, t2] t2) (hex_encode (spv_root (map h [t0, t1, t2]))) \<longleftrightarrow> sha256 (h t2 @ n) = sha256 (n @ h t2)"
proof -
  let ?h = "\<lambda>t. sha256 (bytes_of_string (txid_or_empty t))"
  let ?n = "sha256 (?h t0 @ ?h t1)"
  have build: "buildMerkleProof [?h t0, ?h t1, ?h t2] 2 = [hex_encode ?n]"
    by (simp add: buildMerkleProof.simps Hash256_def)
  have root: "spv_root [?h t0, ?h t1, ?h t2] = sha256 (?n @ ?h t2)" by (simp add: spv_root.simps Hash256_def)
  have dm: "tdiv 2 2 = 1" "tmod 2 2 = 0" by (simp_all add: tdiv_def tmod_def)
  have inj: "hex_encode a = hex_encode b \<longleftrightarrow> a = b" for a b by (metis hex_decode_encode prod.inject)
  have "VerifyMerkleProof (CreateMerkleProof [t0, t1, t2] t2) (hex_encode (sha256 (?n @ ?h t2))) \<longleftrightarrow> sha256 (?h t2 @ ?n) = sha256 (?n @ ?h t2)"
    using assms build dm inj by (simp add: VerifyMerkleProof_def CreateMerkleProof_def Hash256_def numeral_2_eq_2)
  then show ?thesis using root by (simp add: Let_def)
qed

theorem spv_proof_of_third_fails_w:
  "let t2 = demo_tx\<lparr>tx_FromPubKey := None\<rparr>; h = (\<lambda>t. sha256 (bytes_of_string (txid_or_empty t))); n = sha256 (h demo_tx @ h demo_tx) in
     VerifyMerkleProof (CreateMerkleProof [demo_tx, demo_tx, t2] t2) (hex_encode (spv_root (map h [demo_tx, demo_tx, t2]))) \<longleftrightarrow>
     sha256 (h t2 @ n) = sha256 (n @ h t2)"
proof -
  have "txid_or_empty demo_tx \<noteq> ''''" "txid_or_empty (demo_tx\<lparr>tx_FromPubKey := None\<rparr>) = ''''"
    by (simp_all add: txid_or_empty_def TxIDHex_def SigningHash_def signingHashLegacyJSON_def FromAddress_def demo_tx_def)
  then have "txid_or_empty demo_tx \<noteq> txid_or_empty (demo_tx\<lparr>tx_FromPubKey := None\<rparr>)" by simp
  from spv_proof_of_third_fails [OF this this] show ?thesis unfolding Let_def .
qed

subsection \<open>The header store never panics\<close>

definition spv_ok :: "SPVClient \<Rightarrow> bool" where
  "spv_ok s \<longleftrightarrow> 0 < sc_MaxHeaders s \<and> gmap_ok (sc_headers s) \<and> fst ` set (sc_headers s) \<subseteq> set (sc_headerList s)"

lemma spv_ok_length: "spv_ok s \<Longrightarrow> length (sc_headers s) \<le> length (sc_headerList s)"
proof -
  assume ok: "spv_ok s"
  then have "length (sc_headers s) = card (fst ` set (sc_headers s))" by (simp add: spv_ok_def gmap_ok_def distinct_card flip: set_map length_map)
  also have "\<dots> \<le> card (set (sc_headerList s))" using ok by (intro card_mono) (simp_all add: spv_ok_def)
  also have "\<dots> \<le> length (sc_headerList s)" by (rule card_length)
  finally show ?thesis .
qed

lemma headers_fold_gdel: "gmap_ok m \<Longrightarrow> gmap_ok (fold gdel ks m) \<and> fst ` set (fold gdel ks m) = fst ` set m - set ks"
  by (induction ks arbitrary: m) (auto simp: keys_gdel)

lemma pruneOldHeaders_ok:
  assumes "spv_ok s" and "sc_MaxHeaders s < int (length (sc_headers s))"
  shows "\<exists>s'. pruneOldHeaders s = Ret s' \<and> spv_ok s'"
proof -
  let ?n = "nat (tdiv (sc_MaxHeaders s) 4)" and ?l = "sc_headerList s"
  have pos: "0 < sc_MaxHeaders s" and ok: "gmap_ok (sc_headers s)" "fst ` set (sc_headers s) \<subseteq> set ?l" using assms(1) by (simp_all add: spv_ok_def)
  have "tdiv (sc_MaxHeaders s) 4 = sc_MaxHeaders s div 4" using pos by (simp add: tdiv_nonneg)
  then have r: "0 \<le> tdiv (sc_MaxHeaders s) 4" "tdiv (sc_MaxHeaders s) 4 \<le> int (length ?l)" using pos assms(2) spv_ok_length [OF assms(1)] by auto
  have "set ?l - set (take ?n ?l) \<subseteq> set (drop ?n ?l)" using set_append [of "take ?n ?l" "drop ?n ?l"] by auto
  then have "spv_ok (s\<lparr>sc_headers := fold gdel (take ?n ?l) (sc_headers s), sc_headerList := drop ?n ?l\<rparr>)"
    using pos ok headers_fold_gdel [OF ok(1), of "take ?n ?l"] by (auto simp: spv_ok_def)
  then show ?thesis using assms(1) r by (auto simp: pruneOldHeaders_def Let_def)
qed

lemma ValidatePoW_ends: "sh_Difficulty h < 2048 \<Longrightarrow> \<exists>ok. ValidatePoW h = Ret ok"
  by (auto simp: ValidatePoW_def calcTarget_def Let_def obind_Ret_iff split: prod.split)

lemma validateAndAddHeader_ok:
  assumes "spv_ok s" and "sh_Difficulty h < 2048"
  shows "\<exists>s' r. validateAndAddHeader h s = Ret (s', r) \<and> spv_ok s'"
proof -
  obtain ok where pow: "ValidatePoW h = Ret ok" using ValidatePoW_ends [OF assms(2)] by blast
  let ?s = "s\<lparr>sc_headers := gput (sh_Height h) h (sc_headers s), sc_headerList := sc_headerList s @ [sh_Height h],
    sc_bestHeight := sh_Height h, sc_bestHeader := Some h\<rparr>"
  have "spv_ok ?s" using assms(1) by (auto simp: spv_ok_def keys_gput)
  then show ?thesis
    using pow assms(1) pruneOldHeaders_ok [of ?s] by (auto simp: validateAndAddHeader_def Let_def)
qed

text \<open>The header store of an SPV client never panics and its list of heights always covers the stored headers, as long as no header
  has a difficulty of 2048 or more, for which the target has no byte.\<close>

theorem spv_store_safe:
  assumes "0 \<le> maxHeaders" and "\<forall>h \<in> set hs. sh_Difficulty h < 2048"
  shows "\<exists>s r. add_headers hs (NewSPVClient maxHeaders) = Ret (s, r) \<and> fst ` set (sc_headers s) \<subseteq> set (sc_headerList s)"
proof -
  have "\<exists>s' r. add_headers hs s = Ret (s', r) \<and> spv_ok s'" if "spv_ok s" for s
    using that assms(2)
  proof (induction hs arbitrary: s)
    case (Cons h hs)
    then obtain s1 r where "validateAndAddHeader h s = Ret (s1, r)" "spv_ok s1" using validateAndAddHeader_ok [of s h] by auto
    then show ?case using Cons by (cases r) auto
  qed auto
  moreover have "spv_ok (NewSPVClient maxHeaders)" using assms(1) by (simp add: spv_ok_def NewSPVClient_def gmap_ok_def)
  ultimately obtain s r where "add_headers hs (NewSPVClient maxHeaders) = Ret (s, r)" "spv_ok s" by blast
  then show ?thesis by (auto simp: spv_ok_def)
qed

theorem spv_store_safe_w:
  "\<exists>s r. add_headers [zero_header 1, zero_header 2] (NewSPVClient 0) = Ret (s, r) \<and> fst ` set (sc_headers s) \<subseteq> set (sc_headerList s)"
  by (rule spv_store_safe) (simp_all add: zero_header_def)

end
