(* ===== verification/Spec2Isabelle.thy ===== *)
theory Spec2Isabelle
  imports Mining Boot Mempool VM Trie FeePool LightClient
begin

text \<open>
  NeoCoin is an account-based proof-of-work chain.
\<close>

end
